(* ===== verification/Prelude.thy ===== *)
theory Prelude
  imports Main "HOL-Library.Word"
begin

text \<open>
  What the component theories share: the C integer types of \<open>types.h\<close>, the outcome of a
  kernel routine (a value, or the reason it does not return), the wait channels of
  \<open>sleep\<close> and \<open>wakeup\<close>, and the little-endian layout that the x86 compiler gives to the
  16 and 32 bit fields of on-disk and in-memory structures.
\<close>

unbundle bit_operations_syntax

named_theorems outcome_simps
named_theorems layout_simps

subsection \<open>Integers\<close>

text \<open>\<open>uint\<close>, \<open>ushort\<close> and \<open>uchar\<close> of \<open>types.h\<close>.\<close>

type_synonym uint = "32 word"
type_synonym ushort = "16 word"
type_synonym uchar = "8 word"

subsection \<open>Outcomes\<close>

text \<open>
  A channel is the address of a kernel object; distinct objects have distinct addresses, so
  a channel is named by the object it points to.
\<close>

datatype chan =
    ChBuf nat
  | ChInode nat
  | ChLog
  | ChPipeRead uint
  | ChPipeWrite uint
  | ChProc nat
  | ChTicks
  | ChInput

text \<open>
  Why a routine does not return to its caller: it panics with a message, it sleeps on a
  channel, or it performs an access that C leaves undefined (an index past the end of an
  array, a null pointer).
\<close>

datatype stop = Panic string | Sleep chan | Undef string

type_synonym 'a outcome = "stop + 'a"

fun ebind :: "'e + 'a \<Rightarrow> ('a \<Rightarrow> 'e + 'b) \<Rightarrow> 'e + 'b" where
  "ebind (Inl e) f = Inl e"
| "ebind (Inr x) f = f x"

lemma ebind_eq_Inr [outcome_simps]: "ebind m f = Inr y \<longleftrightarrow> (\<exists>x. m = Inr x \<and> f x = Inr y)"
  by (cases m) auto

lemma ebind_eq_Inl [outcome_simps]:
  "ebind m f = Inl e \<longleftrightarrow> m = Inl e \<or> (\<exists>x. m = Inr x \<and> f x = Inl e)"
  by (cases m) auto

lemma ebind_assoc: "ebind (ebind m f) g = ebind m (\<lambda>x. ebind (f x) g)"
  by (cases m) auto

lemma ebind_cong [fundef_cong]:
  "m = n \<Longrightarrow> (\<And>x. n = Inr x \<Longrightarrow> f x = g x) \<Longrightarrow> ebind m f = ebind n g"
  by (cases n) auto

text \<open>A loop over the elements of a list whose body may stop.\<close>

fun efold :: "('x \<Rightarrow> 's \<Rightarrow> 'e + 's) \<Rightarrow> 'x list \<Rightarrow> 's \<Rightarrow> 'e + 's" where
  "efold f [] s = Inr s"
| "efold f (x # xs) s = ebind (f x s) (efold f xs)"

lemma efold_append: "efold f (xs @ ys) s = ebind (efold f xs s) (efold f ys)"
proof (induction xs arbitrary: s)
  case (Cons x xs)
  then show ?case by (cases "f x s") simp_all
qed simp

lemma efold_inv:
  assumes "efold f xs s = Inr t" "P s" "\<And>x s t. x \<in> set xs \<Longrightarrow> P s \<Longrightarrow> f x s = Inr t \<Longrightarrow> P t"
  shows "P t"
  using assms by (induction xs arbitrary: s) (auto simp: ebind_eq_Inr)

subsection \<open>Searches\<close>

lemma find_SomeD: "List.find P xs = Some x \<Longrightarrow> x \<in> set xs \<and> P x"
  by (induction xs) (auto split: if_splits)

lemma find_exists: "x \<in> set xs \<Longrightarrow> P x \<Longrightarrow> \<exists>y. List.find P xs = Some y"
  by (induction xs) auto

subsection \<open>Little-endian layout\<close>

definition le16 :: "ushort \<Rightarrow> uchar list" where
  "le16 w = [ucast w, ucast (drop_bit 8 w)]"

definition le32 :: "uint \<Rightarrow> uchar list" where
  "le32 w = [ucast w, ucast (drop_bit 8 w), ucast (drop_bit 16 w), ucast (drop_bit 24 w)]"

definition of_le16 :: "uchar list \<Rightarrow> ushort" where
  "of_le16 bs = ucast (bs ! 0) OR push_bit 8 (ucast (bs ! 1))"

definition of_le32 :: "uchar list \<Rightarrow> uint" where
  "of_le32 bs = ucast (bs ! 0) OR push_bit 8 (ucast (bs ! 1)) OR
     push_bit 16 (ucast (bs ! 2)) OR push_bit 24 (ucast (bs ! 3))"

lemma length_le16 [simp]: "length (le16 w) = 2"
  by (simp add: le16_def)

lemma length_le32 [simp]: "length (le32 w) = 4"
  by (simp add: le32_def)

lemma of_le16_le16 [simp]: "of_le16 (le16 w) = w"
  by (rule bit_word_eqI) (auto simp: of_le16_def le16_def bit_simps)

lemma of_le32_le32 [simp]: "of_le32 (le32 w) = w"
proof (rule bit_word_eqI)
  fix n assume "n < LENGTH(32)"
  then consider "n < 8" | "8 \<le> n" "n < 16" | "16 \<le> n" "n < 24" | "24 \<le> n" "n < 32"
    by force
  then show "bit (of_le32 (le32 w)) n = bit w n"
    by cases (auto simp: of_le32_def le32_def bit_simps)
qed

lemma le32_of_le32:
  assumes "length bs = 4"
  shows "le32 (of_le32 bs) = bs"
proof -
  from assms obtain a b c d where bs: "bs = [a, b, c, d]"
    by (auto simp: numeral_eq_Suc length_Suc_conv)
  have high: "8 \<le> n \<Longrightarrow> \<not> bit x n" for x :: uchar and n
    by (auto dest: bit_imp_le_length)
  show ?thesis
    unfolding bs le32_def of_le32_def
    by (auto intro!: bit_word_eqI simp: bit_simps high)
qed

end
