(* ===== verification/Memory.thy ===== *)
theory Memory
  imports Prelude
begin

text \<open>
  Kernel memory as bytes at 32-bit addresses, with the 32-bit loads and stores that a
  \<open>uint*\<close> performs on the little-endian x86, and regions \<open>[a, a + n)\<close> of it.  An address is in a
  region when its offset from the base is below the length, which is meaningful for
  regions that wrap around the top of the address space as well.
\<close>

type_synonym memory = "uint \<Rightarrow> uchar"

definition in_region :: "uint \<Rightarrow> nat \<Rightarrow> uint \<Rightarrow> bool" where
  "in_region a n x \<longleftrightarrow> unat (x - a) < n"

definition load32 :: "memory \<Rightarrow> uint \<Rightarrow> uint" where
  "load32 m a = of_le32 [m a, m (a + 1), m (a + 2), m (a + 3)]"

definition store32 :: "memory \<Rightarrow> uint \<Rightarrow> uint \<Rightarrow> memory" where
  "store32 m a v = m(a := le32 v ! 0, a + 1 := le32 v ! 1, a + 2 := le32 v ! 2, a + 3 := le32 v ! 3)"

subsection \<open>Offsets\<close>

lemma unat_eq_Suc_minus_one: "(x :: 'a::len word) \<noteq> 0 \<Longrightarrow> unat x = Suc (unat (x - 1))"
  by (metis Suc_pred' unat_gt_0 unat_minus_one)

lemma unat_less_32: "unat (x :: uint) < 2 ^ 32"
proof -
  have "unat x < 2 ^ LENGTH(32)" by (rule unsigned_less)
  then show ?thesis by simp
qed

lemma in_region_0 [simp]: "\<not> in_region a 0 x"
  by (simp add: in_region_def)

lemma in_region_Suc:
  assumes "n < 2 ^ 32"
  shows "in_region a (Suc n) x \<longleftrightarrow> x = a \<or> in_region (a + 1) n x"
proof (cases "x = a")
  case True
  then show ?thesis by (simp add: in_region_def)
next
  case False
  then have "x - a \<noteq> 0" by simp
  then have "unat (x - a) = Suc (unat (x - a - 1))" by (rule unat_eq_Suc_minus_one)
  moreover have "x - a - 1 = x - (a + 1)" by simp
  ultimately show ?thesis using False by (simp add: in_region_def)
qed

lemma not_in_region_next:
  assumes "n < 2 ^ 32"
  shows "\<not> in_region (a + 1) n a"
proof -
  have "a - (a + 1) = (- 1 :: uint)" by simp
  then have "unat (a - (a + 1)) = 2 ^ 32 - 1" 
    by (simp add: unsigned_minus_1_eq_mask mask_eq_exp_minus_1)
  with assms show ?thesis by (simp add: in_region_def)
qed

lemma in_region_4:
  "in_region a 4 x \<longleftrightarrow> x = a \<or> x = a + 1 \<or> x = a + 2 \<or> x = a + 3"
proof -
  have "in_region a (Suc (Suc (Suc (Suc 0)))) x \<longleftrightarrow>
      x = a \<or> x = a + 1 \<or> x = a + 2 \<or> x = a + 3"
    by (simp add: in_region_Suc add.assoc)
  then show ?thesis by (simp add: eval_nat_numeral)
qed

lemma in_region_add:
  assumes "k + n \<le> 2 ^ 32"
  shows "in_region a (k + n) x \<longleftrightarrow> in_region a k x \<or> in_region (a + of_nat k) n x"
  using assms
proof (induction k arbitrary: a)
  case 0
  then show ?case by simp
next
  case (Suc k)
  then show ?case
    by (simp add: in_region_Suc add.assoc)
qed

lemma in_region_mono: "in_region a n x \<Longrightarrow> n \<le> k \<Longrightarrow> in_region a k x"
  by (simp add: in_region_def)

lemma in_region_shift:
  assumes "unat w + n \<le> 2 ^ 32"
  shows "in_region (a + w) n x \<longleftrightarrow> unat w \<le> unat (x - a) \<and> unat (x - a) < unat w + n"
proof -
  have "x - (a + w) = (x - a) - w" by simp
  then have "unat (x - (a + w)) =
      (if unat w \<le> unat (x - a) then unat (x - a) - unat w else unat (x - a) + 2 ^ 32 - unat w)"
    by (simp only: unat_sub_if_size word_size) simp
  with assms show ?thesis by (auto simp: in_region_def)
qed

lemma in_region_sub:
  assumes "in_region (a + w) n x" "unat w + n \<le> k" "k \<le> 2 ^ 32"
  shows "in_region a k x"
proof -
  have "unat w + n \<le> 2 ^ 32" using assms(2,3) by simp
  from in_region_shift [OF this, of a x] assms show ?thesis by (simp add: in_region_def)
qed

lemma in_region_apart:
  assumes "in_region (a + w) n x" "unat w + n \<le> unat v" "unat v + k \<le> 2 ^ 32"
  shows "\<not> in_region (a + v) k x"
proof -
  have "unat w + n \<le> 2 ^ 32" using assms(2,3) by simp
  from in_region_shift [OF this, of a x] in_region_shift [OF assms(3), of a x] assms(1,2)
  show ?thesis by simp
qed

subsection \<open>Words in memory\<close>

lemma distinct_word_bytes:
  "a + 1 \<noteq> (a :: uint)" "a + 2 \<noteq> a" "a + 3 \<noteq> a"
  "a + 2 \<noteq> a + 1" "a + 3 \<noteq> a + 1" "a + 3 \<noteq> a + 2"
  by simp_all

lemma load32_store32 [simp]: "load32 (store32 m a v) a = v"
proof -
  have "[le32 v ! 0, le32 v ! 1, le32 v ! 2, le32 v ! 3] = le32 v"
    by (simp add: le32_def)
  then show ?thesis
    by (simp add: load32_def store32_def)
qed

lemma load32_cong: "(\<And>x. in_region a 4 x \<Longrightarrow> m x = m' x) \<Longrightarrow> load32 m a = load32 m' a"
  by (simp add: load32_def in_region_4)

lemma store32_other: "\<not> in_region a 4 x \<Longrightarrow> store32 m a v x = m x"
  by (simp add: store32_def in_region_4)

lemma load32_store32_other:
  assumes "\<And>x. in_region b 4 x \<Longrightarrow> \<not> in_region a 4 x"
  shows "load32 (store32 m a v) b = load32 m b"
  using assms by (intro load32_cong) (simp add: store32_other)

end
