(* ===== verification/CString.thy ===== *)
theory CString
  imports Memory
begin

text \<open>
  \<open>string.c\<close> (with the \<open>stosb\<close> and \<open>stosl\<close> instructions of \<open>x86.h\<close> it uses), one
  definition per routine.  A routine that writes works on the byte memory; a routine that
  only reads sees a \<open>char*\<close> as the bytes from that address on.  The theorems state what each
  routine leaves in memory or returns, for every argument: \<open>memmove\<close> for overlapping
  buffers, \<open>memset\<close> on both of its paths, the string copies on truncated and on short
  sources.
\<close>

type_synonym cptr = "nat \<Rightarrow> uchar"

definition cptr_at :: "memory \<Rightarrow> uint \<Rightarrow> cptr" where
  "cptr_at m a = (\<lambda>i. m (a + of_nat i))"

definition advance :: "cptr \<Rightarrow> cptr" where
  "advance p = (\<lambda>i. p (Suc i))"

text \<open>The bytes before the first NUL among the first \<open>n\<close>, the string that \<open>p\<close> spells.\<close>

definition cstr :: "nat \<Rightarrow> cptr \<Rightarrow> uchar list" where
  "cstr n p = takeWhile (\<lambda>c. c \<noteq> 0) (map p [0..<n])"

subsection \<open>Definitions\<close>

fun stosb :: "uint \<Rightarrow> uint \<Rightarrow> nat \<Rightarrow> memory \<Rightarrow> memory" where
  "stosb addr data 0 m = m"
| "stosb addr data (Suc cnt) m = stosb (addr + 1) data cnt (m(addr := ucast data))"

fun stosl :: "uint \<Rightarrow> uint \<Rightarrow> nat \<Rightarrow> memory \<Rightarrow> memory" where
  "stosl addr data 0 m = m"
| "stosl addr data (Suc cnt) m = stosl (addr + 4) data cnt (store32 m addr data)"

definition memset :: "uint \<Rightarrow> uint \<Rightarrow> uint \<Rightarrow> memory \<Rightarrow> memory" where
  "memset dst c n m =
     (if dst mod 4 = 0 \<and> n mod 4 = 0
      then let c = c AND 0xFF
           in stosl dst (push_bit 24 c OR push_bit 16 c OR push_bit 8 c OR c) (unat (n div 4)) m
      else stosb dst c (unat n) m)"

fun memcmp :: "cptr \<Rightarrow> cptr \<Rightarrow> nat \<Rightarrow> int" where
  "memcmp s1 s2 0 = 0"
| "memcmp s1 s2 (Suc n) =
     (if s1 0 \<noteq> s2 0 then uint (s1 0) - uint (s2 0) else memcmp (advance s1) (advance s2) n)"

fun copy_up :: "uint \<Rightarrow> uint \<Rightarrow> nat \<Rightarrow> memory \<Rightarrow> memory" where
  "copy_up d s 0 m = m"
| "copy_up d s (Suc n) m = copy_up (d + 1) (s + 1) n (m(d := m s))"

fun copy_down :: "uint \<Rightarrow> uint \<Rightarrow> nat \<Rightarrow> memory \<Rightarrow> memory" where
  "copy_down d s 0 m = m"
| "copy_down d s (Suc n) m = copy_down (d - 1) (s - 1) n (m(d - 1 := m (s - 1)))"

definition memmove :: "uint \<Rightarrow> uint \<Rightarrow> uint \<Rightarrow> memory \<Rightarrow> memory" where
  "memmove dst src n m =
     (if src < dst \<and> src + n > dst
      then copy_down (dst + n) (src + n) (unat n) m
      else copy_up dst src (unat n) m)"

definition memcpy :: "uint \<Rightarrow> uint \<Rightarrow> uint \<Rightarrow> memory \<Rightarrow> memory" where
  "memcpy dst src n m = memmove dst src n m"

fun strncmp :: "cptr \<Rightarrow> cptr \<Rightarrow> nat \<Rightarrow> int" where
  "strncmp p q 0 = 0"
| "strncmp p q (Suc n) =
     (if p 0 \<noteq> 0 \<and> p 0 = q 0 then strncmp (advance p) (advance q) n
      else uint (p 0) - uint (q 0))"

text \<open>
  \<open>strncpy\<close> is two loops over one counter: the first copies up to and including the NUL,
  the second fills what is left with NUL.  The counter is \<open>n\<close> after the test \<open>n-- > 0\<close>.
\<close>

fun zero_fill :: "uint \<Rightarrow> nat \<Rightarrow> memory \<Rightarrow> memory" where
  "zero_fill s 0 m = m"
| "zero_fill s (Suc n) m = zero_fill (s + 1) n (m(s := 0))"

fun strncpy_loop :: "uint \<Rightarrow> uint \<Rightarrow> nat \<Rightarrow> memory \<Rightarrow> memory" where
  "strncpy_loop s t 0 m = m"
| "strncpy_loop s t (Suc n) m =
     (let m' = m(s := m t)
      in if m' s \<noteq> 0 then strncpy_loop (s + 1) (t + 1) n m' else zero_fill (s + 1) n m')"

definition strncpy :: "uint \<Rightarrow> uint \<Rightarrow> int \<Rightarrow> memory \<Rightarrow> memory" where
  "strncpy s t n m = strncpy_loop s t (nat n) m"

fun safestrcpy_loop :: "uint \<Rightarrow> uint \<Rightarrow> nat \<Rightarrow> memory \<Rightarrow> memory" where
  "safestrcpy_loop s t 0 m = m(s := 0)"
| "safestrcpy_loop s t (Suc n) m =
     (let m' = m(s := m t)
      in if m' s \<noteq> 0 then safestrcpy_loop (s + 1) (t + 1) n m' else m'(s + 1 := 0))"

definition safestrcpy :: "uint \<Rightarrow> uint \<Rightarrow> int \<Rightarrow> memory \<Rightarrow> memory" where
  "safestrcpy s t n m = (if n \<le> 0 then m else safestrcpy_loop s t (nat (n - 1)) m)"

partial_function (option) strlen_from :: "cptr \<Rightarrow> nat \<Rightarrow> nat option" where
  "strlen_from s n = (if s n = 0 then Some n else strlen_from s (Suc n))"

definition strlen :: "cptr \<Rightarrow> nat option" where
  "strlen s = strlen_from s 0"

text \<open>What \<open>strncpy\<close> leaves in an \<open>n\<close>-byte field: the string, cut or padded with NUL.\<close>

fun strncpy_bytes :: "cptr \<Rightarrow> nat \<Rightarrow> uchar list" where
  "strncpy_bytes t 0 = []"
| "strncpy_bytes t (Suc n) =
     (if t 0 = 0 then replicate (Suc n) 0 else t 0 # strncpy_bytes (advance t) n)"

subsection \<open>Lemmas\<close>

lemma stosb_region:
  "n < 2 ^ 32 \<Longrightarrow> stosb a c n m = (\<lambda>x. if in_region a n x then ucast c else m x)"
  by (induction n arbitrary: a m) (auto simp: in_region_Suc not_in_region_next fun_eq_iff)

lemma and_0xFF: "(c :: uint) AND 0xFF = take_bit 8 c"
  by (simp add: take_bit_eq_mask mask_eq_exp_minus_1)

lemma le32_replicated_byte:
  fixes c :: uint
  defines "b \<equiv> take_bit 8 c"
  shows "le32 (push_bit 24 b OR push_bit 16 b OR push_bit 8 b OR b) = replicate 4 (ucast c)"
proof -
  have high: "bit b k \<longleftrightarrow> k < 8 \<and> bit c k" for k
    by (simp add: b_def bit_take_bit_iff)
  have "replicate 4 (ucast c :: uchar) = [ucast c, ucast c, ucast c, ucast c]"
    by (simp add: eval_nat_numeral)
  then show ?thesis
    unfolding le32_def
    by (auto intro!: bit_word_eqI simp: bit_simps high)
qed

lemma store32_bytes:
  "store32 m a v = (\<lambda>x. if in_region a 4 x then le32 v ! unat (x - a) else m x)"
  by (rule ext) (auto simp: store32_def in_region_4 le32_def)

lemma stosl_region:
  assumes "le32 w = replicate 4 b" "n \<le> 2 ^ 30"
  shows "stosl a w n m = (\<lambda>x. if in_region a (4 * n) x then b else m x)"
  using assms(2)
proof (induction n arbitrary: a m)
  case 0
  then show ?case by simp
next
  case (Suc n)
  have "in_region a (4 + 4 * n) x \<longleftrightarrow> in_region a 4 x \<or> in_region (a + 4) (4 * n) x" for x
    using Suc.prems in_region_add [of 4 "4 * n" a x] by simp
  moreover have "in_region a 4 x \<Longrightarrow> le32 w ! unat (x - a) = b" for x
    using assms(1) by (simp add: in_region_def)
  ultimately show ?case
    using Suc by (auto simp: store32_bytes fun_eq_iff)
qed

lemma memset_region:
  "memset dst c n m = (\<lambda>x. if in_region dst (unat n) x then ucast c else m x)"
proof (cases "dst mod 4 = 0 \<and> n mod 4 = 0")
  case True
  have "unat n = 4 * unat (n div 4)"
    using True by (simp add: unat_div unat_mod_distrib flip: unat_eq_zero) presburger
  moreover have "unat (n div 4) \<le> 2 ^ 30"
    using unat_less_32 [of n] by (simp add: unat_div)
  ultimately show ?thesis
    using True by (simp add: memset_def Let_def and_0xFF stosl_region [OF le32_replicated_byte])
next
  case False
  then show ?thesis
    using unat_less_32 [of n] by (auto simp: memset_def stosb_region)
qed

text \<open>
  C19 (functional). \<open>memset\<close> stores the low byte of \<open>c\<close> in exactly the \<open>n\<close> bytes from \<open>dst\<close> on,
  whether it takes the aligned path (\<open>stosl\<close> of the replicated byte, \<open>n / 4\<close> words) or the
  byte path (\<open>stosb\<close>).
\<close>

theorem memset_correct:
  "memset dst c n m = (\<lambda>x. if in_region dst (unat n) x then ucast c else m x)"
  by (rule memset_region)

subsection \<open>memmove\<close>

text \<open>
  Copying upwards reads \<open>s + k\<close> after \<open>d, \<dots>, d + k - 1\<close> are written, so it is right when
  the destination starts no less than \<open>n\<close> above the source; copying downwards is the mirror
  image.
\<close>

lemma copy_up_region:
  assumes "n < 2 ^ 32" "d = s \<or> n \<le> unat (d - s)"
  shows "copy_up d s n m = (\<lambda>x. if in_region d n x then m (s + (x - d)) else m x)"
  using assms
proof (induction n arbitrary: d s m)
  case 0
  then show ?case by simp
next
  case (Suc n)
  have IH: "copy_up (d + 1) (s + 1) n m' =
      (\<lambda>x. if in_region (d + 1) n x then m' (s + 1 + (x - (d + 1))) else m' x)" for m'
    using Suc.prems by (intro Suc.IH) auto
  have hazard: "s + (x - d) \<noteq> d" if "in_region (d + 1) n x" for x
  proof
    have "x \<noteq> d" using that Suc.prems(1) not_in_region_next by auto
    assume "s + (x - d) = d"
    then have eq: "x - d = d - s" by (simp add: algebra_simps)
    have "unat (x - d) < Suc n"
      using that Suc.prems(1) in_region_Suc [of n d x] by (simp add: in_region_def)
    with eq Suc.prems(2) have "d = s" by auto
    with eq \<open>x \<noteq> d\<close> show False by simp
  qed
  show ?case
  proof (rule ext)
    fix x
    have "s + 1 + (x - (d + 1)) = s + (x - d)" by simp
    then show "copy_up d s (Suc n) m x = (if in_region d (Suc n) x then m (s + (x - d)) else m x)"
      using Suc.prems(1) hazard [of x]
      by (simp only: copy_up.simps IH fun_upd_apply in_region_Suc [of n d x]) (auto simp: not_in_region_next)
  qed
qed

lemma copy_down_region:
  assumes "n < 2 ^ 32" "d = s \<or> n \<le> unat (s - d)"
  shows "copy_down (d + of_nat n) (s + of_nat n) n m =
     (\<lambda>x. if in_region d n x then m (s + (x - d)) else m x)"
  using assms
proof (induction n arbitrary: m)
  case 0
  then show ?case by simp
next
  case (Suc n)
  let ?e = "d + of_nat n"
  let ?m = "m(?e := m (s + of_nat n))"
  have IH: "copy_down ?e (s + of_nat n) n ?m =
      (\<lambda>x. if in_region d n x then ?m (s + (x - d)) else ?m x)"
    using Suc.prems by (intro Suc.IH) auto
  have off: "unat (of_nat n :: uint) = n"
    using Suc.prems(1) by (simp add: unat_of_nat)
  have last: "in_region d (Suc n) x \<longleftrightarrow> in_region d n x \<or> x = ?e" for x
    using Suc.prems(1) in_region_add [of n 1 d x] by (simp add: in_region_Suc)
  have hazard: "s + (x - d) \<noteq> ?e" if "in_region d n x" for x
  proof
    assume "s + (x - d) = ?e"
    then have "s - d = of_nat n - (x - d)" by (simp add: algebra_simps)
    moreover have "unat (of_nat n - (x - d)) = n - unat (x - d)"
      using that off by (subst unat_sub) (auto simp: in_region_def word_le_nat_alt)
    ultimately have "unat (s - d) = n - unat (x - d)" by (simp only:)
    moreover have "unat (x - d) < n" using that by (simp add: in_region_def)
    ultimately show False using Suc.prems(2) by auto
  qed
  have fresh: "\<not> in_region d n ?e" using off by (simp add: in_region_def)
  have "copy_down (d + of_nat (Suc n)) (s + of_nat (Suc n)) (Suc n) m = copy_down ?e (s + of_nat n) n ?m"
    by simp
  then show ?case
    using hazard fresh by (auto simp: IH fun_eq_iff last)
qed

lemma memmove_region:
  assumes "unat src + unat n < 2 ^ 32" "unat dst + unat n \<le> 2 ^ 32"
  shows "memmove dst src n m =
     (\<lambda>x. if in_region dst (unat n) x then m (src + (x - dst)) else m x)"
proof (cases "src < dst \<and> src + n > dst")
  case True
  have "unat (src + n) = unat src + unat n"
    using assms(1) by (simp add: unat_word_ariths)
  with True have less: "unat src < unat dst" "unat dst < unat src + unat n"
    by (auto simp: word_less_nat_alt)
  have "unat (src - dst) = 2 ^ 32 + unat src - unat dst"
    using less by (simp add: unat_sub_if_size word_size)
  with assms less have "unat n \<le> unat (src - dst)" by simp
  then show ?thesis
    using True copy_down_region [of "unat n" dst src m] assms(1) by (simp add: memmove_def)
next
  case False
  have sum: "unat (src + n) = unat src + unat n"
    using assms(1) by (simp add: unat_word_ariths)
  have "dst = src \<or> unat n \<le> unat (dst - src)"
  proof (cases "src < dst")
    case True
    with False sum have "unat src + unat n \<le> unat dst" "unat src < unat dst"
      by (auto simp: word_less_nat_alt not_less)
    then show ?thesis by (auto simp: unat_sub_if_size word_size)
  next
    case False
    then have "unat dst \<le> unat src" by (simp add: word_less_nat_alt not_less)
    then show ?thesis
      using assms by (auto simp: unat_sub_if_size word_size word_unat_eq_iff)
  qed
  then show ?thesis
    using False copy_up_region [of "unat n" dst src m] assms(1) by (auto simp: memmove_def)
qed

text \<open>
  C7 (functional). \<open>memmove\<close> copies as if through a temporary: for any two buffers of \<open>n\<close> bytes
  that do not run past the top of the address space, overlapping or not, each destination byte
  is what the source byte was before the call and no other byte changes.
\<close>

theorem memmove_correct:
  assumes "unat src + unat n < 2 ^ 32" "unat dst + unat n \<le> 2 ^ 32"
  shows "(\<forall>i < unat n. memmove dst src n m (dst + of_nat i) = m (src + of_nat i)) \<and>
     (\<forall>x. \<not> in_region dst (unat n) x \<longrightarrow> memmove dst src n m x = m x)"
proof (intro conjI)
  show "\<forall>i < unat n. memmove dst src n m (dst + of_nat i) = m (src + of_nat i)"
  proof (intro allI impI)
    fix i assume "i < unat n"
    moreover from this have "unat (of_nat i :: uint) = i"
      using unat_less_32 [of n] by (simp add: unat_of_nat)
    ultimately show "memmove dst src n m (dst + of_nat i) = m (src + of_nat i)"
      using memmove_region [OF assms] by (simp add: in_region_def)
  qed
  show "\<forall>x. \<not> in_region dst (unat n) x \<longrightarrow> memmove dst src n m x = m x"
    using memmove_region [OF assms] by simp
qed

theorem memmove_correct_witness:
  "memmove 101 100 3 (\<lambda>x. ucast x) 103 = 102 \<and> memmove 101 100 3 (\<lambda>x. ucast x) 104 = 104"
proof -
  have "\<forall>i < unat (3 :: uint). memmove 101 100 3 (\<lambda>x. ucast x) (101 + of_nat i) = ucast (100 + of_nat i :: uint)"
    "\<forall>x. \<not> in_region 101 (unat (3 :: uint)) x \<longrightarrow> memmove 101 100 3 (\<lambda>x. ucast x) x = ucast x"
    using memmove_correct [of 100 3 101 "\<lambda>x. ucast x"] by simp_all
  from this(1) [rule_format, of 2] this(2) [rule_format, of 104] show ?thesis
    by (simp add: in_region_def)
qed

subsection \<open>Comparisons\<close>

lemma map_upt_Suc_advance: "map p [0..<Suc n] = p 0 # map (advance p) [0..<n]"
  by (simp add: advance_def map_upt_Suc del: upt_Suc)

lemma byte_order:
  "uint (a :: uchar) = uint b \<longleftrightarrow> a = b" "0 < uint a \<longleftrightarrow> a \<noteq> 0" "uint a = 0 \<longleftrightarrow> a = 0"
  by (auto simp: word_uint_eq_iff order_less_le)

lemma memcmp_eq_0: "memcmp s1 s2 n = 0 \<longleftrightarrow> map s1 [0..<n] = map s2 [0..<n]"
  by (induction s1 s2 n rule: memcmp.induct)
     (auto simp: map_upt_Suc_advance byte_order simp del: upt_Suc)

lemma cstr_0 [simp]: "cstr 0 p = []"
  by (simp add: cstr_def)

lemma cstr_Suc: "cstr (Suc n) p = (if p 0 = 0 then [] else p 0 # cstr n (advance p))"
  by (simp add: cstr_def map_upt_Suc_advance del: upt_Suc)

lemma strncmp_eq_0: "strncmp p q n = 0 \<longleftrightarrow> cstr n p = cstr n q"
  by (induction p q n rule: strncmp.induct) (auto simp: cstr_Suc byte_order)

text \<open>
  C22 (functional). \<open>strncmp\<close> is the three-way comparison of the two strings cut at \<open>n\<close> bytes:
  zero exactly when they are equal, negative or positive exactly when the first is before or
  after the second in the lexicographic order of unsigned bytes.
\<close>

theorem strncmp_order:
  "(strncmp p q n = 0 \<longleftrightarrow> cstr n p = cstr n q) \<and>
   (strncmp p q n < 0 \<longleftrightarrow> (cstr n p, cstr n q) \<in> lexord {(a, b). a < b}) \<and>
   (strncmp p q n > 0 \<longleftrightarrow> (cstr n q, cstr n p) \<in> lexord {(a, b). a < b})"
  by (induction p q n rule: strncmp.induct)
     (auto simp: cstr_Suc word_less_def byte_order)

subsection \<open>String copies\<close>

lemma length_strncpy_bytes [simp]: "length (strncpy_bytes t n) = n"
  by (induction t n rule: strncpy_bytes.induct) auto

lemma strncpy_bytes_cong: "(\<And>i. i < n \<Longrightarrow> t i = t' i) \<Longrightarrow> strncpy_bytes t n = strncpy_bytes t' n"
proof (induction n arbitrary: t t')
  case (Suc n)
  have "strncpy_bytes (advance t) n = strncpy_bytes (advance t') n"
    using Suc.prems by (intro Suc.IH) (simp add: advance_def)
  moreover have "t 0 = t' 0" using Suc.prems by simp
  ultimately show ?case by simp
qed simp

lemma cstr_cong: "(\<And>i. i < n \<Longrightarrow> t i = t' i) \<Longrightarrow> cstr n t = cstr n t'"
  unfolding cstr_def by (intro arg_cong [where f = "takeWhile _"] map_cong) auto

lemma cstr_zeros: "0 < n \<Longrightarrow> t 0 = 0 \<Longrightarrow> cstr n t = []"
  by (cases n) (auto simp: cstr_Suc)

lemma cstr_strncpy_bytes: "cstr n (\<lambda>i. strncpy_bytes t n ! i) = cstr n t"
proof (induction t n rule: strncpy_bytes.induct)
  case (2 t n)
  have "t 0 \<noteq> 0 \<Longrightarrow> advance ((!) (strncpy_bytes t (Suc n))) = (!) (strncpy_bytes (advance t) n)"
    by (simp add: advance_def fun_eq_iff)
  with 2 show ?case
    by (auto simp: cstr_Suc)
qed simp

lemma length_cstr: "length (cstr n t) \<le> n"
  unfolding cstr_def using length_takeWhile_le [of _ "map t [0..<n]"] by simp

lemma strncpy_bytes_pad:
  "length (cstr n t) \<le> i \<Longrightarrow> i < n \<Longrightarrow> strncpy_bytes t n ! i = 0"
proof (induction t n arbitrary: i rule: strncpy_bytes.induct)
  case (2 t n)
  then show ?case by (cases i) (auto simp: cstr_Suc simp del: replicate_Suc split: if_splits)
qed simp

lemma advance_cptr_at: "advance (cptr_at m a) = cptr_at m (a + 1)"
  by (simp add: advance_def cptr_at_def add.assoc)

lemma cptr_at_0: "cptr_at m a 0 = m a"
  by (simp add: cptr_at_def)

lemma zero_fill_region:
  "n < 2 ^ 32 \<Longrightarrow> zero_fill s n m = (\<lambda>x. if in_region s n x then 0 else m x)"
  by (induction n arbitrary: s m) (auto simp: in_region_Suc not_in_region_next fun_eq_iff)

text \<open>Two buffers that do not overlap: no byte of the source is a byte of the destination.\<close>

definition apart :: "uint \<Rightarrow> uint \<Rightarrow> nat \<Rightarrow> bool" where
  "apart s t n \<longleftrightarrow> (\<forall>i < n. \<not> in_region s n (t + of_nat i))"

lemma apart_Suc:
  assumes "apart s t (Suc n)" "n < 2 ^ 32"
  shows "apart (s + 1) (t + 1) n"
  unfolding apart_def
proof (intro allI impI)
  fix i assume "i < n"
  with assms have "\<not> in_region s (Suc n) (t + of_nat (Suc i))"
    unfolding apart_def by blast
  with assms(2) show "\<not> in_region (s + 1) n (t + 1 + of_nat i)"
    by (simp add: in_region_Suc add.assoc)
qed

lemma cptr_at_apart:
  assumes "apart s t (Suc n)" "i < n"
  shows "cptr_at (m(s := v)) (t + 1) i = cptr_at m (t + 1) i"
proof -
  from assms have "\<not> in_region s (Suc n) (t + of_nat (Suc i))"
    unfolding apart_def by blast
  then have "s \<noteq> t + 1 + of_nat i" by (auto simp: in_region_def add.assoc)
  then show ?thesis by (simp add: cptr_at_def)
qed

lemma apart_above:
  assumes "unat s + n \<le> unat t" "unat t + n \<le> 2 ^ 32"
  shows "apart s t n"
  unfolding apart_def
proof (intro allI impI)
  fix i assume "i < n"
  with assms have "unat (t + of_nat i) = unat t + i"
    using unat_less_32 [of t] by (simp add: unat_word_ariths unat_of_nat)
  with assms show "\<not> in_region s n (t + of_nat i)"
    by (simp add: in_region_def unat_sub_if_size)
qed

lemma strncpy_loop_region:
  assumes "n < 2 ^ 32" "apart s t n"
  shows "strncpy_loop s t n m =
     (\<lambda>x. if in_region s n x then strncpy_bytes (cptr_at m t) n ! unat (x - s) else m x)"
  using assms
proof (induction n arbitrary: s t m)
  case 0
  then show ?case by simp
next
  case (Suc n)
  let ?m = "m(s := m t)"
  have n: "n < 2 ^ 32" using Suc.prems by simp
  have step: "unat (x - s) = Suc (unat (x - (s + 1)))" if "in_region (s + 1) n x" for x
    using that not_in_region_next [OF n, of s] unat_eq_Suc_minus_one [of "x - s"]
    by (auto simp: diff_diff_eq)
  have bytes: "strncpy_bytes (cptr_at ?m (t + 1)) n = strncpy_bytes (advance (cptr_at m t)) n"
    using cptr_at_apart [OF Suc.prems(2)] by (intro strncpy_bytes_cong) (simp add: advance_cptr_at)
  have IH: "strncpy_loop (s + 1) (t + 1) n ?m = (\<lambda>x. if in_region (s + 1) n x
      then strncpy_bytes (advance (cptr_at m t)) n ! unat (x - (s + 1)) else ?m x)"
    using Suc.IH [OF n apart_Suc [OF Suc.prems(2) n], of ?m] by (simp only: bytes)
  have small: "in_region s (Suc n) x \<Longrightarrow> unat (x - s) < Suc n" for x
    by (simp add: in_region_def)
  show ?case
  proof (cases "m t = 0")
    case True
    then show ?thesis
      using small in_region_Suc [OF n, of s]
      by (auto simp: Let_def zero_fill_region [OF n] fun_eq_iff cptr_at_0 simp del: replicate_Suc)
  next
    case False
    then show ?thesis
      by (auto simp: Let_def IH in_region_Suc [OF n] fun_eq_iff cptr_at_0 step
          not_in_region_next [OF n])
  qed
qed


text \<open>
  C20 (functional). \<open>strncpy\<close> between buffers that do not overlap writes exactly the \<open>n\<close> bytes of
  the destination: it then spells the source string cut at \<open>n\<close> bytes, and every byte from the
  first NUL of the source on is NUL.
\<close>

theorem strncpy_correct:
  assumes "0 \<le> n" "n < 2 ^ 31" "apart s t (nat n)"
  shows "cstr (nat n) (cptr_at (strncpy s t n m) s) = cstr (nat n) (cptr_at m t) \<and>
     (\<forall>i. length (cstr (nat n) (cptr_at m t)) \<le> i \<and> i < nat n \<longrightarrow> strncpy s t n m (s + of_nat i) = 0) \<and>
     (\<forall>x. \<not> in_region s (nat n) x \<longrightarrow> strncpy s t n m x = m x)"
proof (intro conjI)
  have small: "nat n < 2 ^ 32" using assms by simp
  note region = strncpy_loop_region [OF small assms(3), of m, folded strncpy_def]
  have at: "i < nat n \<Longrightarrow> cptr_at (strncpy s t n m) s i = strncpy_bytes (cptr_at m t) (nat n) ! i" for i
  proof -
    assume "i < nat n"
    moreover from this have "unat (of_nat i :: uint) = i"
      using small by (simp add: unat_of_nat)
    ultimately show ?thesis by (simp only: region cptr_at_def in_region_def add_diff_cancel_left' if_True)
  qed
  show "cstr (nat n) (cptr_at (strncpy s t n m) s) = cstr (nat n) (cptr_at m t)"
    by (rule trans [OF cstr_cong [OF at] cstr_strncpy_bytes])
  show "\<forall>i. length (cstr (nat n) (cptr_at m t)) \<le> i \<and> i < nat n \<longrightarrow> strncpy s t n m (s + of_nat i) = 0"
    using at strncpy_bytes_pad [of "nat n" "cptr_at m t"] by (auto simp: cptr_at_def)
  show "\<forall>x. \<not> in_region s (nat n) x \<longrightarrow> strncpy s t n m x = m x"
    by (simp add: region)
qed

theorem strncpy_correct_witness:
  "cstr 4 (cptr_at (strncpy 100 200 4 (\<lambda>x. if x = 200 then 65 else 0)) 100) = [65]"
proof -
  have "apart 100 200 (nat 4)"
    by (rule apart_above) simp_all
  from strncpy_correct [OF _ _ this, of "\<lambda>x. if x = 200 then 65 else 0"] show ?thesis
    by (simp add: cstr_def cptr_at_def upt_rec)
qed

lemma safestrcpy_loop_spec:
  assumes "k < 2 ^ 31" "apart s t (Suc k)"
  shows "(\<forall>x. \<not> in_region s (Suc k) x \<longrightarrow> safestrcpy_loop s t k m x = m x) \<and>
     cstr (Suc k) (cptr_at (safestrcpy_loop s t k m) s) = cstr k (cptr_at m t)"
  using assms
proof (induction k arbitrary: s t m)
  case 0
  then show ?case by (simp add: in_region_def cstr_Suc cptr_at_def)
next
  case (Suc k)
  let ?m = "m(s := m t)"
  let ?r = "safestrcpy_loop (s + 1) (t + 1) k ?m"
  have k: "Suc k < 2 ^ 32" "k < 2 ^ 31" "k < 2 ^ 32" using Suc.prems by simp_all
  have IH: "\<forall>x. \<not> in_region (s + 1) (Suc k) x \<longrightarrow> ?r x = ?m x"
     "cstr (Suc k) (cptr_at ?r (s + 1)) = cstr k (cptr_at ?m (t + 1))"
    using Suc.IH [OF k(2) apart_Suc [OF Suc.prems(2) k(1)], of ?m] by blast+
  have src: "cstr k (cptr_at ?m (t + 1)) = cstr k (cptr_at m (t + 1))"
    using cptr_at_apart [OF Suc.prems(2)] by (intro cstr_cong) simp
  have first: "?r s = m t" using IH(1) not_in_region_next [OF k(1)] by simp
  show ?case
  proof (cases "m t = 0")
    case True
    then show ?thesis
      by (auto simp: Let_def in_region_Suc [OF k(1)] in_region_Suc [OF k(3)] cstr_Suc cptr_at_0)
  next
    case False
    then show ?thesis
      using IH first src
      by (auto simp: Let_def in_region_Suc [OF k(1)] cstr_Suc [of "Suc k"] cstr_Suc [of k "cptr_at m t"]
          cptr_at_0 advance_cptr_at)
  qed
qed

text \<open>
  C21 (safety). \<open>safestrcpy\<close> into a field of \<open>n > 0\<close> bytes always leaves a NUL-terminated string
  there, the source cut at \<open>n - 1\<close> bytes, and writes nothing outside the field; with \<open>n \<le> 0\<close> it
  writes nothing at all.
\<close>

theorem safestrcpy_terminates_string:
  assumes "n < 2 ^ 31" "apart s t (nat n)"
  shows "(0 < n \<longrightarrow> cstr (nat n) (cptr_at (safestrcpy s t n m) s) = cstr (nat n - 1) (cptr_at m t)) \<and>
     (0 < n \<longrightarrow> length (cstr (nat n) (cptr_at (safestrcpy s t n m) s)) < nat n) \<and>
     (\<forall>x. \<not> in_region s (nat n) x \<longrightarrow> safestrcpy s t n m x = m x)"
proof (intro conjI)
  have spec: "(\<forall>x. \<not> in_region s (nat n) x \<longrightarrow> safestrcpy s t n m x = m x) \<and>
      cstr (nat n) (cptr_at (safestrcpy s t n m) s) = cstr (nat n - 1) (cptr_at m t)" if "0 < n"
    using that assms safestrcpy_loop_spec [of "nat (n - 1)" s t m]
    by (simp add: safestrcpy_def nat_diff_distrib)
  show "0 < n \<longrightarrow> cstr (nat n) (cptr_at (safestrcpy s t n m) s) = cstr (nat n - 1) (cptr_at m t)"
    using spec by simp
  show "0 < n \<longrightarrow> length (cstr (nat n) (cptr_at (safestrcpy s t n m) s)) < nat n"
    using spec length_cstr [of "nat n - 1" "cptr_at m t"] by (auto simp: less_eq_Suc_le)
  show "\<forall>x. \<not> in_region s (nat n) x \<longrightarrow> safestrcpy s t n m x = m x"
    using spec by (cases "0 < n") (auto simp: safestrcpy_def)
qed

theorem safestrcpy_terminates_string_witness:
  "cstr (nat 2) (cptr_at (safestrcpy 100 200 2 (\<lambda>x. 65)) 100) = [65]"
proof -
  have "apart 100 200 (nat 2)"
    by (rule apart_above) simp_all
  from safestrcpy_terminates_string [OF _ this, of "\<lambda>x. 65"]
  have "cstr (nat 2) (cptr_at (safestrcpy 100 200 2 (\<lambda>x. 65)) 100) = cstr (nat 2 - 1) (cptr_at (\<lambda>x. 65) 200)"
    by simp
  then show ?thesis by (simp add: cstr_def cptr_at_def)
qed

subsection \<open>strlen\<close>

lemma strlen_from_Some:
  assumes "s (n + k) = 0" "\<forall>i < k. s (n + i) \<noteq> 0"
  shows "strlen_from s n = Some (n + k)"
  using assms
proof (induction k arbitrary: n)
  case 0
  then show ?case by (simp add: strlen_from.simps)
next
  case (Suc k)
  from Suc.prems(2) have "s n \<noteq> 0" by force
  moreover have "strlen_from s (Suc n) = Some (Suc n + k)"
    using Suc.prems by (intro Suc.IH) auto
  ultimately show ?case by (simp add: strlen_from.simps [of s n])
qed

lemma strlen_Some: "s k = 0 \<Longrightarrow> (\<forall>i < k. s i \<noteq> 0) \<Longrightarrow> strlen s = Some k"
  using strlen_from_Some [of s 0 k] by (simp add: strlen_def)

end
