(* ===== verification/Mmu.thy ===== *)
theory Mmu
  imports Prelude
begin

text \<open>
  \<open>memlayout.h\<close> and \<open>mmu.h\<close>: the kernel's address space layout, the page arithmetic and the
  three parts of a virtual address, page table entry flags, and the segment and gate
  descriptors.  A bit field of a descriptor is a word of the field's width.  The lemmas give
  the page arithmetic as \<open>div\<close> and \<open>mod\<close> of the address, for the theories on memory
  management; the theorems are the round trips between an address and its parts.
\<close>

subsection \<open>memlayout.h\<close>

definition EXTMEM :: uint where "EXTMEM = 0x100000"
definition PHYSTOP :: uint where "PHYSTOP = 0xE000000"
definition DEVSPACE :: uint where "DEVSPACE = 0xFE000000"
definition KERNBASE :: uint where "KERNBASE = 0x80000000"
definition KERNLINK :: uint where "KERNLINK = KERNBASE + EXTMEM"

definition v2p :: "uint \<Rightarrow> uint" where "v2p a = a - KERNBASE"
definition p2v :: "uint \<Rightarrow> uint" where "p2v a = a + KERNBASE"

subsection \<open>mmu.h: addresses and page table entries\<close>

definition PGSIZE :: uint where "PGSIZE = 4096"
definition NPDENTRIES :: nat where "NPDENTRIES = 1024"
definition NPTENTRIES :: nat where "NPTENTRIES = 1024"

definition PDX :: "uint \<Rightarrow> uint" where
  "PDX va = drop_bit 22 va AND 0x3FF"

definition PTX :: "uint \<Rightarrow> uint" where
  "PTX va = drop_bit 12 va AND 0x3FF"

definition PGADDR :: "uint \<Rightarrow> uint \<Rightarrow> uint \<Rightarrow> uint" where
  "PGADDR d t ofs = push_bit 22 d OR push_bit 12 t OR ofs"

definition PGROUNDUP :: "uint \<Rightarrow> uint" where
  "PGROUNDUP sz = (sz + PGSIZE - 1) AND NOT (PGSIZE - 1)"

definition PGROUNDDOWN :: "uint \<Rightarrow> uint" where
  "PGROUNDDOWN a = a AND NOT (PGSIZE - 1)"

definition PTE_P :: uint where "PTE_P = 0x001"
definition PTE_W :: uint where "PTE_W = 0x002"
definition PTE_U :: uint where "PTE_U = 0x004"

definition PTE_ADDR :: "uint \<Rightarrow> uint" where
  "PTE_ADDR pte = pte AND NOT 0xFFF"

subsection \<open>mmu.h: descriptors\<close>

record segdesc =
  lim_15_0 :: "16 word"
  base_15_0 :: "16 word"
  base_23_16 :: "8 word"
  sd_type :: "4 word"
  sd_s :: "1 word"
  sd_dpl :: "2 word"
  sd_p :: "1 word"
  lim_19_16 :: "4 word"
  sd_avl :: "1 word"
  sd_rsv1 :: "1 word"
  sd_db :: "1 word"
  sd_g :: "1 word"
  base_31_24 :: "8 word"

definition SEG :: "uint \<Rightarrow> uint \<Rightarrow> uint \<Rightarrow> uint \<Rightarrow> segdesc" where
  "SEG typ base lim dpl =
     \<lparr>lim_15_0 = ucast (drop_bit 12 lim AND 0xffff), base_15_0 = ucast (base AND 0xffff),
      base_23_16 = ucast (drop_bit 16 base AND 0xff), sd_type = ucast typ, sd_s = 1,
      sd_dpl = ucast dpl, sd_p = 1, lim_19_16 = ucast (drop_bit 28 lim), sd_avl = 0, sd_rsv1 = 0,
      sd_db = 1, sd_g = 1, base_31_24 = ucast (drop_bit 24 base)\<rparr>"

definition SEG16 :: "uint \<Rightarrow> uint \<Rightarrow> uint \<Rightarrow> uint \<Rightarrow> segdesc" where
  "SEG16 typ base lim dpl =
     \<lparr>lim_15_0 = ucast (lim AND 0xffff), base_15_0 = ucast (base AND 0xffff),
      base_23_16 = ucast (drop_bit 16 base AND 0xff), sd_type = ucast typ, sd_s = 1,
      sd_dpl = ucast dpl, sd_p = 1, lim_19_16 = ucast (drop_bit 16 lim), sd_avl = 0, sd_rsv1 = 0,
      sd_db = 1, sd_g = 0, base_31_24 = ucast (drop_bit 24 base)\<rparr>"

record gatedesc =
  off_15_0 :: "16 word"
  gd_cs :: "16 word"
  gd_args :: "5 word"
  gd_rsv1 :: "3 word"
  gd_type :: "4 word"
  gd_s :: "1 word"
  gd_dpl :: "2 word"
  gd_p :: "1 word"
  off_31_16 :: "16 word"

definition STS_IG32 :: uint where "STS_IG32 = 0xE"
definition STS_TG32 :: uint where "STS_TG32 = 0xF"

definition SETGATE :: "bool \<Rightarrow> uint \<Rightarrow> uint \<Rightarrow> uint \<Rightarrow> gatedesc" where
  "SETGATE istrap sel off d =
     \<lparr>off_15_0 = ucast (off AND 0xffff), gd_cs = ucast sel, gd_args = 0, gd_rsv1 = 0,
      gd_type = ucast (if istrap then STS_TG32 else STS_IG32), gd_s = 0, gd_dpl = ucast d,
      gd_p = 1, off_31_16 = ucast (drop_bit 16 off)\<rparr>"

text \<open>How the processor reads the base and the limit of a segment and the offset of a gate.\<close>

definition seg_base :: "segdesc \<Rightarrow> uint" where
  "seg_base d = ucast (base_15_0 d) OR push_bit 16 (ucast (base_23_16 d)) OR
     push_bit 24 (ucast (base_31_24 d))"

definition seg_limit :: "segdesc \<Rightarrow> uint" where
  "seg_limit d =
     (let lim = ucast (lim_15_0 d) OR push_bit 16 (ucast (lim_19_16 d))
      in if sd_g d = 1 then push_bit 12 lim OR 0xFFF else lim)"

definition gate_offset :: "gatedesc \<Rightarrow> uint" where
  "gate_offset g = ucast (off_15_0 g) OR push_bit 16 (ucast (off_31_16 g))"

subsection \<open>Page arithmetic\<close>

lemma mask_3FF: "0x3FF = (mask 10 :: uint)"
  and mask_FFF: "0xFFF = (mask 12 :: uint)"
  and mask_FFFF: "0xffff = (mask 16 :: uint)"
  and mask_FF: "0xff = (mask 8 :: uint)"
  by (simp_all add: mask_eq_exp_minus_1)

lemmas masks = mask_3FF mask_FFF mask_FFFF mask_FF

lemma and_not_mask_eq: "(a :: uint) AND NOT (mask n) = push_bit n (drop_bit n a)"
  by (rule bit_word_eqI) (auto simp: bit_simps)

lemma PGROUNDDOWN_div: "PGROUNDDOWN a = a div 4096 * 4096"
proof -
  have "PGROUNDDOWN a = a AND NOT (mask 12)"
    by (simp add: PGROUNDDOWN_def PGSIZE_def mask_eq_exp_minus_1)
  then show ?thesis
    by (simp add: and_not_mask_eq push_bit_eq_mult drop_bit_eq_div)
qed

lemma PTE_ADDR_eq: "PTE_ADDR = PGROUNDDOWN"
  by (rule ext) (simp add: PTE_ADDR_def PGROUNDDOWN_def PGSIZE_def)

lemma unat_PGROUNDDOWN: "unat (PGROUNDDOWN a) = unat a div 4096 * 4096"
proof -
  have "unat a div 4096 * 4096 \<le> unat a" by simp
  moreover have "unat a < 2 ^ LENGTH(32)" by (rule unsigned_less)
  ultimately show ?thesis
    by (simp add: PGROUNDDOWN_div unat_word_ariths unat_div)
qed

lemma PGROUNDUP_eq: "PGROUNDUP sz = PGROUNDDOWN (sz + 4095)"
  by (simp add: PGROUNDUP_def PGROUNDDOWN_def PGSIZE_def add.commute)

lemma unat_PGROUNDUP:
  assumes "unat sz \<le> 2 ^ 32 - 4096"
  shows "unat (PGROUNDUP sz) = (unat sz + 4095) div 4096 * 4096"
  using assms by (simp add: PGROUNDUP_eq unat_PGROUNDDOWN unat_word_ariths)

lemma v2p_p2v [simp]: "v2p (p2v a) = a" "p2v (v2p a) = a"
  by (simp_all add: v2p_def p2v_def)

text \<open>
  C24 (bounds). \<open>PGROUNDUP\<close> and \<open>PGROUNDDOWN\<close> give the nearest page boundaries: for every size up to
  the last page of the address space the result is a multiple of \<open>PGSIZE\<close> and less than one
  page away from the argument, on the right side of it.
\<close>

theorem page_rounding:
  assumes "unat sz \<le> 2 ^ 32 - 4096"
  shows "4096 dvd unat (PGROUNDUP sz) \<and> unat sz \<le> unat (PGROUNDUP sz) \<and>
     unat (PGROUNDUP sz) < unat sz + 4096 \<and>
     4096 dvd unat (PGROUNDDOWN sz) \<and> unat (PGROUNDDOWN sz) \<le> unat sz \<and>
     unat sz < unat (PGROUNDDOWN sz) + 4096"
  unfolding unat_PGROUNDUP [OF assms] unat_PGROUNDDOWN by (intro conjI) simp_all

theorem page_rounding_witness:
  "4096 dvd unat (PGROUNDUP 5000) \<and> unat (PGROUNDUP 5000) < unat (5000 :: uint) + 4096"
  using page_rounding [of 5000] by simp

subsection \<open>Round trips\<close>

lemma PDX_bound: "unat (PDX va) < 1024"
  and PTX_bound: "unat (PTX va) < 1024"
proof -
  have "unat (take_bit 10 w) < 2 ^ 10" for w :: uint
    by (simp add: take_bit_eq_mod unat_mod)
  then show "unat (PDX va) < 1024" "unat (PTX va) < 1024"
    by (simp_all add: PDX_def PTX_def masks flip: take_bit_eq_mask)
qed

text \<open>
  C25 (roundtrip). A virtual address is exactly its directory index, its table index and its offset
  in the page: \<open>PGADDR\<close> puts back together what \<open>PDX\<close>, \<open>PTX\<close> and the low twelve bits take
  apart, and both indices stay below the 1024 entries of a table.
\<close>

theorem PGADDR_parts:
  "PGADDR (PDX va) (PTX va) (va AND 0xFFF) = va \<and> unat (PDX va) < NPDENTRIES \<and> unat (PTX va) < NPTENTRIES"
proof (intro conjI)
  show "PGADDR (PDX va) (PTX va) (va AND 0xFFF) = va"
  proof (rule bit_word_eqI)
    fix n assume "n < LENGTH(32)"
    then consider "n < 12" | "12 \<le> n" "n < 22" | "22 \<le> n" "n < 32" by force
    then show "bit (PGADDR (PDX va) (PTX va) (va AND 0xFFF)) n = bit va n"
      unfolding PGADDR_def PDX_def PTX_def masks by cases (auto simp: bit_simps)
  qed
qed (simp_all add: PDX_bound PTX_bound NPDENTRIES_def NPTENTRIES_def)

text \<open>
  C26 (roundtrip). Descriptors carry what they are built from: the processor reads back the base
  address of \<open>SEG\<close> and \<open>SEG16\<close> and the offset of \<open>SETGATE\<close> bit for bit, a \<open>SEG\<close> limit in
  units of pages and a \<open>SEG16\<close> limit of at most 20 bits exactly.
\<close>

theorem descriptor_roundtrip:
  "seg_base (SEG typ base lim dpl) = base \<and> seg_base (SEG16 typ base lim dpl) = base \<and>
   seg_limit (SEG typ base lim dpl) = lim OR 0xFFF \<and>
   seg_limit (SEG16 typ base lim dpl) = take_bit 20 lim \<and>
   gate_offset (SETGATE istrap sel off d) = off"
proof (intro conjI)
  have base: "ucast (ucast (base AND mask 16) :: 16 word) OR
      push_bit 16 (ucast (ucast (drop_bit 16 base AND mask 8) :: 8 word)) OR
      push_bit 24 (ucast (ucast (drop_bit 24 base) :: 8 word)) = base" (is "?b = _")
  proof (rule bit_word_eqI)
    fix n assume "n < LENGTH(32)"
    then consider "n < 16" | "16 \<le> n" "n < 24" | "24 \<le> n" "n < 32" by force
    then show "bit ?b n = bit base n" by cases (auto simp: bit_simps)
  qed
  show "seg_base (SEG typ base lim dpl) = base" "seg_base (SEG16 typ base lim dpl) = base"
    by (simp_all only: seg_base_def SEG_def SEG16_def masks segdesc.simps base)
  show "seg_limit (SEG typ base lim dpl) = lim OR 0xFFF"
  proof (rule bit_word_eqI)
    fix n assume "n < LENGTH(32)"
    then consider "n < 12" | "12 \<le> n" "n < 28" | "28 \<le> n" "n < 32" by force
    then show "bit (seg_limit (SEG typ base lim dpl)) n = bit (lim OR 0xFFF) n"
      unfolding seg_limit_def SEG_def masks by cases (auto simp: bit_simps Let_def)
  qed
  show "seg_limit (SEG16 typ base lim dpl) = take_bit 20 lim"
  proof (rule bit_word_eqI)
    fix n assume "n < LENGTH(32)"
    then consider "n < 16" | "16 \<le> n" "n < 20" | "20 \<le> n" "n < 32" by force
    then show "bit (seg_limit (SEG16 typ base lim dpl)) n = bit (take_bit 20 lim) n"
      unfolding seg_limit_def SEG16_def masks by cases (auto simp: bit_simps Let_def)
  qed
  show "gate_offset (SETGATE istrap sel off d) = off"
    unfolding gate_offset_def SETGATE_def masks
    by (rule bit_word_eqI) (auto simp: bit_simps)
qed

end
