(* ===== verification/Spinlock.thy ===== *)
theory Spinlock
  imports CString Mmu
begin

text \<open>
  \<open>spinlock.c\<close>: the nesting interrupt disable \<open>pushcli\<close> / \<open>popcli\<close>, the spin lock itself and
  the call-stack record.  \<open>acquire\<close> and \<open>release\<close> are cut at the points where another CPU can
  interleave: up to the first \<open>xchg\<close>, one \<open>xchg\<close>, and what follows it.  The relation
  \<open>smp_step\<close> runs those pieces on any number of CPUs and locks, in any order, and its
  invariant gives mutual exclusion and that a CPU holding a lock has interrupts off.  This is
  what lets the other theories treat the body between \<open>acquire\<close> and \<open>release\<close> as one step.
\<close>

subsection \<open>State\<close>

text \<open>\<open>ncli\<close> and \<open>intena\<close> of \<open>struct cpu\<close>, with the CPU's interrupt flag \<open>FL_IF\<close>.\<close>

record cpu =
  ncli :: int
  intena :: bool
  fl_if :: bool

record spinlock =
  locked :: uint
  lname :: string
  lcpu :: "nat option"
  pcs :: "uint list"

subsection \<open>Routines\<close>

definition initlock :: "string \<Rightarrow> spinlock \<Rightarrow> spinlock" where
  "initlock nm lk = lk\<lparr>lname := nm, locked := 0, lcpu := None\<rparr>"

definition holding :: "nat \<Rightarrow> spinlock \<Rightarrow> bool" where
  "holding c lock \<longleftrightarrow> locked lock \<noteq> 0 \<and> lcpu lock = Some c"

definition pushcli :: "cpu \<Rightarrow> cpu" where
  "pushcli c =
     (let eflags = fl_if c;
          c = c\<lparr>fl_if := False\<rparr>
      in if ncli c = 0 then c\<lparr>ncli := ncli c + 1, intena := eflags\<rparr>
         else c\<lparr>ncli := ncli c + 1\<rparr>)"

definition popcli :: "cpu \<Rightarrow> cpu outcome" where
  "popcli c =
     (if fl_if c then Inl (Panic ''popcli - interruptible'')
      else let c = c\<lparr>ncli := ncli c - 1\<rparr>
           in if ncli c < 0 then Inl (Panic ''popcli'')
              else if ncli c = 0 \<and> intena c then Inr (c\<lparr>fl_if := True\<rparr>)
              else Inr c)"

fun getcallerpcs_loop :: "memory \<Rightarrow> uint \<Rightarrow> nat \<Rightarrow> uint list" where
  "getcallerpcs_loop m ebp 0 = []"
| "getcallerpcs_loop m ebp (Suc k) =
     (if ebp = 0 \<or> ebp < KERNBASE \<or> ebp = 0xffffffff then replicate (Suc k) 0
      else load32 m (ebp + 4) # getcallerpcs_loop m (load32 m ebp) k)"

definition getcallerpcs :: "memory \<Rightarrow> uint \<Rightarrow> uint list" where
  "getcallerpcs m v = getcallerpcs_loop m (v - 8) 10"

text \<open>\<open>acquire\<close> up to its spin loop, one turn of the loop, and the lines after it.\<close>

definition acquire_enter :: "nat \<Rightarrow> spinlock \<Rightarrow> cpu \<Rightarrow> cpu outcome" where
  "acquire_enter c lk cp =
     (let cp = pushcli cp in if holding c lk then Inl (Panic ''acquire'') else Inr cp)"

definition xchg :: "uint \<Rightarrow> spinlock \<Rightarrow> uint \<times> spinlock" where
  "xchg v lk = (locked lk, lk\<lparr>locked := v\<rparr>)"

definition acquire_record :: "nat \<Rightarrow> uint list \<Rightarrow> spinlock \<Rightarrow> spinlock" where
  "acquire_record c stk lk = lk\<lparr>lcpu := Some c, pcs := stk\<rparr>"

text \<open>\<open>release\<close> up to its \<open>xchg\<close>; the \<open>xchg\<close> and \<open>popcli\<close> follow.\<close>

definition release_clear :: "nat \<Rightarrow> spinlock \<Rightarrow> spinlock outcome" where
  "release_clear c lk =
     (if \<not> holding c lk then Inl (Panic ''release'')
      else Inr (lk\<lparr>pcs := (pcs lk)[0 := 0], lcpu := None\<rparr>))"

subsection \<open>Interrupt nesting\<close>

text \<open>A CPU between kernel operations: interrupts are off while any \<open>pushcli\<close> is pending.\<close>

definition cpu_ok :: "cpu \<Rightarrow> bool" where
  "cpu_ok c \<longleftrightarrow> 0 \<le> ncli c \<and> (0 < ncli c \<longrightarrow> \<not> fl_if c)"

lemma pushcli_ncli [simp]: "ncli (pushcli c) = ncli c + 1"
  and pushcli_off [simp]: "\<not> fl_if (pushcli c)"
  by (simp_all add: pushcli_def Let_def)

lemma cpu_ok_pushcli: "cpu_ok c \<Longrightarrow> cpu_ok (pushcli c)"
  by (simp add: cpu_ok_def)

lemma popcli_Inr_iff:
  "popcli c = Inr c' \<longleftrightarrow> \<not> fl_if c \<and> 0 < ncli c \<and>
     c' = c\<lparr>ncli := ncli c - 1, fl_if := (ncli c = 1 \<and> intena c)\<rparr>"
  by (cases c) (auto simp: popcli_def Let_def)

lemma cpu_ok_popcli: "cpu_ok c \<Longrightarrow> popcli c = Inr c' \<Longrightarrow> cpu_ok c'"
  by (auto simp: cpu_ok_def popcli_Inr_iff)

text \<open>A run of \<open>pushcli\<close> and \<open>popcli\<close> calls, and the properly nested ones.\<close>

datatype cli_call = PushCli | PopCli

fun run_cli :: "cli_call list \<Rightarrow> cpu \<Rightarrow> cpu outcome" where
  "run_cli [] c = Inr c"
| "run_cli (PushCli # ks) c = run_cli ks (pushcli c)"
| "run_cli (PopCli # ks) c = ebind (popcli c) (run_cli ks)"

inductive nested :: "cli_call list \<Rightarrow> bool" where
  nested_Nil: "nested []"
| nested_wrap: "nested ks \<Longrightarrow> nested ls \<Longrightarrow> nested (PushCli # ks @ PopCli # ls)"

lemma run_cli_append: "run_cli (ks @ ls) c = ebind (run_cli ks c) (run_cli ls)"
  by (induction ks c rule: run_cli.induct) (auto simp: ebind_assoc cong: ebind_cong)

lemma nested_run_inner:
  assumes "nested ks" "0 < ncli c" "\<not> fl_if c"
  shows "run_cli ks c = Inr c"
  using assms
proof (induction arbitrary: c rule: nested.induct)
  case nested_Nil
  then show ?case by simp
next
  case (nested_wrap ks ls)
  have "run_cli ks (pushcli c) = Inr (pushcli c)"
    using nested_wrap.prems by (intro nested_wrap.IH) auto
  moreover have "popcli (pushcli c) = Inr c"
    using nested_wrap.prems by (cases c) (auto simp: popcli_def pushcli_def Let_def)
  ultimately show ?case
    using nested_wrap by (simp add: run_cli_append)
qed

lemma nested_run_outer:
  assumes "nested ks" "ncli c = 0"
  shows "\<exists>c'. run_cli ks c = Inr c' \<and> ncli c' = 0 \<and> fl_if c' = fl_if c"
  using assms
proof (induction arbitrary: c rule: nested.induct)
  case nested_Nil
  then show ?case by simp
next
  case (nested_wrap ks ls)
  have inner: "run_cli ks (pushcli c) = Inr (pushcli c)"
    using nested_wrap.hyps(1) nested_wrap.prems by (intro nested_run_inner) auto
  obtain d where d: "popcli (pushcli c) = Inr d" "ncli d = 0" "fl_if d = fl_if c"
    using nested_wrap.prems by (cases "fl_if c") (auto simp: popcli_def pushcli_def Let_def)
  with nested_wrap.IH(2) [of d] inner show ?case by (auto simp: run_cli_append)
qed

text \<open>
  C23 (safety). Matched \<open>pushcli\<close> and \<open>popcli\<close> calls restore the interrupt flag: after any properly
  nested sequence of calls, begun with or without interrupts, no call has panicked, the
  interrupt flag is what it was, and the nesting depth is what it was.
\<close>

theorem pushcli_popcli_restore:
  assumes "nested ks" "cpu_ok c"
  shows "\<exists>c'. run_cli ks c = Inr c' \<and> fl_if c' = fl_if c \<and> ncli c' = ncli c"
proof (cases "ncli c = 0")
  case True
  then show ?thesis using nested_run_outer [OF assms(1)] by auto
next
  case False
  then show ?thesis using nested_run_inner [OF assms(1)] assms(2) by (auto simp: cpu_ok_def)
qed

theorem pushcli_popcli_restore_witness:
  "\<exists>c'. run_cli [PushCli, PushCli, PopCli, PopCli] \<lparr>ncli = 0, intena = False, fl_if = True\<rparr> = Inr c'
     \<and> fl_if c' = True \<and> ncli c' = 0"
proof -
  have "nested (PushCli # (PushCli # [] @ PopCli # []) @ PopCli # [])"
    by (intro nested.intros)
  then show ?thesis
    using pushcli_popcli_restore [of "[PushCli, PushCli, PopCli, PopCli]"
        "\<lparr>ncli = 0, intena = False, fl_if = True\<rparr>"]
    by (simp add: cpu_ok_def)
qed

subsection \<open>Many CPUs\<close>

text \<open>
  Where a CPU is: outside the lock code, in the spin loop of \<open>acquire\<close>, between the winning
  \<open>xchg\<close> and the record of the holder, or between clearing the holder and the \<open>xchg\<close> of
  \<open>release\<close>.  \<open>crit\<close> is bookkeeping of the model: the locks for which \<open>acquire\<close> has returned
  and \<open>release\<close> has not been entered.  \<open>extra\<close> counts the CPU's own \<open>pushcli\<close> calls.
\<close>

datatype lock_pc = Run | Spin nat | Got nat | Unlock nat

record smp =
  cpus :: "nat \<Rightarrow> cpu"
  locks :: "nat \<Rightarrow> spinlock"
  pc :: "nat \<Rightarrow> lock_pc"
  crit :: "nat \<Rightarrow> nat set"
  extra :: "nat \<Rightarrow> nat"

definition smp_init :: smp where
  "smp_init = \<lparr>cpus = (\<lambda>_. \<lparr>ncli = 0, intena = False, fl_if = False\<rparr>),
     locks = (\<lambda>_. initlock ''lock'' \<lparr>locked = 0, lname = [], lcpu = None, pcs = replicate 10 0\<rparr>),
     pc = (\<lambda>_. Run), crit = (\<lambda>_. {}), extra = (\<lambda>_. 0)\<rparr>"

inductive smp_step :: "smp \<Rightarrow> smp \<Rightarrow> bool" where
  enter: "pc s c = Run \<Longrightarrow> acquire_enter c (locks s l) (cpus s c) = Inr cp \<Longrightarrow>
     smp_step s (s\<lparr>cpus := (cpus s)(c := cp), pc := (pc s)(c := Spin l)\<rparr>)"
| spin: "pc s c = Spin l \<Longrightarrow> xchg 1 (locks s l) = (old, lk) \<Longrightarrow> old \<noteq> 0 \<Longrightarrow>
     smp_step s (s\<lparr>locks := (locks s)(l := lk)\<rparr>)"
| win: "pc s c = Spin l \<Longrightarrow> xchg 1 (locks s l) = (old, lk) \<Longrightarrow> old = 0 \<Longrightarrow>
     smp_step s (s\<lparr>locks := (locks s)(l := lk), pc := (pc s)(c := Got l)\<rparr>)"
| rec: "pc s c = Got l \<Longrightarrow>
     smp_step s (s\<lparr>locks := (locks s)(l := acquire_record c (getcallerpcs m v) (locks s l)),
       pc := (pc s)(c := Run), crit := (crit s)(c := insert l (crit s c))\<rparr>)"
| clear: "pc s c = Run \<Longrightarrow> release_clear c (locks s l) = Inr lk \<Longrightarrow>
     smp_step s (s\<lparr>locks := (locks s)(l := lk), pc := (pc s)(c := Unlock l),
       crit := (crit s)(c := crit s c - {l})\<rparr>)"
| unlock: "pc s c = Unlock l \<Longrightarrow> xchg 0 (locks s l) = (old, lk) \<Longrightarrow>
     popcli (cpus s c) = Inr cp \<Longrightarrow>
     smp_step s (s\<lparr>locks := (locks s)(l := lk), cpus := (cpus s)(c := cp), pc := (pc s)(c := Run)\<rparr>)"
| push: "pc s c = Run \<Longrightarrow>
     smp_step s (s\<lparr>cpus := (cpus s)(c := pushcli (cpus s c)), extra := (extra s)(c := Suc (extra s c))\<rparr>)"
| pop: "pc s c = Run \<Longrightarrow> extra s c = Suc k \<Longrightarrow> popcli (cpus s c) = Inr cp \<Longrightarrow>
     smp_step s (s\<lparr>cpus := (cpus s)(c := cp), extra := (extra s)(c := k)\<rparr>)"
| sti: "pc s c = Run \<Longrightarrow> ncli (cpus s c) = 0 \<Longrightarrow>
     smp_step s (s\<lparr>cpus := (cpus s)(c := (cpus s c)\<lparr>fl_if := True\<rparr>)\<rparr>)"

inductive smp_reachable :: "smp \<Rightarrow> bool" where
  init: "smp_reachable smp_init"
| step: "smp_reachable s \<Longrightarrow> smp_step s t \<Longrightarrow> smp_reachable t"

text \<open>
  The invariant: the word \<open>locked\<close> of a lock is set exactly while one CPU owns the lock, which
  is from its winning \<open>xchg\<close> to its releasing one; the recorded holder is the CPU inside; and
  each CPU's \<open>ncli\<close> counts the locks it holds, its own \<open>pushcli\<close> calls and the lock operation
  it is in.
\<close>

definition owns :: "smp \<Rightarrow> nat \<Rightarrow> nat \<Rightarrow> bool" where
  "owns s c l \<longleftrightarrow> l \<in> crit s c \<or> pc s c = Got l \<or> pc s c = Unlock l"

definition lock_inv :: "smp \<Rightarrow> bool" where
  "lock_inv s \<longleftrightarrow>
     (\<forall>c l. owns s c l \<longrightarrow> locked (locks s l) \<noteq> 0) \<and>
     (\<forall>c c' l. owns s c l \<longrightarrow> owns s c' l \<longrightarrow> c = c') \<and>
     (\<forall>c l. lcpu (locks s l) = Some c \<longleftrightarrow> l \<in> crit s c) \<and>
     (\<forall>c l. pc s c = Got l \<or> pc s c = Unlock l \<longrightarrow> l \<notin> crit s c)"

definition nest_ok :: "cpu \<Rightarrow> nat set \<Rightarrow> nat \<Rightarrow> lock_pc \<Rightarrow> bool" where
  "nest_ok cp held own at \<longleftrightarrow> finite held \<and> (0 < ncli cp \<longrightarrow> \<not> fl_if cp) \<and>
     ncli cp = int (card held) + int own + (if at = Run then 0 else 1)"

definition nest_inv :: "smp \<Rightarrow> bool" where
  "nest_inv s \<longleftrightarrow> (\<forall>c. nest_ok (cpus s c) (crit s c) (extra s c) (pc s c))"

lemma lock_inv_init: "lock_inv smp_init"
  by (simp add: lock_inv_def owns_def smp_init_def initlock_def)

lemma nest_inv_init: "nest_inv smp_init"
  by (simp add: nest_inv_def nest_ok_def smp_init_def)

lemmas lock_ops = acquire_enter_def xchg_def acquire_record_def release_clear_def holding_def

text \<open>Only \<open>win\<close> and \<open>unlock\<close> change who owns a lock.\<close>

lemma lock_inv_same_owner:
  assumes "lock_inv s" "\<And>d k. owns t d k = owns s d k"
    "\<And>k. locked (locks t k) = 0 \<longleftrightarrow> locked (locks s k) = 0"
    "\<And>d k. lcpu (locks t k) = Some d \<longleftrightarrow> k \<in> crit t d"
    "\<And>d k. pc t d = Got k \<or> pc t d = Unlock k \<Longrightarrow> k \<notin> crit t d"
  shows "lock_inv t"
  using assms by (simp add: lock_inv_def)

lemma lock_inv_holder: "lock_inv s \<Longrightarrow> lcpu (locks s k) = Some d \<longleftrightarrow> k \<in> crit s d"
  by (simp add: lock_inv_def)

lemma lock_inv_outside: "lock_inv s \<Longrightarrow> pc s d = Got k \<or> pc s d = Unlock k \<Longrightarrow> k \<notin> crit s d"
  unfolding lock_inv_def by blast

lemma lock_inv_step: "smp_step s t \<Longrightarrow> lock_inv s \<Longrightarrow> lock_inv t"
proof (induction rule: smp_step.induct)
  case (enter s c l cp)
  then show ?case
    by (intro lock_inv_same_owner [OF enter.prems]) (auto simp: owns_def lock_inv_holder lock_inv_outside split: if_splits)
next
  case (spin s c l old lk)
  then show ?case
    by (intro lock_inv_same_owner [OF spin.prems]) (auto simp: owns_def lock_inv_holder lock_inv_outside xchg_def)
next
  case (win s c l old lk)
  then have free: "locked (locks s l) = 0" and lk: "lk = (locks s l)\<lparr>locked := 1\<rparr>"
    by (auto simp: xchg_def)
  let ?t = "s\<lparr>locks := (locks s)(l := lk), pc := (pc s)(c := Got l)\<rparr>"
  have nobody: "\<not> owns s d l" for d using win.prems free by (auto simp: lock_inv_def)
  have own: "owns ?t d k \<longleftrightarrow> owns s d k \<or> d = c \<and> k = l" for d k
    using win.hyps(1) by (auto simp: owns_def)
  have "l \<notin> crit s c" using nobody by (auto simp: owns_def)
  then show ?case
    using win.prems nobody unfolding lock_inv_def own by (auto simp: lk owns_def)
next
  case (rec s c l m v)
  then have mine: "owns s c l" by (simp add: owns_def)
  have none: "l \<notin> crit s d" for d
  proof (cases "d = c")
    case True
    then show ?thesis using rec lock_inv_outside by blast
  next
    case False
    then have "\<not> owns s d l" using rec.prems mine unfolding lock_inv_def by blast
    then show ?thesis by (simp add: owns_def)
  qed
  with rec mine show ?case
    by (intro lock_inv_same_owner [OF rec.prems])
       (auto simp: owns_def lock_inv_holder lock_inv_outside acquire_record_def split: if_splits)
next
  case (clear s c l lk)
  have mine: "l \<in> crit s c" and lk: "lk = (locks s l)\<lparr>pcs := (pcs (locks s l))[0 := 0], lcpu := None\<rparr>"
    using clear by (auto simp: lock_inv_def release_clear_def holding_def split: if_splits)
  have only: "l \<in> crit s d \<Longrightarrow> d = c" for d
    using mine lock_inv_holder [OF clear.prems, of l] by (metis option.inject)
  show ?case
    using clear.hyps(1) mine
    by (intro lock_inv_same_owner [OF clear.prems])
       (auto simp: owns_def lk lock_inv_holder [OF clear.prems] lock_inv_outside [OF clear.prems]
         dest: only split: if_splits)
next
  case (unlock s c l old lk cp)
  then have lk: "lk = (locks s l)\<lparr>locked := 0\<rparr>" and mine: "owns s c l" "l \<notin> crit s c"
    by (auto simp: xchg_def owns_def lock_inv_def)
  let ?t = "s\<lparr>locks := (locks s)(l := lk), cpus := (cpus s)(c := cp), pc := (pc s)(c := Run)\<rparr>"
  have own: "owns ?t d k \<longleftrightarrow> owns s d k \<and> k \<noteq> l" for d k
  proof (cases "d = c")
    case True
    then show ?thesis using unlock.hyps(1) mine by (auto simp: owns_def)
  next
    case False
    then have "\<not> owns s d l" using unlock.prems mine(1) by (auto simp: lock_inv_def)
    with False show ?thesis by (auto simp: owns_def)
  qed
  show ?case
    using unlock.prems unfolding lock_inv_def own by (auto simp: lk)
next
  case (push s c)
  then show ?case
    by (intro lock_inv_same_owner [OF push.prems]) (auto simp: owns_def lock_inv_holder lock_inv_outside)
next
  case (pop s c k cp)
  then show ?case
    by (intro lock_inv_same_owner [OF pop.prems]) (auto simp: owns_def lock_inv_holder lock_inv_outside)
next
  case (sti s c)
  then show ?case
    by (intro lock_inv_same_owner [OF sti.prems]) (auto simp: owns_def lock_inv_holder lock_inv_outside)
qed

lemma int_card_remove: "finite A \<Longrightarrow> x \<in> A \<Longrightarrow> int (card (A - {x})) = int (card A) - 1"
  using card_Suc_Diff1 [of A x] by simp

lemma nest_ok_remove:
  "nest_ok cp held own Run \<Longrightarrow> l \<in> held \<Longrightarrow> nest_ok cp (held - {l}) own (Unlock l)"
  using int_card_remove [of held l] by (auto simp: nest_ok_def)

lemma nest_ok_popcli:
  "nest_ok cp held own (Unlock l) \<Longrightarrow> popcli cp = Inr cp' \<Longrightarrow> nest_ok cp' held own Run"
  "nest_ok cp held (Suc k) Run \<Longrightarrow> popcli cp = Inr cp' \<Longrightarrow> nest_ok cp' held k Run"
  by (auto simp: nest_ok_def popcli_Inr_iff)

lemma nest_inv_step: "smp_step s t \<Longrightarrow> lock_inv s \<Longrightarrow> nest_inv s \<Longrightarrow> nest_inv t"
proof (induction rule: smp_step.induct)
  case (enter s c l cp)
  then show ?case by (auto simp: nest_inv_def nest_ok_def acquire_enter_def Let_def split: if_splits)
next
  case (spin s c l old lk)
  then show ?case by (simp add: nest_inv_def)
next
  case (win s c l old lk)
  from win.prems(2) have "nest_ok (cpus s c) (crit s c) (extra s c) (Spin l)"
    using win.hyps(1) by (metis nest_inv_def)
  then have "nest_ok (cpus s c) (crit s c) (extra s c) (Got l)" by (simp add: nest_ok_def)
  with win.prems(2) show ?case by (simp add: nest_inv_def)
next
  case (rec s c l m v)
  from rec.prems(2) have "nest_ok (cpus s c) (crit s c) (extra s c) (Got l)"
    using rec.hyps(1) by (metis nest_inv_def)
  moreover have "l \<notin> crit s c" using rec by (simp add: lock_inv_def)
  ultimately have "nest_ok (cpus s c) (insert l (crit s c)) (extra s c) Run"
    by (simp add: nest_ok_def)
  with rec.prems(2) show ?case by (simp add: nest_inv_def)
next
  case (clear s c l lk)
  from clear.prems(2) have "nest_ok (cpus s c) (crit s c) (extra s c) Run"
    using clear.hyps(1) by (metis nest_inv_def)
  moreover have "l \<in> crit s c"
    using clear by (auto simp: lock_inv_def release_clear_def holding_def split: if_splits)
  ultimately show ?case using clear.prems(2) by (simp add: nest_inv_def nest_ok_remove)
next
  case (unlock s c l old lk cp)
  from unlock.prems(2) have "nest_ok (cpus s c) (crit s c) (extra s c) (Unlock l)"
    using unlock.hyps(1) by (metis nest_inv_def)
  from nest_ok_popcli(1) [OF this unlock.hyps(3)] unlock.prems(2) show ?case
    by (simp add: nest_inv_def)
next
  case (push s c)
  then show ?case by (auto simp: nest_inv_def nest_ok_def)
next
  case (pop s c k cp)
  from pop.prems(2) have "nest_ok (cpus s c) (crit s c) (Suc k) Run"
    using pop.hyps(1,2) by (metis nest_inv_def)
  from nest_ok_popcli(2) [OF this pop.hyps(3)] pop.prems(2) pop.hyps(1) show ?case
    by (simp add: nest_inv_def)
next
  case (sti s c)
  then show ?case by (auto simp: nest_inv_def nest_ok_def)
qed

lemma smp_invariant: "smp_reachable s \<Longrightarrow> lock_inv s \<and> nest_inv s"
  by (induction rule: smp_reachable.induct)
     (auto intro: lock_inv_init nest_inv_init dest: lock_inv_step nest_inv_step)

text \<open>
  C5 (safety). Mutual exclusion: in every state that any number of CPUs can reach by interleaving
  the steps of \<open>acquire\<close> and \<open>release\<close> on any locks, a CPU for which \<open>acquire\<close> has returned is
  the only one inside, \<open>holding\<close> says so (so its \<open>release\<close> does not panic), and it has
  interrupts off until it is out of every lock.
\<close>

theorem spinlock_mutual_exclusion:
  assumes "smp_reachable s" "l \<in> crit s c"
  shows "{d. l \<in> crit s d} = {c} \<and> (\<forall>d. holding d (locks s l) \<longleftrightarrow> d = c) \<and> \<not> fl_if (cpus s c)"
proof (intro conjI)
  have inv: "lock_inv s" "nest_inv s" using smp_invariant [OF assms(1)] by auto
  show one: "{d. l \<in> crit s d} = {c}"
    using inv(1) assms(2) by (auto simp: lock_inv_def owns_def)
  show "\<forall>d. holding d (locks s l) \<longleftrightarrow> d = c"
    using inv(1) assms(2) one by (auto simp: lock_inv_def owns_def holding_def)
  have ok: "nest_ok (cpus s c) (crit s c) (extra s c) (pc s c)"
    using inv(2) by (simp add: nest_inv_def)
  then have "0 < card (crit s c)" using assms(2) by (auto simp: nest_ok_def card_gt_0_iff)
  with ok show "\<not> fl_if (cpus s c)" by (auto simp: nest_ok_def)
qed

lemma smp_reachable_inside: "\<exists>s. smp_reachable s \<and> 3 \<in> crit s 1"
proof -
  let ?c = "cpus smp_init 1" and ?l = "locks smp_init 3"
  let ?s1 = "smp_init\<lparr>cpus := (cpus smp_init)(1 := pushcli ?c), pc := (pc smp_init)(1 := Spin 3)\<rparr>"
  let ?s2 = "?s1\<lparr>locks := (locks ?s1)(3 := ?l\<lparr>locked := 1\<rparr>), pc := (pc ?s1)(1 := Got 3)\<rparr>"
  let ?s3 = "?s2\<lparr>locks := (locks ?s2)(3 := acquire_record 1 (getcallerpcs (\<lambda>_. 0) 0) (locks ?s2 3)),
       pc := (pc ?s2)(1 := Run), crit := (crit ?s2)(1 := insert 3 (crit ?s2 1))\<rparr>"
  have "smp_step smp_init ?s1"
    by (rule smp_step.enter) (simp_all add: smp_init_def initlock_def lock_ops)
  moreover have "smp_step ?s1 ?s2"
    by (rule smp_step.win) (simp_all add: smp_init_def initlock_def lock_ops)
  moreover have "smp_step ?s2 ?s3"
    by (rule smp_step.rec) simp
  ultimately have "smp_reachable ?s3"
    by (meson smp_reachable.intros)
  then show ?thesis by (intro exI [of _ ?s3]) simp
qed

theorem spinlock_mutual_exclusion_witness:
  "\<exists>s. smp_reachable s \<and> {d. 3 \<in> crit s d} = {1} \<and> \<not> fl_if (cpus s 1)"
  using smp_reachable_inside spinlock_mutual_exclusion by blast

end
