(* ===== verification/Kalloc.thy ===== *)
theory Kalloc
  imports Spinlock
begin

text \<open>
  \<open>kalloc.c\<close>: the physical page allocator.  A free page holds the address of the next free
  page in its first word, so the free list lives in the memory it manages; \<open>kfree\<close> fills the
  page with junk before it links it.  The locale \<open>page_allocator\<close> states what the rest of the
  kernel relies on, over the set of free pages, and proves that pages are never handed out
  twice for any sequence of calls; it is interpreted on \<open>kalloc\<close> and \<open>kfree\<close>.
\<close>

subsection \<open>State\<close>

text \<open>Memory and \<open>kmem\<close>.  \<open>kend\<close> is the address \<open>end\<close> that the linker defines.\<close>

record mach =
  mem :: memory
  kend :: uint
  kmem_lock :: spinlock
  use_lock :: bool
  freelist :: uint

subsection \<open>Routines\<close>

definition kfree :: "uint \<Rightarrow> 'z mach_scheme \<Rightarrow> 'z mach_scheme outcome" where
  "kfree v s =
     (if v mod PGSIZE \<noteq> 0 \<or> v < kend s \<or> v2p v \<ge> PHYSTOP then Inl (Panic ''kfree'')
      else let m = memset v 1 PGSIZE (mem s)
           in Inr (s\<lparr>mem := store32 m v (freelist s), freelist := v\<rparr>))"

definition kalloc :: "'z mach_scheme \<Rightarrow> uint \<times> 'z mach_scheme" where
  "kalloc s =
     (let r = freelist s
      in (r, if r \<noteq> 0 then s\<lparr>freelist := load32 (mem s) r\<rparr> else s))"

lemma kfree_below_top: "kfree v s = Inr s' \<Longrightarrow> unat v < 2 ^ 32 - 4096"
  by (auto simp: kfree_def v2p_def PHYSTOP_def KERNBASE_def not_le word_less_nat_alt unat_sub_if_size
      split: if_splits)

function freerange_loop :: "uint \<Rightarrow> uint \<Rightarrow> 'z mach_scheme \<Rightarrow> 'z mach_scheme outcome" where
  "freerange_loop p vend s =
     (if p + PGSIZE \<le> vend then ebind (kfree p s) (freerange_loop (p + PGSIZE) vend) else Inr s)"
  by pat_completeness auto
termination
proof (relation "measure (\<lambda>(p, vend, s). unat vend - unat p)")
  fix p vend and s x :: "'z mach_scheme"
  assume le: "p + PGSIZE \<le> vend" and "kfree p s = Inr x"
  then have "unat (p + PGSIZE) = unat p + 4096"
    using kfree_below_top [of p s x] by (simp add: PGSIZE_def unat_word_ariths)
  with le show "((p + PGSIZE, vend, x), p, vend, s) \<in> measure (\<lambda>(p, vend, s). unat vend - unat p)"
    by (simp add: word_le_nat_alt)
qed simp

definition freerange :: "uint \<Rightarrow> uint \<Rightarrow> 'z mach_scheme \<Rightarrow> 'z mach_scheme outcome" where
  "freerange vstart vend s = freerange_loop (PGROUNDUP vstart) vend s"

definition kinit1 :: "uint \<Rightarrow> uint \<Rightarrow> 'z mach_scheme \<Rightarrow> 'z mach_scheme outcome" where
  "kinit1 vstart vend s =
     freerange vstart vend (s\<lparr>kmem_lock := initlock ''kmem'' (kmem_lock s), use_lock := False\<rparr>)"

definition kinit2 :: "uint \<Rightarrow> uint \<Rightarrow> 'z mach_scheme \<Rightarrow> 'z mach_scheme outcome" where
  "kinit2 vstart vend s =
     ebind (freerange vstart vend s) (\<lambda>s. Inr (s\<lparr>use_lock := True\<rparr>))"

declare freerange_loop.simps [simp del]

subsection \<open>Pages and the free list\<close>

text \<open>What \<open>kfree\<close> accepts: an aligned page of memory that is not the kernel's own image.\<close>

definition page_ok :: "'z mach_scheme \<Rightarrow> uint \<Rightarrow> bool" where
  "page_ok s v \<longleftrightarrow> v mod PGSIZE = 0 \<and> kend s \<le> v \<and> v2p v < PHYSTOP"

fun run_list :: "memory \<Rightarrow> uint \<Rightarrow> uint list \<Rightarrow> bool" where
  "run_list m r [] \<longleftrightarrow> r = 0"
| "run_list m r (p # ps) \<longleftrightarrow> r = p \<and> p \<noteq> 0 \<and> run_list m (load32 m p) ps"

definition kmem_inv :: "uint list \<Rightarrow> 'z mach_scheme \<Rightarrow> bool" where
  "kmem_inv ps s \<longleftrightarrow> run_list (mem s) (freelist s) ps \<and> distinct ps \<and> (\<forall>p \<in> set ps. page_ok s p)"

lemma aligned_unat: "p mod PGSIZE = 0 \<longleftrightarrow> unat p mod 4096 = 0"
  by (simp add: PGSIZE_def word_unat_eq_iff unat_mod)

lemma in_page:
  assumes "p mod PGSIZE = 0"
  shows "in_region p 4096 x \<longleftrightarrow> unat x div 4096 = unat p div 4096"
proof -
  obtain k where k: "unat p = 4096 * k"
    using assms by (auto simp: aligned_unat elim!: dvdE)
  have "unat p < 2 ^ 32" "unat x < 2 ^ 32" by (rule unat_less_32)+
  then have "k < 2 ^ 20" using k by simp
  then show ?thesis
    using k \<open>unat x < 2 ^ 32\<close> by (simp add: in_region_def unat_sub_if_size word_size) linarith
qed

lemma pages_disjoint:
  assumes "p mod PGSIZE = 0" "q mod PGSIZE = 0" "p \<noteq> q" "in_region p 4096 x"
  shows "\<not> in_region q 4096 x"
proof
  assume "in_region q 4096 x"
  with assms have "unat p div 4096 = unat q div 4096" by (simp add: in_page)
  moreover have "unat p mod 4096 = unat q mod 4096" using assms by (simp add: aligned_unat)
  ultimately have "unat p = unat q" by (metis div_mult_mod_eq)
  with assms(3) show False by (simp add: word_unat_eq_iff)
qed

lemma page_ok_nonzero: "page_ok s v \<Longrightarrow> v \<noteq> 0"
  by (auto simp: page_ok_def v2p_def PHYSTOP_def KERNBASE_def)

lemma run_list_cong:
  assumes "\<And>x p. p \<in> set ps \<Longrightarrow> in_region p 4 x \<Longrightarrow> m x = m' x"
  shows "run_list m r ps \<longleftrightarrow> run_list m' r ps"
  using assms
proof (induction ps arbitrary: r)
  case (Cons p ps)
  then have "load32 m p = load32 m' p" by (intro load32_cong) auto
  with Cons show ?case by auto
qed simp

lemma kfree_Inr_iff:
  "kfree v s = Inr s' \<longleftrightarrow> page_ok s v \<and>
     s' = s\<lparr>mem := store32 (memset v 1 PGSIZE (mem s)) v (freelist s), freelist := v\<rparr>"
  by (auto simp: kfree_def page_ok_def Let_def not_le not_less)

lemma kfree_succeeds: "page_ok s v \<Longrightarrow> \<exists>s'. kfree v s = Inr s'"
  by (simp add: kfree_Inr_iff)

lemma kfree_frame:
  assumes "kfree v s = Inr s'" "\<not> in_region v 4096 x"
  shows "mem s' x = mem s x"
proof -
  have "\<not> in_region v 4 x" using assms(2) in_region_mono [of v 4 x 4096] by auto
  with assms show ?thesis
    by (auto simp: kfree_Inr_iff store32_other memset_region PGSIZE_def)
qed

lemma kmem_inv_kfree:
  assumes "kmem_inv ps s" "page_ok s v" "v \<notin> set ps" "kfree v s = Inr s'"
  shows "kmem_inv (v # ps) s'"
proof -
  have same: "mem s' x = mem s x" if "p \<in> set ps" "in_region p 4 x" for p x
  proof (rule kfree_frame [OF assms(4)])
    have "in_region p 4096 x" using that(2) by (rule in_region_mono) simp
    then show "\<not> in_region v 4096 x"
      using that assms(1-3) pages_disjoint [of p v x] by (auto simp: kmem_inv_def page_ok_def)
  qed
  have "run_list (mem s') (freelist s) ps \<longleftrightarrow> run_list (mem s) (freelist s) ps"
    by (rule run_list_cong) (rule same)
  moreover have "load32 (mem s') v = freelist s" "freelist s' = v" "kend s' = kend s"
    using assms(4) by (auto simp: kfree_Inr_iff load32_store32)
  ultimately show ?thesis
    using assms(1-3) page_ok_nonzero [OF assms(2)] by (simp add: kmem_inv_def page_ok_def)
qed

lemma kmem_inv_kalloc:
  assumes "kmem_inv ps s"
  shows "kalloc s = (case ps of [] \<Rightarrow> (0, s) | p # _ \<Rightarrow> (p, s\<lparr>freelist := load32 (mem s) p\<rparr>))"
    and "kmem_inv (tl ps) (snd (kalloc s))"
  using assms by (cases ps; simp add: kmem_inv_def kalloc_def Let_def page_ok_def)+

lemma run_list_unique: "run_list m r ps \<Longrightarrow> run_list m r qs \<Longrightarrow> ps = qs"
proof (induction ps arbitrary: r qs)
  case Nil
  then show ?case by (cases qs) auto
next
  case (Cons p ps)
  then show ?case by (cases qs) auto
qed

subsection \<open>The allocator's contract\<close>

text \<open>
  What a client may rely on, over the set of pages that are available.  \<open>touch\<close> is a client
  writing a byte, which it does only in pages that are not available.
\<close>

locale page_allocator =
  fixes alloc :: "'s \<Rightarrow> uint \<times> 's"
    and free :: "uint \<Rightarrow> 's \<Rightarrow> 's outcome"
    and touch :: "uint \<Rightarrow> uchar \<Rightarrow> 's \<Rightarrow> 's"
    and avail :: "'s \<Rightarrow> uint set"
    and page :: "'s \<Rightarrow> uint \<Rightarrow> bool"
    and invar :: "'s \<Rightarrow> bool"
  assumes alloc_none: "invar s \<Longrightarrow> avail s = {} \<Longrightarrow> alloc s = (0, s)"
    and alloc_some: "invar s \<Longrightarrow> avail s \<noteq> {} \<Longrightarrow> alloc s = (p, s') \<Longrightarrow>
          p \<in> avail s \<and> invar s' \<and> avail s' = avail s - {p} \<and> page s' = page s"
    and free_page: "invar s \<Longrightarrow> page s p \<Longrightarrow> p \<notin> avail s \<Longrightarrow>
          \<exists>s'. free p s = Inr s' \<and> invar s' \<and> avail s' = insert p (avail s) \<and> page s' = page s"
    and touch_page: "invar s \<Longrightarrow> (\<And>p. p \<in> avail s \<Longrightarrow> \<not> in_region p 4096 x) \<Longrightarrow>
          invar (touch x b s) \<and> avail (touch x b s) = avail s \<and> page (touch x b s) = page s"
    and avail_page: "invar s \<Longrightarrow> p \<in> avail s \<Longrightarrow> page s p"
    and page_nonzero: "page s p \<Longrightarrow> p \<noteq> 0"
    and page_apart: "page s p \<Longrightarrow> page s q \<Longrightarrow> p \<noteq> q \<Longrightarrow> in_region p 4096 x \<Longrightarrow> \<not> in_region q 4096 x"

text \<open>
  A client at work: it allocates, writes in the pages it owns and frees them, in any order and
  any number of times.  The second component is the set of pages it owns.
\<close>

inductive pool_run :: "('s \<Rightarrow> uint \<times> 's) \<Rightarrow> (uint \<Rightarrow> 's \<Rightarrow> 's outcome) \<Rightarrow> (uint \<Rightarrow> uchar \<Rightarrow> 's \<Rightarrow> 's) \<Rightarrow>
    's \<Rightarrow> 's \<times> uint set \<Rightarrow> bool" for alloc free touch s0 where
  pool_start: "pool_run alloc free touch s0 (s0, {})"
| pool_alloc: "pool_run alloc free touch s0 (s, own) \<Longrightarrow> alloc s = (p, s') \<Longrightarrow>
     pool_run alloc free touch s0 (s', if p = 0 then own else insert p own)"
| pool_write: "pool_run alloc free touch s0 (s, own) \<Longrightarrow> p \<in> own \<Longrightarrow> in_region p 4096 x \<Longrightarrow>
     pool_run alloc free touch s0 (touch x b s, own)"
| pool_free: "pool_run alloc free touch s0 (s, own) \<Longrightarrow> p \<in> own \<Longrightarrow> free p s = Inr s' \<Longrightarrow>
     pool_run alloc free touch s0 (s', own - {p})"

context page_allocator
begin

lemma pool_invariant:
  assumes "pool_run alloc free touch s0 so" "invar s0"
  shows "invar (fst so) \<and> snd so \<inter> avail (fst so) = {} \<and> snd so \<union> avail (fst so) = avail s0 \<and>
     page (fst so) = page s0 \<and> (\<forall>p \<in> snd so. page s0 p)"
  using assms
proof (induction rule: pool_run.induct)
  case pool_start
  then show ?case by simp
next
  case (pool_alloc s own p s')
  show ?case
  proof (cases "avail s = {}")
    case True
    with pool_alloc show ?thesis using alloc_none [of s] by auto
  next
    case False
    with pool_alloc have inv: "invar s" "p \<in> avail s" "invar s'" "avail s' = avail s - {p}" "page s' = page s"
      using alloc_some [of s p s'] by auto
    moreover from inv have "page s p" by (intro avail_page)
    ultimately show ?thesis using pool_alloc page_nonzero [of s p] by auto
  qed
next
  case (pool_write s own p x b)
  then have "\<not> in_region q 4096 x" if "q \<in> avail s" for q
    using that page_apart [of s p q x] avail_page [of s q] by auto
  with pool_write show ?case using touch_page [of s x b] by auto
next
  case (pool_free s own p s')
  moreover from this have "page s p" "p \<notin> avail s" by auto
  ultimately show ?case using free_page [of s p] by auto
qed

lemma pool_free_never_fails:
  assumes "pool_run alloc free touch s0 (s, own)" "invar s0" "p \<in> own"
  shows "\<exists>s'. free p s = Inr s'"
  using pool_invariant [OF assms(1,2)] free_page [of s p] assms(3) by auto

end

subsection \<open>The allocator keeps its contract\<close>

definition free_pages :: "'z mach_scheme \<Rightarrow> uint set" where
  "free_pages s = {p. \<exists>ps. run_list (mem s) (freelist s) ps \<and> p \<in> set ps}"

definition kmem_ok :: "'z mach_scheme \<Rightarrow> bool" where
  "kmem_ok s \<longleftrightarrow> (\<exists>ps. kmem_inv ps s)"

definition touch_byte :: "uint \<Rightarrow> uchar \<Rightarrow> 'z mach_scheme \<Rightarrow> 'z mach_scheme" where
  "touch_byte x b s = s\<lparr>mem := (mem s)(x := b)\<rparr>"

lemma free_pages_inv: "kmem_inv ps s \<Longrightarrow> free_pages s = set ps"
  by (auto simp: kmem_inv_def free_pages_def dest: run_list_unique)

lemma page_ok_cong: "kend s' = kend s \<Longrightarrow> page_ok s' = page_ok s"
  by (simp add: page_ok_def fun_eq_iff)

lemma kend_kfree: "kfree v s = Inr s' \<Longrightarrow> kend s' = kend s"
  by (auto simp: kfree_Inr_iff)

lemma kmem_inv_mem:
  assumes "kmem_inv ps s" "freelist s' = freelist s" "kend s' = kend s"
    "\<And>x p. p \<in> set ps \<Longrightarrow> in_region p 4096 x \<Longrightarrow> mem s' x = mem s x"
  shows "kmem_inv ps s'"
proof -
  have "run_list (mem s') (freelist s) ps \<longleftrightarrow> run_list (mem s) (freelist s) ps"
  proof (rule run_list_cong)
    fix x p assume "p \<in> set ps" "in_region p 4 x"
    then show "mem s' x = mem s x" by (intro assms(4)) (auto elim: in_region_mono)
  qed
  with assms(1-3) show ?thesis by (simp add: kmem_inv_def page_ok_def)
qed

lemma kmem_inv_touch:
  assumes "kmem_inv ps s" "\<And>p. p \<in> set ps \<Longrightarrow> \<not> in_region p 4096 x"
  shows "kmem_inv ps (touch_byte x b s)"
  using assms by (intro kmem_inv_mem [OF assms(1)]) (auto simp: touch_byte_def)

interpretation kmem: page_allocator kalloc kfree touch_byte free_pages page_ok kmem_ok
proof unfold_locales
  fix s :: "'a mach_scheme" and p s'
  assume inv: "kmem_ok s"
  then obtain ps where ps: "kmem_inv ps s" by (auto simp: kmem_ok_def)
  note av = free_pages_inv [OF ps]
  show "kalloc s = (0, s)" if "free_pages s = {}"
    using that ps kmem_inv_kalloc(1) [OF ps] by (simp add: av)
  show "p \<in> free_pages s \<and> kmem_ok s' \<and> free_pages s' = free_pages s - {p} \<and> page_ok s' = page_ok s"
    if ne: "free_pages s \<noteq> {}" and k: "kalloc s = (p, s')"
  proof -
    from ne obtain q qs where qs: "ps = q # qs" by (cases ps) (auto simp: av)
    then have new: "p = q" "kmem_inv qs s'" "kend s' = kend s" and "q \<notin> set qs"
      using k kmem_inv_kalloc [OF ps] ps by (auto simp: kmem_inv_def)
    then show ?thesis
      using free_pages_inv [OF new(2)] page_ok_cong [OF new(3)] unfolding av qs kmem_ok_def by auto
  qed
  show "\<exists>s'. kfree p s = Inr s' \<and> kmem_ok s' \<and> free_pages s' = insert p (free_pages s) \<and> page_ok s' = page_ok s"
    if ok: "page_ok s p" and new: "p \<notin> free_pages s"
  proof -
    obtain t where t: "kfree p s = Inr t" using kfree_succeeds [OF ok] ..
    then have "kmem_inv (p # ps) t" using kmem_inv_kfree [OF ps ok] new by (simp add: av)
    then have "kmem_ok t" "free_pages t = insert p (free_pages s)"
      by (auto simp: kmem_ok_def av free_pages_inv)
    with t page_ok_cong [OF kend_kfree [OF t]] show ?thesis by blast
  qed
  show "page_ok s p" if "p \<in> free_pages s"
    using that ps by (simp add: av kmem_inv_def)
  fix x b assume "\<And>p. p \<in> free_pages s \<Longrightarrow> \<not> in_region p 4096 x"
  then have "kmem_inv ps (touch_byte x b s)" by (intro kmem_inv_touch [OF ps]) (simp add: av)
  then have "kmem_ok (touch_byte x b s)" "free_pages (touch_byte x b s) = free_pages s"
    by (auto simp: kmem_ok_def av free_pages_inv)
  moreover have "page_ok (touch_byte x b s) = page_ok s"
    by (rule page_ok_cong) (simp add: touch_byte_def)
  ultimately show "kmem_ok (touch_byte x b s) \<and> free_pages (touch_byte x b s) = free_pages s \<and>
      page_ok (touch_byte x b s) = page_ok s" by blast
next
  show "p \<noteq> 0" if "page_ok s p" for s :: "'a mach_scheme" and p
    using that by (rule page_ok_nonzero)
  show "\<not> in_region q 4096 x" if "page_ok s p" "page_ok s q" "p \<noteq> q" "in_region p 4096 x"
    for s :: "'a mach_scheme" and p q x
    using pages_disjoint [OF _ _ that(3,4)] that(1,2) unfolding page_ok_def by simp
qed

text \<open>What the callers of \<open>kalloc\<close> use: one page less, or none left; and the frame of a write.\<close>

lemma kalloc_cases:
  assumes "kmem_ok s"
  obtains (none) "free_pages s = {}" "kalloc s = (0, s)"
  | (page) k s' where "kalloc s = (k, s')" "k \<in> free_pages s" "k \<noteq> 0" "page_ok s k"
      "freelist s = k" "s' = s\<lparr>freelist := load32 (mem s) k\<rparr>" "kmem_ok s'" "free_pages s' = free_pages s - {k}"
proof (cases "free_pages s = {}")
  case True
  then show thesis using kmem.alloc_none [OF assms True] by (rule none)
next
  case False
  obtain k s' where k: "kalloc s = (k, s')" by (cases "kalloc s")
  then have "k \<in> free_pages s" "kmem_ok s'" "free_pages s' = free_pages s - {k}"
    using kmem.alloc_some [OF assms False] by blast+
  moreover from this(1) assms have "page_ok s k" by (intro kmem.avail_page)
  moreover from this have "k \<noteq> 0" by (rule page_ok_nonzero)
  moreover from k this have "freelist s = k" "s' = s\<lparr>freelist := load32 (mem s) k\<rparr>"
    by (auto simp: kalloc_def Let_def split: if_splits)
  ultimately show thesis using k page by blast
qed

lemma kmem_ok_frame:
  assumes "kmem_ok s" "freelist s' = freelist s" "kend s' = kend s"
    "\<And>x p. p \<in> free_pages s \<Longrightarrow> in_region p 4096 x \<Longrightarrow> mem s' x = mem s x"
  shows "kmem_ok s'" "free_pages s' = free_pages s"
proof -
  obtain ps where ps: "kmem_inv ps s" using assms(1) by (auto simp: kmem_ok_def)
  then have "kmem_inv ps s'"
    using assms free_pages_inv [OF ps] by (intro kmem_inv_mem [OF ps]) auto
  then show "kmem_ok s'" "free_pages s' = free_pages s"
    using ps by (auto simp: kmem_ok_def free_pages_inv)
qed

lemma page_ok_apart:
  assumes "page_ok s p" "page_ok s q" "p \<noteq> q" "in_region p 4096 x"
  shows "\<not> in_region q 4096 x"
  using assms by (rule kmem.page_apart)

subsection \<open>Filling the free list at boot\<close>

lemma aligned_gap:
  assumes "p mod PGSIZE = 0" "q mod PGSIZE = 0"
  shows "unat p < unat q \<longleftrightarrow> unat p + 4096 \<le> unat q"
proof -
  obtain j k where "unat p = 4096 * j" "unat q = 4096 * k"
    using assms by (auto simp: aligned_unat elim!: dvdE)
  then show ?thesis by simp linarith
qed

definition whole_pages :: "uint \<Rightarrow> uint \<Rightarrow> uint set" where
  "whole_pages vstart vend = {p. p mod PGSIZE = 0 \<and> vstart \<le> p \<and> unat p + 4096 \<le> unat vend}"

lemma whole_pages_step:
  assumes "p mod PGSIZE = 0" "unat p + 4096 \<le> unat vend" "unat (p + PGSIZE) = unat p + 4096"
  shows "whole_pages p vend = insert p (whole_pages (p + PGSIZE) vend)"
proof (rule set_eqI)
  fix q
  show "q \<in> whole_pages p vend \<longleftrightarrow> q \<in> insert p (whole_pages (p + PGSIZE) vend)"
  proof (cases "q = p")
    case True
    with assms show ?thesis by (simp add: whole_pages_def)
  next
    case False
    then have "unat q \<noteq> unat p" by (simp add: word_unat_eq_iff)
    with False assms(3) aligned_gap [OF assms(1), of q] show ?thesis
      by (cases "q mod PGSIZE = 0") (auto simp: whole_pages_def word_le_nat_alt)
  qed
qed

lemma whole_pages_none: "unat vend < unat p + 4096 \<Longrightarrow> whole_pages p vend = {}"
  by (auto simp: whole_pages_def word_le_nat_alt)

lemma freerange_loop_frees:
  assumes "kmem_inv ps s" "p mod PGSIZE = 0" "KERNBASE \<le> p" "kend s \<le> p" "p \<le> p2v PHYSTOP"
    "vend \<le> p2v PHYSTOP" "\<forall>q \<in> set ps. q < p \<or> vend \<le> q"
  shows "\<exists>s' qs. freerange_loop p vend s = Inr s' \<and> kmem_inv qs s' \<and> set qs = whole_pages p vend \<union> set ps"
  using assms
proof (induction p vend s arbitrary: ps rule: freerange_loop.induct)
  case (1 p vend s)
  have top: "unat vend \<le> 0x8E000000" "unat p \<ge> 0x80000000" "unat p \<le> 0x8E000000"
    using "1.prems" by (simp_all add: word_le_nat_alt p2v_def PHYSTOP_def KERNBASE_def)
  then have up: "unat (p + PGSIZE) = unat p + 4096" by (simp add: PGSIZE_def unat_word_ariths)
  show ?case
  proof (cases "unat p + 4096 \<le> unat vend")
    case False
    then have "freerange_loop p vend s = Inr s"
      using up by (simp add: freerange_loop.simps [of p] word_le_nat_alt)
    with "1.prems"(1) False show ?thesis by (auto simp: whole_pages_none)
  next
    case True
    then have le: "p + PGSIZE \<le> vend" using up by (simp add: word_le_nat_alt)
    have ok: "page_ok s p"
      using "1.prems"(2,4) top True by (simp add: page_ok_def v2p_def word_less_nat_alt unat_sub_if_size
          word_size PHYSTOP_def KERNBASE_def)
    have new: "p \<notin> set ps" using "1.prems"(7) True by (auto simp: word_le_nat_alt)
    obtain s' where s': "kfree p s = Inr s'" using kfree_succeeds [OF ok] ..
    have "\<exists>t qs. freerange_loop (p + PGSIZE) vend s' = Inr t \<and> kmem_inv qs t \<and>
       set qs = whole_pages (p + PGSIZE) vend \<union> set (p # ps)"
    proof (rule "1.IH" [OF le s' kmem_inv_kfree [OF "1.prems"(1) ok new s']])
      show "(p + PGSIZE) mod PGSIZE = 0" using "1.prems"(2) up by (simp only: aligned_unat) simp
      show "KERNBASE \<le> p + PGSIZE" "kend s' \<le> p + PGSIZE" "p + PGSIZE \<le> p2v PHYSTOP"
        using "1.prems"(3,4,6) up le kend_kfree [OF s'] by (simp_all add: word_le_nat_alt)
      show "\<forall>q \<in> set (p # ps). q < p + PGSIZE \<or> vend \<le> q"
        using "1.prems"(7) up by (auto simp: word_less_nat_alt)
    qed (rule "1.prems"(6))
    moreover have "freerange_loop p vend s = freerange_loop (p + PGSIZE) vend s'"
      using le s' by (simp add: freerange_loop.simps [of p])
    ultimately show ?thesis using whole_pages_step [OF "1.prems"(2) True up] by auto
  qed
qed

lemma PGROUNDUP_aligned: "PGROUNDUP a mod PGSIZE = 0"
  by (simp add: aligned_unat PGROUNDUP_eq unat_PGROUNDDOWN)

lemma whole_pages_PGROUNDUP:
  assumes "unat vstart \<le> 2 ^ 32 - 4096"
  shows "whole_pages (PGROUNDUP vstart) vend = whole_pages vstart vend"
proof -
  have "PGROUNDUP vstart \<le> q \<longleftrightarrow> vstart \<le> q" if al: "q mod PGSIZE = 0" for q
  proof -
    obtain k where k: "unat q = 4096 * k" using al by (auto simp: aligned_unat elim!: dvdE)
    have "(unat vstart + 4095) div 4096 * 4096 \<le> 4096 * k \<longleftrightarrow> unat vstart \<le> 4096 * k"
      using div_less_iff_less_mult [of 4096 "unat vstart + 4095" "Suc k"] by auto
    then show ?thesis unfolding word_le_nat_alt k unat_PGROUNDUP [OF assms] .
  qed
  then show ?thesis unfolding whole_pages_def by (intro Collect_cong conj_cong refl)
qed

subsection \<open>Properties\<close>

text \<open>
  C4 (invariant).  Page allocation conserves and separates pages.  Take a state whose free list
  is well formed and let clients allocate, write anywhere in pages they own and free them, in any
  order.  At every moment each page is either free or owned and never both, no page is lost, the
  free list threaded through the free pages is still well formed in spite of the writes, and
  freeing an owned page never panics.
\<close>

theorem kalloc_pages_conserved:
  assumes "kmem_ok s0" "pool_run kalloc kfree touch_byte s0 (s, own)"
  shows "kmem_ok s \<and> own \<inter> free_pages s = {} \<and> own \<union> free_pages s = free_pages s0 \<and>
     (\<forall>p \<in> own. \<exists>s'. kfree p s = Inr s')"
  using kmem.pool_invariant [OF assms(2,1)] kmem.pool_free_never_fails [OF assms(2,1)] by simp

definition boot_mach :: mach where
  "boot_mach = \<lparr>mem = (\<lambda>_. 0), kend = 0x80110000, kmem_lock = \<lparr>locked = 0, lname = [], lcpu = None, pcs = []\<rparr>,
     use_lock = False, freelist = 0\<rparr>"

lemma boot_mach_inv: "kmem_inv [] boot_mach"
  by (simp add: kmem_inv_def boot_mach_def)

lemma boot_mach_free: "kmem_ok boot_mach" "free_pages boot_mach = {}" "kend boot_mach = 0x80110000"
  using boot_mach_inv by (auto simp: kmem_ok_def free_pages_inv boot_mach_def)

lemma kalloc_pages_conserved_witness:
  "\<exists>s1 s. kfree 0x80111000 boot_mach = Inr s1 \<and> pool_run kalloc kfree touch_byte s1 (s, {0x80111000}) \<and>
     kmem_ok s \<and> {0x80111000} \<inter> free_pages s = {} \<and> (\<exists>s'. kfree 0x80111000 s = Inr s')"
proof -
  have ok: "page_ok boot_mach 0x80111000"
    by (simp add: page_ok_def boot_mach_def PGSIZE_def v2p_def KERNBASE_def PHYSTOP_def)
  obtain s1 where s1: "kfree 0x80111000 boot_mach = Inr s1" using kfree_succeeds [OF ok] ..
  have inv: "kmem_inv [0x80111000] s1" using kmem_inv_kfree [OF boot_mach_inv ok _ s1] by simp
  let ?s2 = "s1\<lparr>freelist := load32 (mem s1) 0x80111000\<rparr>"
  have "kalloc s1 = (0x80111000, ?s2)" using kmem_inv_kalloc(1) [OF inv] by simp
  then have "pool_run kalloc kfree touch_byte s1 (?s2, if 0x80111000 = (0 :: uint) then {} else insert 0x80111000 {})"
    by (rule pool_alloc [OF pool_start])
  then have "pool_run kalloc kfree touch_byte s1 (?s2, {0x80111000})" by simp
  then have run: "pool_run kalloc kfree touch_byte s1 (touch_byte 0x80111003 7 ?s2, {0x80111000})"
    by (rule pool_write [where p = "0x80111000"]) (simp_all add: in_region_def)
  have "kmem_ok s1" using inv by (auto simp: kmem_ok_def)
  note kalloc_pages_conserved [OF this run]
  with s1 run show ?thesis by (intro exI [of _ s1] exI [of _ "touch_byte 0x80111003 7 ?s2"]) simp
qed

text \<open>
  C6 (functional).  \<open>freerange(vstart, vend)\<close>, with which \<open>main\<close> builds the free list, never panics
  on a range of physical memory above the kernel that is not free yet, and puts on the free list
  exactly the whole pages that lie in the range, whatever the alignment of its ends.
\<close>

theorem freerange_frees_whole_pages:
  assumes "kmem_ok s" "KERNBASE \<le> vstart" "kend s \<le> vstart" "vstart \<le> vend" "vend \<le> p2v PHYSTOP"
    "\<forall>q \<in> free_pages s. q < vstart \<or> vend \<le> q"
  shows "\<exists>s'. freerange vstart vend s = Inr s' \<and> kmem_ok s' \<and>
     free_pages s' = free_pages s \<union> whole_pages vstart vend"
proof -
  obtain ps where ps: "kmem_inv ps s" using assms(1) by (auto simp: kmem_ok_def)
  have top: "unat vstart \<le> 0x8E000000"
    using assms(4,5) by (simp add: word_le_nat_alt p2v_def PHYSTOP_def KERNBASE_def)
  then have up: "unat (PGROUNDUP vstart) = (unat vstart + 4095) div 4096 * 4096"
    by (intro unat_PGROUNDUP) simp
  then have le: "vstart \<le> PGROUNDUP vstart" by (simp add: word_le_nat_alt)
  have "PGROUNDUP vstart \<le> p2v PHYSTOP"
    using up top by (simp add: word_le_nat_alt p2v_def PHYSTOP_def KERNBASE_def)
  then have "\<exists>s' qs. freerange_loop (PGROUNDUP vstart) vend s = Inr s' \<and> kmem_inv qs s' \<and>
      set qs = whole_pages (PGROUNDUP vstart) vend \<union> set ps"
    using assms(2,3,6) le ps free_pages_inv [OF ps]
    by (intro freerange_loop_frees PGROUNDUP_aligned assms(5)) auto
  then show ?thesis
    using top ps by (auto simp: freerange_def kmem_ok_def free_pages_inv whole_pages_PGROUNDUP)
qed

lemma freerange_frees_whole_pages_witness:
  "\<exists>s'. freerange 0x80110123 0x80114000 boot_mach = Inr s' \<and> kmem_ok s' \<and>
     free_pages s' = {} \<union> whole_pages 0x80110123 0x80114000"
  using freerange_frees_whole_pages [of boot_mach "0x80110123" "0x80114000"]
  by (simp add: boot_mach_free KERNBASE_def p2v_def PHYSTOP_def)

end
