(* ===== verification/Proctab.thy ===== *)
theory Proctab
  imports Kalloc
begin

text \<open>
  The process table of \<open>proc.c\<close> and \<open>proc.h\<close>: \<open>struct proc\<close>, \<open>allocproc\<close>, \<open>wakeup1\<close>, \<open>wakeup\<close>
  and \<open>kill\<close>.  The table is a function from slots to processes; pointers to processes, files
  and inodes are slot numbers.  Trap frames and saved contexts are in memory, on the kernel
  stack page of their process.  The routines run with \<open>ptable.lock\<close> held, hence as one step
  each.
\<close>

subsection \<open>State\<close>

definition NPROC :: nat where "NPROC = 64"
definition NOFILE :: nat where "NOFILE = 16"
definition KSTACKSIZE :: uint where "KSTACKSIZE = 4096"

datatype procstate = UNUSED | EMBRYO | SLEEPING | RUNNABLE | RUNNING | ZOMBIE

record proc =
  sz :: uint
  pgdir :: uint
  kstack :: uint
  state :: procstate
  pid :: int
  parent :: "nat option"
  tf :: uint
  pcontext :: uint
  pchan :: "chan option"
  killed :: bool
  ofile :: "nat \<Rightarrow> nat option"
  cwd :: "nat option"
  pname :: "uchar list"

text \<open>
  The registers and tables of the running CPU that decide about memory: the page table register
  and the fault address, the segment descriptors of \<open>struct cpu\<close> with its own address, and the
  address and the two used fields of its task state segment.
\<close>

record cpuhw =
  cr2 :: uint
  cr3 :: uint
  gdt :: "nat \<Rightarrow> segdesc"
  cpu_addr :: uint
  ts_addr :: uint
  ts_ss0 :: ushort
  ts_esp0 :: uint

text \<open>
  \<open>curproc\<close> is \<open>proc\<close>, the process of the running CPU.  \<open>forkret_addr\<close>, \<open>trapret_addr\<close> and \<open>kdata\<close> are
  the addresses that the linker gives to \<open>forkret\<close>, \<open>trapret\<close> and the kernel's \<open>data\<close>.
\<close>

record kern = mach +
  ptable :: "nat \<Rightarrow> proc"
  curproc :: "nat option"
  initproc :: "nat option"
  nextpid :: int
  ticks :: uint
  forkret_addr :: uint
  trapret_addr :: uint
  kdata :: uint
  kpgdir :: uint
  hw :: cpuhw

text \<open>Sizes and field offsets of \<open>struct trapframe\<close> and \<open>struct context\<close>.\<close>

definition TF_SIZE :: uint where "TF_SIZE = 76"
definition TF_EAX :: uint where "TF_EAX = 28"
definition TF_TRAPNO :: uint where "TF_TRAPNO = 48"
definition TF_ERR :: uint where "TF_ERR = 52"
definition TF_EIP :: uint where "TF_EIP = 56"
definition TF_CS :: uint where "TF_CS = 60"
definition TF_ESP :: uint where "TF_ESP = 68"
definition CTX_SIZE :: uint where "CTX_SIZE = 20"
definition CTX_EIP :: uint where "CTX_EIP = 16"

definition upd_proc :: "nat \<Rightarrow> (proc \<Rightarrow> proc) \<Rightarrow> 'z kern_scheme \<Rightarrow> 'z kern_scheme" where
  "upd_proc p f s = s\<lparr>ptable := (ptable s)(p := f (ptable s p))\<rparr>"

definition poke :: "uint \<Rightarrow> uint \<Rightarrow> 'z mach_scheme \<Rightarrow> 'z mach_scheme" where
  "poke a w s = s\<lparr>mem := store32 (mem s) a w\<rparr>"

definition find_proc :: "(proc \<Rightarrow> bool) \<Rightarrow> 'z kern_scheme \<Rightarrow> nat option" where
  "find_proc P s = List.find (\<lambda>p. P (ptable s p)) [0..<NPROC]"

subsection \<open>Routines\<close>

definition allocproc :: "'z kern_scheme \<Rightarrow> (nat option \<times> 'z kern_scheme) outcome" where
  "allocproc s =
     (case find_proc (\<lambda>q. state q = UNUSED) s of
        None \<Rightarrow> Inr (None, s)
      | Some p \<Rightarrow>
          if nextpid s = 2 ^ 31 - 1 then Inl (Undef ''nextpid'')
          else let s = upd_proc p (\<lambda>q. q\<lparr>state := EMBRYO, pid := nextpid s\<rparr>) s;
                   s = s\<lparr>nextpid := nextpid s + 1\<rparr>;
                   (stk, s) = kalloc s;
                   s = upd_proc p (\<lambda>q. q\<lparr>kstack := stk\<rparr>) s
               in if stk = 0 then Inr (None, upd_proc p (\<lambda>q. q\<lparr>state := UNUSED\<rparr>) s)
                  else let sp = stk + KSTACKSIZE - TF_SIZE;
                           s = upd_proc p (\<lambda>q. q\<lparr>tf := sp\<rparr>) s;
                           sp = sp - 4;
                           s = poke sp (trapret_addr s) s;
                           sp = sp - CTX_SIZE;
                           s = upd_proc p (\<lambda>q. q\<lparr>pcontext := sp\<rparr>) s;
                           s = s\<lparr>mem := memset sp 0 CTX_SIZE (mem s)\<rparr>;
                           s = poke (sp + CTX_EIP) (forkret_addr s) s
                       in Inr (Some p, s))"

definition wakeup1 :: "chan option \<Rightarrow> 'z kern_scheme \<Rightarrow> 'z kern_scheme" where
  "wakeup1 ch s =
     fold (\<lambda>p s. if state (ptable s p) = SLEEPING \<and> pchan (ptable s p) = ch
                 then upd_proc p (\<lambda>q. q\<lparr>state := RUNNABLE\<rparr>) s else s) [0..<NPROC] s"

definition wakeup :: "chan option \<Rightarrow> 'z kern_scheme \<Rightarrow> 'z kern_scheme" where
  "wakeup ch s = wakeup1 ch s"

definition kill :: "int \<Rightarrow> 'z kern_scheme \<Rightarrow> int \<times> 'z kern_scheme" where
  "kill n s =
     (case find_proc (\<lambda>q. pid q = n) s of
        Some p \<Rightarrow>
          let s = upd_proc p (\<lambda>q. q\<lparr>killed := True\<rparr>) s
          in (0, if state (ptable s p) = SLEEPING then upd_proc p (\<lambda>q. q\<lparr>state := RUNNABLE\<rparr>) s else s)
      | None \<Rightarrow> (-1, s))"

subsection \<open>Slots\<close>

lemma upd_proc_simps [simp]:
  "ptable (upd_proc p f s) = (ptable s)(p := f (ptable s p))"
  "mem (upd_proc p f s) = mem s" "freelist (upd_proc p f s) = freelist s" "kend (upd_proc p f s) = kend s"
  "curproc (upd_proc p f s) = curproc s" "initproc (upd_proc p f s) = initproc s"
  "nextpid (upd_proc p f s) = nextpid s" "ticks (upd_proc p f s) = ticks s"
  "forkret_addr (upd_proc p f s) = forkret_addr s" "trapret_addr (upd_proc p f s) = trapret_addr s"
  "kdata (upd_proc p f s) = kdata s" "kpgdir (upd_proc p f s) = kpgdir s" "hw (upd_proc p f s) = hw s"
  by (simp_all add: upd_proc_def)

lemma upd_proc_more [simp]: "kern.more (upd_proc p f s) = kern.more s"
  by (simp add: upd_proc_def)

lemma find_procE:
  assumes "find_proc P s = Some p"
  shows "p < NPROC" "P (ptable s p)" "\<And>j. j < p \<Longrightarrow> \<not> P (ptable s j)"
  using assms by (auto simp: find_proc_def find_Some_iff)

lemma find_proc_None: "find_proc P s = None \<longleftrightarrow> (\<forall>p < NPROC. \<not> P (ptable s p))"
  by (auto simp: find_proc_def find_None_iff)

lemma wakeup1_fold:
  assumes "distinct ps"
  shows "fold (\<lambda>p s. if state (ptable s p) = SLEEPING \<and> pchan (ptable s p) = ch
       then upd_proc p (\<lambda>q. q\<lparr>state := RUNNABLE\<rparr>) s else s) ps s =
     s\<lparr>ptable := (\<lambda>p. if p \<in> set ps \<and> state (ptable s p) = SLEEPING \<and> pchan (ptable s p) = ch
       then (ptable s p)\<lparr>state := RUNNABLE\<rparr> else ptable s p)\<rparr>"
  using assms
proof (induction ps arbitrary: s)
  case Nil
  then show ?case by simp
next
  case (Cons p ps)
  then show ?case by (auto simp: upd_proc_def fun_eq_iff)
qed

lemma wakeup_eq:
  "wakeup ch s = s\<lparr>ptable := (\<lambda>p. if p < NPROC \<and> state (ptable s p) = SLEEPING \<and> pchan (ptable s p) = ch
     then (ptable s p)\<lparr>state := RUNNABLE\<rparr> else ptable s p)\<rparr>"
  unfolding wakeup_def wakeup1_def by (subst wakeup1_fold) simp_all

lemma wakeup1_eq: "wakeup1 ch s = wakeup ch s"
  by (simp add: wakeup_def)

subsection \<open>A new process\<close>

text \<open>Kernel stack contents that \<open>allocproc\<close> leaves: the return address, then a zeroed context with \<open>eip\<close>.\<close>

definition new_stack :: "uint \<Rightarrow> 'z kern_scheme \<Rightarrow> memory" where
  "new_stack k s = store32 (memset (k + 3996) 0 20 (store32 (mem s) (k + 4016) (trapret_addr s)))
     (k + 4012) (forkret_addr s)"

lemma allocproc_Some:
  assumes "find_proc (\<lambda>q. state q = UNUSED) s = Some p" "nextpid s \<noteq> 2 ^ 31 - 1" "freelist s = k" "k \<noteq> 0"
  shows "allocproc s = Inr (Some p, s\<lparr>nextpid := nextpid s + 1, freelist := load32 (mem s) k,
     ptable := (ptable s)(p := (ptable s p)\<lparr>state := EMBRYO, pid := nextpid s, kstack := k, tf := k + 4020,
       pcontext := k + 3996\<rparr>), mem := new_stack k s\<rparr>)"
  using assms by (simp add: allocproc_def kalloc_def Let_def upd_proc_def poke_def new_stack_def
      KSTACKSIZE_def TF_SIZE_def CTX_SIZE_def CTX_EIP_def add.commute)

lemma new_stack_words:
  "load32 (new_stack k s) (k + 4016) = trapret_addr s"
  "load32 (new_stack k s) (k + 4012) = forkret_addr s"
  "\<not> in_region k 4096 x \<Longrightarrow> new_stack k s x = mem s x"
proof -
  show "load32 (new_stack k s) (k + 4012) = forkret_addr s" by (simp add: new_stack_def)
  have "\<not> in_region (k + 4012) 4 x" "\<not> in_region (k + 3996) 20 x" if "in_region (k + 4016) 4 x" for x
    using that in_region_shift [of 4012 4 k x] in_region_shift [of 3996 20 k x]
      in_region_shift [of 4016 4 k x] by simp_all
  then have "load32 (new_stack k s) (k + 4016) =
      load32 (store32 (mem s) (k + 4016) (trapret_addr s)) (k + 4016)"
    by (intro load32_cong) (simp add: new_stack_def store32_other memset_region)
  then show "load32 (new_stack k s) (k + 4016) = trapret_addr s" by simp
  assume "\<not> in_region k 4096 x"
  then have "\<not> in_region (k + 4012) 4 x" "\<not> in_region (k + 3996) 20 x" "\<not> in_region (k + 4016) 4 x"
    using in_region_sub [of k 4012 4 x 4096] in_region_sub [of k 3996 20 x 4096]
      in_region_sub [of k 4016 4 x 4096] by auto
  then show "new_stack k s x = mem s x" by (simp add: new_stack_def store32_other memset_region)
qed

text \<open>Pids: every slot's is below \<open>nextpid\<close>, and processes have different ones.\<close>

definition pids_ok :: "'z kern_scheme \<Rightarrow> bool" where
  "pids_ok s \<longleftrightarrow> (\<forall>i < NPROC. 0 \<le> pid (ptable s i) \<and> pid (ptable s i) < nextpid s) \<and>
     (\<forall>i < NPROC. \<forall>j < NPROC. state (ptable s i) \<noteq> UNUSED \<longrightarrow> state (ptable s j) \<noteq> UNUSED \<longrightarrow>
        pid (ptable s i) = pid (ptable s j) \<longrightarrow> i = j)"

lemma pids_ok_new:
  assumes "pids_ok s" "p < NPROC" "nextpid s' = nextpid s + 1" "ptable s' = (ptable s)(p := q)"
    "pid q = nextpid s" "0 \<le> nextpid s"
  shows "pids_ok s'"
  using assms unfolding pids_ok_def by (auto simp: less_le)

subsection \<open>Properties\<close>

text \<open>
  C17 (functional).  When a slot and a page are free, \<open>allocproc\<close> takes the first unused slot, gives it
  a pid no slot of the table has and a kernel stack page that it takes off the free list, and
  prepares that page so that the first switch to the process runs \<open>forkret\<close>, which returns to
  \<open>trapret\<close> with the stack pointer at the trap frame: frame, return address and context lie one
  below the other at the top of the page.  Nothing outside the slot and the page changes.
\<close>

theorem allocproc_fresh:
  assumes "kmem_ok s" "free_pages s \<noteq> {}" "pids_ok s" "0 < nextpid s" "nextpid s < 2 ^ 31 - 1"
    "find_proc (\<lambda>q. state q = UNUSED) s = Some p"
  shows "\<exists>s' k. allocproc s = Inr (Some p, s') \<and>
     state (ptable s' p) = EMBRYO \<and> (\<forall>i. i \<noteq> p \<longrightarrow> ptable s' i = ptable s i) \<and>
     (\<forall>i < NPROC. pid (ptable s i) \<noteq> pid (ptable s' p)) \<and> pids_ok s' \<and>
     kstack (ptable s' p) = k \<and> k \<in> free_pages s \<and> free_pages s' = free_pages s - {k} \<and> kmem_ok s' \<and>
     tf (ptable s' p) + TF_SIZE = k + KSTACKSIZE \<and>
     load32 (mem s') (tf (ptable s' p) - 4) = trapret_addr s \<and>
     pcontext (ptable s' p) + CTX_SIZE = tf (ptable s' p) - 4 \<and>
     load32 (mem s') (pcontext (ptable s' p) + CTX_EIP) = forkret_addr s \<and>
     (\<forall>x. \<not> in_region k 4096 x \<longrightarrow> mem s' x = mem s x)"
proof -
  obtain k s1 where k: "kalloc s = (k, s1)" "k \<in> free_pages s" "k \<noteq> 0" "page_ok s k"
      "freelist s = k" "s1 = s\<lparr>freelist := load32 (mem s) k\<rparr>" "kmem_ok s1" "free_pages s1 = free_pages s - {k}"
    using assms(1,2) by (cases s rule: kalloc_cases) auto
  obtain s' where s': "allocproc s = Inr (Some p, s')" and eq: "s' = s\<lparr>nextpid := nextpid s + 1, freelist := load32 (mem s) k,
     ptable := (ptable s)(p := (ptable s p)\<lparr>state := EMBRYO, pid := nextpid s, kstack := k, tf := k + 4020,
       pcontext := k + 3996\<rparr>), mem := new_stack k s\<rparr>"
    using allocproc_Some [OF assms(6) _ k(5,3)] assms(5) by simp
  have p: "p < NPROC" using find_procE(1) [OF assms(6)] .
  have keep: "mem s' x = mem s1 x" if "q \<in> free_pages s1" "in_region q 4096 x" for q x
  proof -
    have "page_ok s q" "q \<noteq> k" using that(1) k assms(1) by (auto intro: kmem.avail_page)
    then have "\<not> in_region k 4096 x" using page_ok_apart [of s q k x] k(4) that(2) by blast
    then show ?thesis by (simp add: eq k(6) new_stack_words)
  qed
  have free: "kmem_ok s'" "free_pages s' = free_pages s1"
    using kmem_ok_frame [OF k(7), of s'] keep by (auto simp: eq k(6))
  have pids: "pids_ok s'"
    by (rule pids_ok_new [OF assms(3) p, where q = "ptable s' p"]) (use assms(4) in \<open>simp_all add: eq\<close>)
  have fresh: "\<forall>i < NPROC. pid (ptable s i) \<noteq> pid (ptable s' p)"
    using assms(3) by (auto simp: eq pids_ok_def)
  have "\<forall>i. i \<noteq> p \<longrightarrow> ptable s' i = ptable s i" "state (ptable s' p) = EMBRYO" "kstack (ptable s' p) = k"
    "tf (ptable s' p) = k + 4020" "pcontext (ptable s' p) = k + 3996" "mem s' = new_stack k s"
    by (simp_all add: eq)
  with s' free k(2,8) pids fresh show ?thesis
    by (intro exI [of _ s'] exI [of _ k] conjI)
      (simp_all add: new_stack_words new_stack_words(1,2) [of k s, unfolded add.commute [of k]] TF_SIZE_def KSTACKSIZE_def CTX_SIZE_def CTX_EIP_def)
qed

definition zero_proc :: proc where
  "zero_proc = \<lparr>sz = 0, pgdir = 0, kstack = 0, state = UNUSED, pid = 0, parent = None, tf = 0, pcontext = 0,
     pchan = None, killed = False, ofile = (\<lambda>_. None), cwd = None, pname = replicate 16 0\<rparr>"

text \<open>The table as it is at boot, and one free page, whose link word is zero.\<close>

definition boot_kern :: kern where
  "boot_kern = \<lparr>mem = (\<lambda>_. 0), kend = 0x80110000, kmem_lock = \<lparr>locked = 0, lname = [], lcpu = None, pcs = []\<rparr>,
     use_lock = True, freelist = 0x80111000, ptable = (\<lambda>_. zero_proc), curproc = None, initproc = None,
     nextpid = 1, ticks = 0, forkret_addr = 0x80103000, trapret_addr = 0x80105000,
     kdata = 0x80108000, kpgdir = 0,
     hw = \<lparr>cr2 = 0, cr3 = 0, gdt = (\<lambda>_. SEG 0 0 0 0), cpu_addr = 0x8010f000, ts_addr = 0x8010f008, ts_ss0 = 0, ts_esp0 = 0\<rparr>\<rparr>"

lemma boot_kern_facts:
  "kmem_ok boot_kern" "free_pages boot_kern = {0x80111000}" "pids_ok boot_kern"
  "find_proc (\<lambda>q. state q = UNUSED) boot_kern = Some 0" "find_proc (\<lambda>q. pid q = 0) boot_kern = Some 0"
  "nextpid boot_kern = 1" "ptable boot_kern = (\<lambda>_. zero_proc)" "freelist boot_kern = 0x80111000"
proof -
  have "load32 (\<lambda>_. 0) 0x80111000 = 0" by (simp add: load32_def of_le32_def)
  then have "kmem_inv [0x80111000] boot_kern"
    by (simp add: kmem_inv_def boot_kern_def page_ok_def PGSIZE_def v2p_def KERNBASE_def PHYSTOP_def)
  then show "kmem_ok boot_kern" "free_pages boot_kern = {0x80111000}"
    by (auto simp: kmem_ok_def free_pages_inv)
  show "find_proc (\<lambda>q. state q = UNUSED) boot_kern = Some 0" "find_proc (\<lambda>q. pid q = 0) boot_kern = Some 0"
    by (simp_all add: find_proc_def NPROC_def upt_rec boot_kern_def zero_proc_def)
qed (simp_all add: pids_ok_def boot_kern_def zero_proc_def)

lemma allocproc_fresh_witness:
  "\<exists>s'. allocproc boot_kern = Inr (Some 0, s') \<and> kstack (ptable s' 0) = 0x80111000 \<and> free_pages s' = {} \<and>
     load32 (mem s') (tf (ptable s' 0) - 4) = trapret_addr boot_kern"
proof -
  obtain s' k where "allocproc boot_kern = Inr (Some 0, s')" "kstack (ptable s' 0) = k" "k \<in> free_pages boot_kern"
    "free_pages s' = free_pages boot_kern - {k}" "load32 (mem s') (tf (ptable s' 0) - 4) = trapret_addr boot_kern"
    using allocproc_fresh [of boot_kern 0] boot_kern_facts by auto
  then show ?thesis by (simp add: boot_kern_facts)
qed

text \<open>
  C18 (error).  \<open>kill\<close> compares pids without looking at the slot's state.  A free slot of the table has
  pid 0, so \<open>kill(0)\<close> reports success, marks the free slot as killed, and the next process that
  \<open>allocproc\<close> puts there starts its life killed: \<open>allocproc\<close> does not reset the mark.
\<close>

theorem kill_marks_free_slot:
  assumes "find_proc (\<lambda>q. pid q = 0) s = Some p" "find_proc (\<lambda>q. state q = UNUSED) s = Some p"
    "freelist s \<noteq> 0" "nextpid s < 2 ^ 31 - 1"
  shows "\<exists>s1 s2. kill 0 s = (0, s1) \<and> allocproc s1 = Inr (Some p, s2) \<and> killed (ptable s2 p)"
proof -
  let ?s1 = "upd_proc p (\<lambda>q. q\<lparr>killed := True\<rparr>) s"
  have "state (ptable s p) = UNUSED" using find_procE(2) [OF assms(2)] .
  then have kill: "kill 0 s = (0, ?s1)" using assms(1) by (simp add: kill_def Let_def)
  have "find_proc (\<lambda>q. state q = UNUSED) ?s1 = Some p"
    using assms(2) by (auto simp: find_proc_def fun_upd_def find_Some_iff)
  from allocproc_Some [OF this _ _ assms(3)] assms(4) kill show ?thesis by auto
qed

lemma kill_marks_free_slot_witness:
  "\<exists>s1 s2. kill 0 boot_kern = (0, s1) \<and> allocproc s1 = Inr (Some 0, s2) \<and> killed (ptable s2 0)"
  using kill_marks_free_slot [of boot_kern 0] boot_kern_facts by simp

end
