(* ===== verification/Sched.thy ===== *)
theory Sched
  imports Proctab
begin

text \<open>
  Scheduling on several CPUs: \<open>scheduler\<close>, \<open>sched\<close>, \<open>yield\<close>, \<open>sleep\<close>, \<open>forkret\<close> and the parts of
  \<open>exit\<close> and \<open>wait\<close> that give up the CPU.  \<open>ptable.lock\<close> is held across the context switch: a
  process acquires it and the scheduler loop of the CPU releases it, or the other way round.
  The step relation follows each CPU through the scheduler loop, a process and back; its
  invariant shows that a process never runs on two CPUs, that \<open>sched\<close> never finds its
  preconditions violated and that the interrupt flag survives a switch to another CPU.
\<close>

subsection \<open>State\<close>

text \<open>
  Where a CPU is: outside the lock in \<open>scheduler\<close>, about to look at slot \<open>i\<close> of the table, in a
  process that \<open>swtch\<close> has just entered, in a process without and with \<open>ptable.lock\<close>.  Where a
  process will continue when it is switched to: at the start of \<open>forkret\<close>, or after the
  \<open>swtch\<close> of \<open>sched\<close> called from \<open>yield\<close>, \<open>sleep\<close> or \<open>exit\<close>, with the value of the local \<open>intena\<close>.
\<close>

datatype mode = Loop | Scan nat | Resume | User | Locked

datatype kont = KForkret | KYield bool | KSleep bool | KExit bool

text \<open>
  \<open>others\<close> counts the other locks that the CPU's process holds.  \<open>wantif\<close> is bookkeeping: the
  interrupt flag that the process had when it last entered its outermost locked section.
\<close>

record msys =
  procs :: "nat \<Rightarrow> proc"
  ptlock :: spinlock
  mcpus :: "nat \<Rightarrow> cpu"
  cproc :: "nat \<Rightarrow> nat option"
  mode :: "nat \<Rightarrow> mode"
  kont :: "nat \<Rightarrow> kont"
  others :: "nat \<Rightarrow> nat"
  wantif :: "nat \<Rightarrow> bool"

text \<open>Every CPU enters \<open>scheduler\<close>; \<open>userinit\<close> has made the first process runnable.\<close>

definition msys_init :: msys where
  "msys_init = \<lparr>procs = (\<lambda>_. zero_proc)(0 := zero_proc\<lparr>state := RUNNABLE, pid := 1\<rparr>),
     ptlock = initlock ''ptable'' \<lparr>locked = 0, lname = [], lcpu = None, pcs = replicate 10 0\<rparr>,
     mcpus = (\<lambda>_. \<lparr>ncli = 0, intena = False, fl_if = False\<rparr>), cproc = (\<lambda>_. None), mode = (\<lambda>_. Loop),
     kont = (\<lambda>_. KForkret), others = (\<lambda>_. 0), wantif = (\<lambda>_. False)\<rparr>"

subsection \<open>Routines\<close>

text \<open>\<open>acquire(&ptable.lock)\<close> when the lock is free, and \<open>release(&ptable.lock)\<close>.\<close>

definition pt_acquire :: "nat \<Rightarrow> uint list \<Rightarrow> msys \<Rightarrow> msys outcome" where
  "pt_acquire c stk s =
     ebind (acquire_enter c (ptlock s) (mcpus s c)) (\<lambda>cp.
       Inr (s\<lparr>mcpus := (mcpus s)(c := cp), ptlock := acquire_record c stk (snd (xchg 1 (ptlock s)))\<rparr>))"

definition pt_release :: "nat \<Rightarrow> msys \<Rightarrow> msys outcome" where
  "pt_release c s =
     ebind (release_clear c (ptlock s)) (\<lambda>lk.
     ebind (popcli (mcpus s c)) (\<lambda>cp.
       Inr (s\<lparr>ptlock := snd (xchg 0 lk), mcpus := (mcpus s)(c := cp)\<rparr>)))"

definition set_state :: "nat \<Rightarrow> procstate \<Rightarrow> msys \<Rightarrow> msys" where
  "set_state p st s = s\<lparr>procs := (procs s)(p := (procs s p)\<lparr>state := st\<rparr>)\<rparr>"

text \<open>
  \<open>sched\<close> up to and including the switch: the scheduler of this CPU continues behind its own
  \<open>swtch\<close>, clears \<open>proc\<close> and goes on to the next slot.
\<close>

definition sched :: "nat \<Rightarrow> nat \<Rightarrow> (bool \<Rightarrow> kont) \<Rightarrow> msys \<Rightarrow> msys outcome" where
  "sched c p k s =
     (if \<not> holding c (ptlock s) then Inl (Panic ''sched ptable.lock'')
      else if ncli (mcpus s c) \<noteq> 1 then Inl (Panic ''sched locks'')
      else if state (procs s p) = RUNNING then Inl (Panic ''sched running'')
      else if fl_if (mcpus s c) then Inl (Panic ''sched interruptible'')
      else Inr (s\<lparr>kont := (kont s)(p := k (intena (mcpus s c))),
                  cproc := (cproc s)(c := None), mode := (mode s)(c := Scan (Suc p))\<rparr>))"

text \<open>The other side of the switch: \<open>cpu->intena = intena\<close> and what the callers of \<open>sched\<close> do next.\<close>

definition set_intena :: "nat \<Rightarrow> bool \<Rightarrow> msys \<Rightarrow> msys" where
  "set_intena c b s = s\<lparr>mcpus := (mcpus s)(c := (mcpus s c)\<lparr>intena := b\<rparr>)\<rparr>"

definition to_mode :: "nat \<Rightarrow> mode \<Rightarrow> msys \<Rightarrow> msys" where
  "to_mode c m s = s\<lparr>mode := (mode s)(c := m)\<rparr>"

definition switch_in :: "nat \<Rightarrow> nat \<Rightarrow> msys \<Rightarrow> msys outcome" where
  "switch_in c p s =
     (case kont s p of
        KForkret \<Rightarrow> ebind (pt_release c s) (\<lambda>s. Inr (to_mode c User s))
      | KYield b \<Rightarrow> ebind (pt_release c (set_intena c b s)) (\<lambda>s. Inr (to_mode c User s))
      | KSleep b \<Rightarrow>
          let s = set_intena c b s
          in Inr (to_mode c Locked (s\<lparr>procs := (procs s)(p := (procs s p)\<lparr>pchan := None\<rparr>)\<rparr>))
      | KExit b \<Rightarrow> Inl (Panic ''zombie exit''))"

text \<open>\<open>yield\<close>, \<open>sleep\<close> and \<open>exit\<close> from the point where they hold \<open>ptable.lock\<close>.\<close>

definition yield_locked :: "nat \<Rightarrow> nat \<Rightarrow> msys \<Rightarrow> msys outcome" where
  "yield_locked c p s = sched c p KYield (set_state p RUNNABLE s)"

definition sleep_locked :: "nat \<Rightarrow> nat \<Rightarrow> chan \<Rightarrow> msys \<Rightarrow> msys outcome" where
  "sleep_locked c p ch s =
     (let s = s\<lparr>procs := (procs s)(p := (procs s p)\<lparr>pchan := Some ch, state := SLEEPING\<rparr>)\<rparr>
      in sched c p KSleep s)"

definition exit_locked :: "nat \<Rightarrow> nat \<Rightarrow> msys \<Rightarrow> msys outcome" where
  "exit_locked c p s = sched c p KExit (set_state p ZOMBIE s)"

definition wake :: "chan option \<Rightarrow> (nat \<Rightarrow> proc) \<Rightarrow> nat \<Rightarrow> proc" where
  "wake ch pt = (\<lambda>p. if p < NPROC \<and> state (pt p) = SLEEPING \<and> pchan (pt p) = ch
     then (pt p)\<lparr>state := RUNNABLE\<rparr> else pt p)"

definition sti_cpu :: "nat \<Rightarrow> bool \<Rightarrow> msys \<Rightarrow> msys" where
  "sti_cpu c b s = s\<lparr>mcpus := (mcpus s)(c := (mcpus s c)\<lparr>fl_if := b\<rparr>)\<rparr>"

definition note_if :: "nat \<Rightarrow> nat \<Rightarrow> msys \<Rightarrow> msys" where
  "note_if c p s = (if ncli (mcpus s c) = 0 then s\<lparr>wantif := (wantif s)(p := fl_if (mcpus s c))\<rparr> else s)"

subsection \<open>The CPUs at work\<close>

inductive mstep :: "msys \<Rightarrow> msys \<Rightarrow> bool" where
  loop_lock: "mode s c = Loop \<Longrightarrow> locked (ptlock s) = 0 \<Longrightarrow> pt_acquire c stk (sti_cpu c True s) = Inr s' \<Longrightarrow>
     mstep s (to_mode c (Scan 0) s')"
| scan_skip: "mode s c = Scan i \<Longrightarrow> i < NPROC \<Longrightarrow> state (procs s i) \<noteq> RUNNABLE \<Longrightarrow>
     mstep s (to_mode c (Scan (Suc i)) s)"
| scan_pick: "mode s c = Scan i \<Longrightarrow> i < NPROC \<Longrightarrow> state (procs s i) = RUNNABLE \<Longrightarrow>
     mstep s (to_mode c Resume (set_state i RUNNING (s\<lparr>cproc := (cproc s)(c := Some i)\<rparr>)))"
| scan_done: "mode s c = Scan i \<Longrightarrow> NPROC \<le> i \<Longrightarrow> pt_release c s = Inr s' \<Longrightarrow> mstep s (to_mode c Loop s')"
| resume: "mode s c = Resume \<Longrightarrow> cproc s c = Some p \<Longrightarrow> switch_in c p s = Inr s' \<Longrightarrow> mstep s s'"
| lock: "mode s c = User \<Longrightarrow> cproc s c = Some p \<Longrightarrow> locked (ptlock s) = 0 \<Longrightarrow>
     pt_acquire c stk (note_if c p s) = Inr s' \<Longrightarrow> mstep s (to_mode c Locked s')"
| unlock: "mode s c = Locked \<Longrightarrow> pt_release c s = Inr s' \<Longrightarrow> mstep s (to_mode c User s')"
| take_other: "mode s c = User \<or> mode s c = Locked \<Longrightarrow> cproc s c = Some p \<Longrightarrow> s1 = note_if c p s \<Longrightarrow>
     mstep s (s1\<lparr>mcpus := (mcpus s1)(c := pushcli (mcpus s1 c)), others := (others s1)(c := Suc (others s1 c))\<rparr>)"
| drop_other: "mode s c = User \<or> mode s c = Locked \<Longrightarrow> others s c = Suc n \<Longrightarrow> popcli (mcpus s c) = Inr cp \<Longrightarrow>
     mstep s (s\<lparr>mcpus := (mcpus s)(c := cp), others := (others s)(c := n)\<rparr>)"
| flip: "mode s c = User \<Longrightarrow> ncli (mcpus s c) = 0 \<Longrightarrow> mstep s (sti_cpu c b s)"
| yield: "mode s c = Locked \<Longrightarrow> cproc s c = Some p \<Longrightarrow> yield_locked c p s = Inr s' \<Longrightarrow> mstep s s'"
| sleep: "mode s c = Locked \<Longrightarrow> cproc s c = Some p \<Longrightarrow> sleep_locked c p ch s = Inr s' \<Longrightarrow> mstep s s'"
| exit: "mode s c = Locked \<Longrightarrow> cproc s c = Some p \<Longrightarrow> exit_locked c p s = Inr s' \<Longrightarrow> mstep s s'"
| wakeup: "mode s c = Locked \<Longrightarrow> mstep s (s\<lparr>procs := wake ch (procs s)\<rparr>)"
| intr_wakeup: "mode s c = Loop \<Longrightarrow> locked (ptlock s) = 0 \<Longrightarrow> pt_acquire c stk s = Inr s1 \<Longrightarrow>
     pt_release c (s1\<lparr>procs := wake ch (procs s1)\<rparr>) = Inr s2 \<Longrightarrow> mstep s s2"
| kill: "mode s c = Locked \<Longrightarrow> p < NPROC \<Longrightarrow> mstep s (s\<lparr>procs := (procs s)(p := (procs s p)\<lparr>killed := True,
       state := (if state (procs s p) = SLEEPING then RUNNABLE else state (procs s p))\<rparr>)\<rparr>)"
| newproc: "mode s c = Locked \<Longrightarrow> p < NPROC \<Longrightarrow> state (procs s p) = UNUSED \<Longrightarrow>
     mstep s (set_state p EMBRYO (s\<lparr>kont := (kont s)(p := KForkret)\<rparr>))"
| ready: "mode s c = User \<Longrightarrow> p < NPROC \<Longrightarrow> state (procs s p) = EMBRYO \<Longrightarrow> st = RUNNABLE \<or> st = UNUSED \<Longrightarrow>
     mstep s (set_state p st s)"
| reap: "mode s c = Locked \<Longrightarrow> p < NPROC \<Longrightarrow> state (procs s p) = ZOMBIE \<Longrightarrow> mstep s (set_state p UNUSED s)"

inductive mreach :: "msys \<Rightarrow> bool" where
  minit: "mreach msys_init"
| mnext: "mreach s \<Longrightarrow> mstep s t \<Longrightarrow> mreach t"

subsection \<open>The invariant\<close>

fun has_lock :: "mode \<Rightarrow> bool" where
  "has_lock Loop = False" | "has_lock User = False" | "has_lock (Scan i) = True"
| "has_lock Resume = True" | "has_lock Locked = True"

fun in_proc :: "mode \<Rightarrow> bool" where
  "in_proc Loop = False" | "in_proc (Scan i) = False" | "in_proc User = True"
| "in_proc Resume = True" | "in_proc Locked = True"

definition lock_part :: "msys \<Rightarrow> bool" where
  "lock_part s \<longleftrightarrow>
     (case lcpu (ptlock s) of
        None \<Rightarrow> locked (ptlock s) = 0 \<and> (\<forall>c. \<not> has_lock (mode s c))
      | Some d \<Rightarrow> locked (ptlock s) \<noteq> 0 \<and> (\<forall>c. has_lock (mode s c) \<longleftrightarrow> c = d))"

definition cli_part :: "msys \<Rightarrow> bool" where
  "cli_part s \<longleftrightarrow> (\<forall>c. ncli (mcpus s c) = int (others s c) + (if has_lock (mode s c) then 1 else 0) \<and>
     (0 < ncli (mcpus s c) \<longrightarrow> \<not> fl_if (mcpus s c)) \<and>
     (mode s c \<noteq> User \<and> mode s c \<noteq> Locked \<longrightarrow> others s c = 0))"

definition run_part :: "msys \<Rightarrow> bool" where
  "run_part s \<longleftrightarrow> (\<forall>c. in_proc (mode s c) \<longleftrightarrow> cproc s c \<noteq> None) \<and>
     (\<forall>c p. cproc s c = Some p \<longrightarrow> p < NPROC \<and> state (procs s p) = RUNNING) \<and>
     (\<forall>c d p. cproc s c = Some p \<longrightarrow> cproc s d = Some p \<longrightarrow> c = d) \<and>
     (\<forall>p. state (procs s p) = RUNNING \<longrightarrow> (\<exists>c. cproc s c = Some p))"

fun is_exit :: "kont \<Rightarrow> bool" where
  "is_exit (KExit b) = True" | "is_exit KForkret = False" | "is_exit (KYield b) = False" | "is_exit (KSleep b) = False"

definition kont_part :: "msys \<Rightarrow> bool" where
  "kont_part s \<longleftrightarrow> (\<forall>p. is_exit (kont s p) \<longrightarrow> state (procs s p) = ZOMBIE \<or> state (procs s p) = UNUSED)"

definition at_work :: "msys \<Rightarrow> nat \<Rightarrow> nat \<Rightarrow> bool" where
  "at_work s c p \<longleftrightarrow> cproc s c = Some p \<and> (mode s c = User \<or> mode s c = Locked)"

fun saved :: "kont \<Rightarrow> bool option" where
  "saved KForkret = None" | "saved (KYield b) = Some b" | "saved (KSleep b) = Some b" | "saved (KExit b) = None"

definition if_part :: "msys \<Rightarrow> bool" where
  "if_part s \<longleftrightarrow>
     (\<forall>c p. at_work s c p \<longrightarrow> 0 < ncli (mcpus s c) \<longrightarrow> intena (mcpus s c) = wantif s p) \<and>
     (\<forall>p b. saved (kont s p) = Some b \<longrightarrow> (\<forall>c. \<not> at_work s c p) \<longrightarrow> b = wantif s p)"

lemmas sched_ops = pt_acquire_def pt_release_def acquire_enter_def acquire_record_def release_clear_def
  xchg_def holding_def set_state_def set_intena_def to_mode_def sti_cpu_def note_if_def
  yield_locked_def sleep_locked_def exit_locked_def sched_def switch_in_def Let_def

lemma pt_acquire_Inr:
  "pt_acquire c stk s = Inr s' \<longleftrightarrow> \<not> holding c (ptlock s) \<and>
     s' = s\<lparr>mcpus := (mcpus s)(c := pushcli (mcpus s c)), ptlock := (ptlock s)\<lparr>locked := 1, lcpu := Some c, pcs := stk\<rparr>\<rparr>"
  by (auto simp: pt_acquire_def acquire_enter_def acquire_record_def xchg_def Let_def)

lemma pt_release_Inr:
  "pt_release c s = Inr s' \<longleftrightarrow> holding c (ptlock s) \<and> (\<exists>cp. popcli (mcpus s c) = Inr cp \<and>
     s' = s\<lparr>ptlock := (ptlock s)\<lparr>pcs := (pcs (ptlock s))[0 := 0], lcpu := None, locked := 0\<rparr>,
            mcpus := (mcpus s)(c := cp)\<rparr>)"
  by (auto simp: pt_release_def release_clear_def xchg_def outcome_simps)

lemma sched_Inr:
  "sched c p k s = Inr s' \<longleftrightarrow> holding c (ptlock s) \<and> ncli (mcpus s c) = 1 \<and> state (procs s p) \<noteq> RUNNING \<and>
     \<not> fl_if (mcpus s c) \<and>
     s' = s\<lparr>kont := (kont s)(p := k (intena (mcpus s c))), cproc := (cproc s)(c := None), mode := (mode s)(c := Scan (Suc p))\<rparr>"
  by (auto simp: sched_def)

lemma switch_in_Inr:
  "switch_in c p s = Inr s' \<longleftrightarrow>
     (\<exists>s1. kont s p = KForkret \<and> pt_release c s = Inr s1 \<and> s' = to_mode c User s1) \<or>
     (\<exists>b s1. kont s p = KYield b \<and> pt_release c (set_intena c b s) = Inr s1 \<and> s' = to_mode c User s1) \<or>
     (\<exists>b. kont s p = KSleep b \<and> s' = to_mode c Locked
        ((set_intena c b s)\<lparr>procs := (procs s)(p := (procs s p)\<lparr>pchan := None\<rparr>)\<rparr>))"
  by (auto simp: switch_in_def outcome_simps Let_def set_intena_def split: kont.splits)

lemmas step_simps = pt_acquire_Inr pt_release_Inr sched_Inr switch_in_Inr holding_def set_state_def
  set_intena_def to_mode_def sti_cpu_def note_if_def yield_locked_def sleep_locked_def exit_locked_def Let_def

lemma lock_part_keep:
  assumes "lock_part s" "ptlock t = ptlock s" "mode t = (mode s)(c := m)" "has_lock m = has_lock (mode s c)"
  shows "lock_part t"
proof -
  have "has_lock (mode t d) = has_lock (mode s d)" for d using assms(3,4) by simp
  then show ?thesis using assms(1,2) unfolding lock_part_def by (simp split: option.splits)
qed

lemma lock_part_drop:
  assumes "lock_part s" "lcpu (ptlock s) = Some c" "locked (ptlock t) = 0" "lcpu (ptlock t) = None"
    "mode t = (mode s)(c := m)" "\<not> has_lock m"
  shows "lock_part t"
  using assms by (auto simp: lock_part_def)

lemma lock_part_take:
  assumes "lock_part s" "locked (ptlock s) = 0" "locked (ptlock t) \<noteq> 0" "lcpu (ptlock t) = Some c"
    "mode t = (mode s)(c := m)" "has_lock m"
  shows "lock_part t"
  using assms by (auto simp: lock_part_def split: option.splits)

lemma lock_part_step: "mstep s t \<Longrightarrow> lock_part s \<Longrightarrow> lock_part t"
proof (induction rule: mstep.induct)
  case (loop_lock s c stk s')
  then show ?case by - (rule lock_part_take [of s _ c "Scan 0"], auto simp: step_simps)
next
  case (scan_skip s c i)
  then show ?case by - (rule lock_part_keep [of s _ c "Scan (Suc i)"], auto simp: step_simps)
next
  case (scan_pick s c i)
  then show ?case by - (rule lock_part_keep [of s _ c Resume], auto simp: step_simps)
next
  case (scan_done s c i s')
  then show ?case by - (rule lock_part_drop [of s c _ Loop], auto simp: step_simps)
next
  case (resume s c p s')
  then consider "kont s p = KForkret" | b where "kont s p = KYield b" | b where "kont s p = KSleep b"
    unfolding switch_in_Inr by blast
  then show ?case
  proof cases
    case 1
    with resume show ?thesis by - (rule lock_part_drop [of s c _ User], auto simp: step_simps)
  next
    case 2
    with resume show ?thesis by - (rule lock_part_drop [of s c _ User], auto simp: step_simps)
  next
    case 3
    with resume show ?thesis by - (rule lock_part_keep [of s _ c Locked], auto simp: step_simps)
  qed
next
  case (lock s c p stk s')
  then show ?case by - (rule lock_part_take [of s _ c Locked], auto simp: step_simps)
next
  case (unlock s c s')
  then show ?case by - (rule lock_part_drop [of s c _ User], auto simp: step_simps)
next
  case (intr_wakeup s c stk s1 ch s2)
  then show ?case by (auto simp: step_simps lock_part_def split: option.splits)
qed (auto simp: lock_part_def step_simps split: option.splits)

lemma switch_in_cases:
  assumes "switch_in c p s = Inr s'"
  obtains (forkret) cp where "kont s p = KForkret" "holding c (ptlock s)" "popcli (mcpus s c) = Inr cp"
      "s' = s\<lparr>ptlock := (ptlock s)\<lparr>pcs := (pcs (ptlock s))[0 := 0], lcpu := None, locked := 0\<rparr>,
              mcpus := (mcpus s)(c := cp), mode := (mode s)(c := User)\<rparr>"
  | (yield) b cp where "kont s p = KYield b" "holding c (ptlock s)" "popcli ((mcpus s c)\<lparr>intena := b\<rparr>) = Inr cp"
      "s' = s\<lparr>ptlock := (ptlock s)\<lparr>pcs := (pcs (ptlock s))[0 := 0], lcpu := None, locked := 0\<rparr>,
              mcpus := (mcpus s)(c := cp), mode := (mode s)(c := User)\<rparr>"
  | (sleep) b where "kont s p = KSleep b"
      "s' = s\<lparr>mcpus := (mcpus s)(c := (mcpus s c)\<lparr>intena := b\<rparr>),
              procs := (procs s)(p := (procs s p)\<lparr>pchan := None\<rparr>), mode := (mode s)(c := Locked)\<rparr>"
  using assms unfolding switch_in_Inr pt_release_Inr set_intena_def to_mode_def
  by (elim disjE exE conjE) auto

lemma cli_part_step: "mstep s t \<Longrightarrow> cli_part s \<Longrightarrow> cli_part t"
proof (induction rule: mstep.induct)
  case (resume s c p s')
  from resume(3) show ?case
    by (cases rule: switch_in_cases) (use resume(1,2,4) in \<open>auto simp: cli_part_def popcli_def Let_def split: if_splits\<close>)
qed (auto simp: cli_part_def step_simps pushcli_def popcli_def split: if_splits)

lemma kont_part_step: "mstep s t \<Longrightarrow> kont_part s \<Longrightarrow> kont_part t"
proof (induction rule: mstep.induct)
  case (resume s c p s')
  from resume(3) show ?case
    by (cases rule: switch_in_cases) (use resume(4) in \<open>auto simp: kont_part_def\<close>)
qed (auto simp: kont_part_def step_simps wake_def)

lemma run_part_same:
  assumes "run_part s" "cproc t = cproc s" "\<And>p. state (procs t p) = RUNNING \<longleftrightarrow> state (procs s p) = RUNNING"
    "\<And>c. in_proc (mode t c) \<longleftrightarrow> in_proc (mode s c)"
  shows "run_part t"
  using assms(1) unfolding run_part_def assms(2-4) .

lemma run_part_start:
  assumes "run_part s" "mode s c = Scan i" "i < NPROC" "state (procs s i) \<noteq> RUNNING"
    "cproc t = (cproc s)(c := Some i)" "mode t = (mode s)(c := Resume)"
    "\<And>p. state (procs t p) = RUNNING \<longleftrightarrow> p = i \<or> state (procs s p) = RUNNING"
  shows "run_part t"
proof -
  have "cproc s c = None" using assms(1,2) by (metis in_proc.simps(2) run_part_def)
  moreover have "cproc s d \<noteq> Some i" for d using assms(1,4) by (auto simp: run_part_def)
  ultimately show ?thesis
    using assms(1,3) unfolding run_part_def assms(5-7) by (auto split: if_splits) (metis option.distinct(1))
qed

lemma run_partD:
  assumes "run_part s"
  shows "in_proc (mode s c) \<longleftrightarrow> cproc s c \<noteq> None"
    and "cproc s c = Some p \<Longrightarrow> p < NPROC \<and> state (procs s p) = RUNNING"
    and "cproc s c = Some p \<Longrightarrow> cproc s d = Some p \<Longrightarrow> c = d"
    and "state (procs s p) = RUNNING \<Longrightarrow> \<exists>c. cproc s c = Some p"
  using assms unfolding run_part_def by blast+

lemma run_part_stop:
  assumes "run_part s" "cproc s c = Some p" "cproc t = (cproc s)(c := None)" "mode t = (mode s)(c := Scan i)"
    "\<And>q. state (procs t q) = RUNNING \<longleftrightarrow> q \<noteq> p \<and> state (procs s q) = RUNNING"
  shows "run_part t"
  unfolding run_part_def assms(3-5)
proof (intro conjI allI impI)
  fix d
  show "in_proc (((mode s)(c := Scan i)) d) \<longleftrightarrow> ((cproc s)(c := None)) d \<noteq> None"
    using run_partD(1) [OF assms(1), of d] by simp
  fix q
  assume q: "((cproc s)(c := None)) d = Some q"
  then have d: "d \<noteq> c" "cproc s d = Some q" by (auto split: if_splits)
  then show "q < NPROC" "q \<noteq> p" "state (procs s q) = RUNNING"
    using run_partD(2,3) [OF assms(1)] assms(2) by blast+
  show "d = e" if "((cproc s)(c := None)) e = Some q" for e
    using that d run_partD(3) [OF assms(1), of d q e] by (auto split: if_splits)
next
  fix q assume q: "q \<noteq> p \<and> state (procs s q) = RUNNING"
  then obtain d where "cproc s d = Some q" using run_partD(4) [OF assms(1), of q] by auto
  with q assms(2) show "\<exists>d. ((cproc s)(c := None)) d = Some q" by (intro exI [of _ d]) auto
qed

lemma run_part_step: "mstep s t \<Longrightarrow> run_part s \<Longrightarrow> run_part t"
proof (induction rule: mstep.induct)
  case (scan_pick s c i)
  then show ?case by - (rule run_part_start [of s c i], auto simp: step_simps)
next
  case (resume s c p s')
  from resume(3) show ?case
    by (cases rule: switch_in_cases) (rule run_part_same [OF resume(4)]; use resume(1) in simp)+
next
  case (yield s c p s')
  then show ?case by - (rule run_part_stop [of s c p _ "Suc p"], auto simp: step_simps)
next
  case (sleep s c p ch s')
  then show ?case by - (rule run_part_stop [of s c p _ "Suc p"], auto simp: step_simps)
next
  case (exit s c p s')
  then show ?case by - (rule run_part_stop [of s c p _ "Suc p"], auto simp: step_simps)
next
  case (kill s c p)
  then show ?case by - (rule run_part_same [of s], auto)
qed ((rule run_part_same; auto simp: step_simps wake_def)+)

lemma if_part_same:
  assumes "if_part s" "at_work t = at_work s" "wantif t = wantif s"
    "\<And>p b. saved (kont t p) = Some b \<Longrightarrow> saved (kont s p) = Some b"
    "\<And>c p. at_work s c p \<Longrightarrow> 0 < ncli (mcpus t c) \<Longrightarrow> 0 < ncli (mcpus s c) \<and> intena (mcpus t c) = intena (mcpus s c)"
  shows "if_part t"
  unfolding if_part_def assms(2,3) using assms(1,4,5) unfolding if_part_def by metis

lemma if_part_note:
  assumes "if_part s" "at_work t = at_work s" "at_work s c p" "kont t = kont s" "0 \<le> ncli (mcpus s c)"
    "mcpus t = (mcpus s)(c := pushcli (mcpus s c))"
    "wantif t = (if ncli (mcpus s c) = 0 then (wantif s)(p := fl_if (mcpus s c)) else wantif s)"
    "\<And>d. at_work s d p \<Longrightarrow> d = c"
  shows "if_part t"
  unfolding if_part_def assms(2,4,6,7)
proof (intro conjI allI impI)
  fix d q
  assume d: "at_work s d q" and n: "0 < ncli (((mcpus s)(c := pushcli (mcpus s c))) d)"
  show "intena (((mcpus s)(c := pushcli (mcpus s c))) d) =
      (if ncli (mcpus s c) = 0 then (wantif s)(p := fl_if (mcpus s c)) else wantif s) q"
  proof (cases "d = c")
    case True
    with d assms(3) have "q = p" by (simp add: at_work_def)
    with True d assms(1,5) show ?thesis by (auto simp: pushcli_def if_part_def)
  next
    case False
    with d assms(8) [of d] have "q \<noteq> p" by auto
    with False d n assms(1) show ?thesis by (auto simp: if_part_def)
  qed
next
  fix q b
  assume q: "saved (kont s q) = Some b" "\<forall>d. \<not> at_work s d q"
  with assms(3) have "q \<noteq> p" by auto
  with q assms(1) show "b = (if ncli (mcpus s c) = 0 then (wantif s)(p := fl_if (mcpus s c)) else wantif s) q"
    by (auto simp: if_part_def)
qed

lemma if_part_leave:
  assumes "if_part s" "at_work s c p" "0 < ncli (mcpus s c)" "wantif t = wantif s" "mcpus t = mcpus s"
    "kont t = (kont s)(p := k (intena (mcpus s c)))" "\<And>b x. saved (k b) = Some x \<Longrightarrow> x = b"
    "\<And>d q. at_work t d q \<longleftrightarrow> at_work s d q \<and> d \<noteq> c"
  shows "if_part t"
  unfolding if_part_def assms(4-6)
proof (intro conjI allI impI)
  fix d q assume "at_work t d q" "0 < ncli (mcpus s d)"
  with assms(1,8) show "intena (mcpus s d) = wantif s q" by (auto simp: if_part_def)
next
  fix q b
  assume q: "saved (((kont s)(p := k (intena (mcpus s c)))) q) = Some b" "\<forall>d. \<not> at_work t d q"
  show "b = wantif s q"
  proof (cases "q = p")
    case True
    with q(1) have "b = intena (mcpus s c)" using assms(7) by auto
    with True assms(1-3) show ?thesis by (auto simp: if_part_def)
  next
    case False
    then have "\<not> at_work s c q" using assms(2) by (auto simp: at_work_def)
    then have "\<forall>d. \<not> at_work s d q" using q(2) assms(8) by metis
    with False q(1) assms(1) show ?thesis by (auto simp: if_part_def)
  qed
qed

lemma if_part_enter:
  assumes "if_part s" "\<And>d q. at_work t d q \<longleftrightarrow> at_work s d q \<or> d = c \<and> q = p" "\<And>q. \<not> at_work s c q"
    "wantif t = wantif s" "kont t = kont s" "mcpus t = (mcpus s)(c := cp)"
    "0 < ncli cp \<Longrightarrow> intena cp = wantif s p"
  shows "if_part t"
  using assms(1,3,7) unfolding if_part_def assms(2,4-6) by auto

lemma cli_partD:
  assumes "cli_part s"
  shows "ncli (mcpus s c) = int (others s c) + (if has_lock (mode s c) then 1 else 0)"
    and "0 < ncli (mcpus s c) \<Longrightarrow> \<not> fl_if (mcpus s c)"
    and "mode s c \<noteq> User \<Longrightarrow> mode s c \<noteq> Locked \<Longrightarrow> others s c = 0"
    and "0 \<le> ncli (mcpus s c)"
  using assms unfolding cli_part_def by (simp_all)

lemma popcli_Inr: "popcli c = Inr c' \<Longrightarrow> ncli c' = ncli c - 1 \<and> intena c' = intena c"
  by (auto simp: popcli_def Let_def split: if_splits)

lemma if_part_resume:
  assumes "mode s c = Resume" "cproc s c = Some p" "switch_in c p s = Inr s'" "if_part s" "run_part s" "cli_part s"
  shows "if_part s'"
proof -
  have one: "ncli (mcpus s c) = 1" using cli_partD(1,3) [OF assms(6), of c] assms(1) by simp
  have idle: "\<not> at_work s d p" for d
    using run_partD(3) [OF assms(5,2), of d] assms(1) by (auto simp: at_work_def)
  have enter: "if_part t"
    if "cproc t = cproc s" "mode t = (mode s)(c := m)" "m = User \<or> m = Locked" "wantif t = wantif s"
      "kont t = kont s" "mcpus t = (mcpus s)(c := cp)" "0 < ncli cp \<Longrightarrow> intena cp = wantif s p" for t m cp
  proof (rule if_part_enter [OF assms(4), of t c p cp])
    show "at_work t d q \<longleftrightarrow> at_work s d q \<or> d = c \<and> q = p" for d q
      using that(1-3) assms(1,2) by (auto simp: at_work_def)
    show "\<not> at_work s c q" for q using assms(1) by (simp add: at_work_def)
  qed (use that in simp_all)
  from assms(3) show ?thesis
  proof (cases rule: switch_in_cases)
    case (forkret cp)
    then have "ncli cp = 0" using one popcli_Inr by fastforce
    with forkret show ?thesis by - (rule enter [of _ User cp], simp_all)
  next
    case (yield b cp)
    then have "ncli cp = 0" using one popcli_Inr by fastforce
    with yield show ?thesis by - (rule enter [of _ User cp], simp_all)
  next
    case (sleep b)
    then have "b = wantif s p" using assms(4) idle by (auto simp: if_part_def)
    with sleep show ?thesis by - (rule enter [of _ Locked "(mcpus s c)\<lparr>intena := b\<rparr>"], simp_all)
  qed
qed

lemma if_part_step:
  assumes "mstep s t" "if_part s" "run_part s" "cli_part s"
  shows "if_part t"
  using assms
proof (induction rule: mstep.induct)
  case (resume s c p s')
  then show ?case by (rule if_part_resume)
next
  case (lock s c p stk s')
  have work: "at_work s c p" using lock(1,2) by (simp add: at_work_def)
  have only: "d = c" if "at_work s d p" for d
    using run_partD(3) [OF lock(6), of d p c] that lock(2) by (simp add: at_work_def)
  have "s' = (note_if c p s)\<lparr>mcpus := (mcpus s)(c := pushcli (mcpus s c)),
      ptlock := (ptlock s)\<lparr>locked := 1, lcpu := Some c, pcs := stk\<rparr>\<rparr>"
    using lock(4) by (simp add: pt_acquire_Inr note_if_def)
  then show ?case
    by - (rule if_part_note [OF lock(5) _ work _ cli_partD(4) [OF lock(7)] _ _ only],
        use lock(1) in \<open>simp_all add: to_mode_def note_if_def at_work_def fun_eq_iff\<close>)
next
  case (take_other s c p s1)
  have work: "at_work s c p" using take_other(1,2) by (simp add: at_work_def)
  have only: "d = c" if "at_work s d p" for d
    using run_partD(3) [OF take_other(5), of d p c] that take_other(2) by (simp add: at_work_def)
  show ?case
    by (rule if_part_note [OF take_other(4) _ work _ cli_partD(4) [OF take_other(6)] _ _ only])
      (simp_all add: take_other(3) note_if_def at_work_def fun_eq_iff)
next
  case (yield s c p s')
  then show ?case by - (rule if_part_leave [of s c p _ KYield], auto simp: step_simps at_work_def)
next
  case (sleep s c p ch s')
  then show ?case by - (rule if_part_leave [of s c p _ KSleep], auto simp: step_simps at_work_def)
next
  case (exit s c p s')
  then show ?case by - (rule if_part_leave [of s c p _ KExit], auto simp: step_simps at_work_def)
next
  case (drop_other s c n cp)
  then show ?case
    by - (rule if_part_same [of s], use popcli_Inr [of "mcpus s c" cp] in \<open>auto simp: at_work_def fun_eq_iff\<close>)
next
  case (unlock s c s')
  then show ?case
    by - (rule if_part_same [of s], auto simp: at_work_def fun_eq_iff step_simps dest: popcli_Inr split: if_splits)
qed ((rule if_part_same; auto simp: step_simps at_work_def fun_eq_iff split: if_splits)+)

lemma mreach_inv:
  assumes "mreach s"
  shows "lock_part s" "cli_part s" "run_part s" "kont_part s" "if_part s"
  using assms
proof (induction rule: mreach.induct)
  case minit
  {
    case 1 show ?case by (simp add: lock_part_def msys_init_def initlock_def)
  next
    case 2 show ?case by (simp add: cli_part_def msys_init_def)
  next
    case 3 show ?case by (auto simp: run_part_def msys_init_def zero_proc_def)
  next
    case 4 show ?case by (simp add: kont_part_def msys_init_def)
  next
    case 5 show ?case by (simp add: if_part_def at_work_def msys_init_def)
  }
qed (blast intro: lock_part_step cli_part_step run_part_step kont_part_step if_part_step)+

lemma holding_iff: "lock_part s \<Longrightarrow> holding c (ptlock s) \<longleftrightarrow> has_lock (mode s c)"
  by (auto simp: lock_part_def holding_def split: option.splits)

lemma pt_release_total:
  assumes "lock_part s" "cli_part s" "has_lock (mode s c)"
  obtains cp where "popcli (mcpus s c) = Inr cp" "ncli cp = int (others s c)" "intena cp = intena (mcpus s c)"
    "others s c = 0 \<Longrightarrow> fl_if cp = intena (mcpus s c)"
    "pt_release c s = Inr (s\<lparr>ptlock := (ptlock s)\<lparr>pcs := (pcs (ptlock s))[0 := 0], lcpu := None, locked := 0\<rparr>,
       mcpus := (mcpus s)(c := cp)\<rparr>)"
proof -
  have n: "ncli (mcpus s c) = int (others s c) + 1" using cli_partD(1) [OF assms(2), of c] assms(3) by simp
  then have "\<not> fl_if (mcpus s c)" using cli_partD(2) [OF assms(2), of c] by simp
  with n have "popcli (mcpus s c) = Inr ((mcpus s c)\<lparr>ncli := int (others s c), fl_if := others s c = 0 \<and> intena (mcpus s c)\<rparr>)"
    by (cases "mcpus s c") (simp add: popcli_def Let_def)
  moreover have "holding c (ptlock s)" using holding_iff [OF assms(1)] assms(3) by simp
  ultimately show thesis by - (rule that, simp_all add: pt_release_Inr)
qed

lemma set_intena_simps [simp]:
  "ptlock (set_intena c b s) = ptlock s" "mode (set_intena c b s) = mode s" "others (set_intena c b s) = others s"
  "ncli (mcpus (set_intena c b s) d) = ncli (mcpus s d)" "fl_if (mcpus (set_intena c b s) d) = fl_if (mcpus s d)"
  by (simp_all add: set_intena_def)

lemma lock_part_intena: "lock_part (set_intena c b s) = lock_part s"
  by (simp add: lock_part_def split: option.split)

lemma cli_part_intena: "cli_part (set_intena c b s) = cli_part s"
  by (simp add: cli_part_def)

lemma sched_total:
  assumes "lock_part s" "cli_part s" "mode s c = Locked" "state (procs s' p) \<noteq> RUNNING"
    "ptlock s' = ptlock s" "mcpus s' = mcpus s"
  shows "(\<exists>t. sched c p k s' = Inr t) \<longleftrightarrow> others s c = 0"
    and "others s c \<noteq> 0 \<Longrightarrow> sched c p k s' = Inl (Panic ''sched locks'')"
  using assms holding_iff [OF assms(1), of c] cli_partD(1,2) [OF assms(2), of c]
  by (auto simp: sched_def)

lemma sched_total_switch:
  assumes "mreach s" "mode s c = Resume" "cproc s c = Some p"
  shows "\<exists>t. switch_in c p s = Inr t"
proof -
  note inv = mreach_inv [OF assms(1)]
  have lk: "has_lock (mode s c)" using assms(2) by simp
  show ?thesis
  proof (cases "kont s p")
    case KForkret
    obtain t where "pt_release c s = Inr t" using pt_release_total [OF inv(1,2) lk] by metis
    with KForkret show ?thesis by (auto simp: switch_in_def)
  next
    case (KYield b)
    have "lock_part (set_intena c b s)" "cli_part (set_intena c b s)" "has_lock (mode (set_intena c b s) c)"
      using inv(1,2) lk by (simp_all add: lock_part_intena cli_part_intena)
    then obtain t where "pt_release c (set_intena c b s) = Inr t" using pt_release_total by metis
    with KYield show ?thesis by (auto simp: switch_in_def)
  next
    case (KSleep b)
    then show ?thesis by (auto simp: switch_in_def Let_def)
  next
    case (KExit b)
    with inv(4) have "state (procs s p) = ZOMBIE \<or> state (procs s p) = UNUSED" by (simp add: kont_part_def)
    with run_partD(2) [OF inv(3), of c p] assms(3) show ?thesis by simp
  qed
qed

subsection \<open>Properties\<close>

text \<open>
  C8 (safety).  However the CPUs interleave, a process is current on at most one CPU, it is in state
  \<open>RUNNING\<close> exactly while some CPU has it as current, and \<open>ptable.lock\<close>, although it is taken by a
  process and given back by the scheduler or the other way round, is in the hands of at most one
  CPU.  So two CPUs never run on the same kernel stack.
\<close>

theorem process_on_one_cpu:
  assumes "mreach s"
  shows "(cproc s c = Some p \<longrightarrow> cproc s d = Some p \<longrightarrow> c = d) \<and>
     (state (procs s p) = RUNNING \<longleftrightarrow> (\<exists>c. cproc s c = Some p)) \<and>
     (has_lock (mode s c) \<longrightarrow> has_lock (mode s d) \<longrightarrow> c = d)"
  using run_partD(2-4) [OF mreach_inv(3) [OF assms]] mreach_inv(1) [OF assms]
  by (auto simp: lock_part_def split: option.splits)

text \<open>
  C9 (error).  When the checks around the context switch fire.  A process that holds \<open>ptable.lock\<close> and no
  other lock passes the four checks of \<open>sched\<close> in \<open>yield\<close>, \<open>sleep\<close> and \<open>exit\<close>; with another lock in its
  hands each of the three stops the machine with ``sched locks''.  The scheduler loop can always
  release the lock it holds, and a process that is switched to can always go on: \<open>release\<close> does not
  panic in \<open>forkret\<close>, \<open>yield\<close> and \<open>sleep\<close>, and no zombie is ever resumed.
\<close>

theorem sched_checks:
  assumes "mreach s"
  shows "(mode s c = Resume \<and> cproc s c = Some p \<longrightarrow> (\<exists>t. switch_in c p s = Inr t)) \<and>
     (has_lock (mode s c) \<longrightarrow> (\<exists>t. pt_release c s = Inr t)) \<and>
     (mode s c = Locked \<and> others s c = 0 \<longrightarrow>
        (\<exists>t. yield_locked c p s = Inr t) \<and> (\<exists>t. sleep_locked c p ch s = Inr t) \<and> (\<exists>t. exit_locked c p s = Inr t)) \<and>
     (mode s c = Locked \<and> others s c \<noteq> 0 \<longrightarrow>
        yield_locked c p s = Inl (Panic ''sched locks'') \<and> sleep_locked c p ch s = Inl (Panic ''sched locks'') \<and>
        exit_locked c p s = Inl (Panic ''sched locks''))"
proof (intro conjI impI)
  note inv = mreach_inv [OF assms]
  show rel: "\<exists>t. pt_release c s = Inr t" if "has_lock (mode s c)"
    using pt_release_total [OF inv(1,2) that] by metis
  show "\<exists>t. switch_in c p s = Inr t" if "mode s c = Resume \<and> cproc s c = Some p"
    using sched_total_switch [OF assms] that by blast
qed (use mreach_inv(1,2) [OF assms] in \<open>auto simp: yield_locked_def sleep_locked_def exit_locked_def set_state_def
      Let_def sched_total [of s]\<close>)

text \<open>
  C10 (invariant).  A process finds its interrupt flag as it left it, even when \<open>sched\<close> lets it continue on
  another CPU: when it gives up its last lock, by itself or in \<open>yield\<close> after the switch, the flag of
  the CPU it is then on is the flag it had when it entered its outermost locked section.  This is
  what saving and restoring \<open>intena\<close> in \<open>sched\<close> is for.
\<close>

theorem interrupt_flag_restored:
  assumes "mreach s" "cproc s c = Some p"
  shows "(mode s c = Locked \<and> others s c = 0 \<and> pt_release c s = Inr t \<longrightarrow> fl_if (mcpus t c) = wantif s p) \<and>
     (mode s c = Resume \<and> kont s p = KYield b \<and> switch_in c p s = Inr t \<longrightarrow> fl_if (mcpus t c) = wantif s p)"
proof (intro conjI impI)
  note inv = mreach_inv [OF assms(1)]
  assume l: "mode s c = Locked \<and> others s c = 0 \<and> pt_release c s = Inr t"
  then have "at_work s c p" "0 < ncli (mcpus s c)"
    using assms(2) cli_partD(1) [OF inv(2), of c] by (simp_all add: at_work_def)
  then have "intena (mcpus s c) = wantif s p" using inv(5) by (auto simp: if_part_def)
  with l show "fl_if (mcpus t c) = wantif s p"
    using pt_release_total [OF inv(1,2), of c] by (metis (no_types, lifting) fun_upd_same has_lock.simps(5)
        msys.select_convs(3) msys.surjective msys.update_convs(3) sum.inject(2))
next
  note inv = mreach_inv [OF assms(1)]
  assume r: "mode s c = Resume \<and> kont s p = KYield b \<and> switch_in c p s = Inr t"
  then have "\<not> at_work s d p" for d
    using run_partD(3) [OF inv(3) assms(2), of d] by (auto simp: at_work_def)
  then have b: "b = wantif s p" using inv(5) r by (auto simp: if_part_def)
  have "ncli (mcpus s c) = 1" "\<not> fl_if (mcpus s c)"
    using cli_partD(1-3) [OF inv(2), of c] r by simp_all
  with b r show "fl_if (mcpus t c) = wantif s p"
    by (auto simp: switch_in_Inr step_simps popcli_def split: if_splits)
qed

subsection \<open>A run of the first process\<close>

lemma first_process_runs:
  "\<exists>s. mreach s \<and> mode s 0 = User \<and> cproc s 0 = Some 0 \<and> others s 0 = 0 \<and> locked (ptlock s) = 0"
proof -
  obtain s1 where s1: "pt_acquire 0 [] (sti_cpu 0 True msys_init) = Inr s1" "procs s1 = procs msys_init"
    "kont s1 = kont msys_init"
    by (auto simp: pt_acquire_Inr sti_cpu_def msys_init_def initlock_def holding_def)
  let ?s2 = "to_mode 0 (Scan 0) s1"
  let ?s3 = "to_mode 0 Resume (set_state 0 RUNNING (?s2\<lparr>cproc := (cproc ?s2)(0 := Some 0)\<rparr>))"
  have "mstep msys_init ?s2"
    by (rule mstep.loop_lock [OF _ _ s1(1)]) (simp_all add: msys_init_def initlock_def)
  moreover have "mstep ?s2 ?s3"
    by (rule mstep.scan_pick) (simp_all add: to_mode_def s1(2) msys_init_def NPROC_def)
  ultimately have r: "mreach ?s3" by (meson mreach.intros)
  have k: "kont ?s3 0 = KForkret" "mode ?s3 0 = Resume" "cproc ?s3 0 = Some 0"
    by (simp_all add: to_mode_def set_state_def s1(3) msys_init_def)
  obtain t where t: "switch_in 0 0 ?s3 = Inr t" using sched_total_switch [OF r k(2,3)] by blast
  have "mreach t" by (rule mnext [OF r mstep.resume [OF k(2,3) t]])
  moreover have "others ?s3 0 = 0" using cli_partD(3) [OF mreach_inv(2) [OF r], of 0] k(2) by simp
  with t k have "mode t 0 = User" "cproc t 0 = Some 0" "others t 0 = 0" "locked (ptlock t) = 0"
    by (auto elim!: switch_in_cases)
  ultimately show ?thesis by blast
qed

lemma first_process_locks:
  "\<exists>s. mreach s \<and> mode s 0 = Locked \<and> cproc s 0 = Some 0 \<and> others s 0 = 0"
proof -
  obtain s where s: "mreach s" "mode s 0 = User" "cproc s 0 = Some 0" "others s 0 = 0" "locked (ptlock s) = 0"
    using first_process_runs by blast
  have "\<not> holding 0 (ptlock (note_if 0 0 s))" using s(5) by (simp add: holding_def note_if_def)
  then obtain t where t: "pt_acquire 0 [] (note_if 0 0 s) = Inr t" "cproc t = cproc s" "others t = others s"
    by (auto simp: pt_acquire_Inr note_if_def)
  have "mreach (to_mode 0 Locked t)" by (rule mnext [OF s(1) mstep.lock [OF s(2,3,5) t(1)]])
  then show ?thesis using s t by (intro exI [of _ "to_mode 0 Locked t"]) (simp add: to_mode_def)
qed

lemma process_on_one_cpu_witness:
  "\<exists>s. mreach s \<and> cproc s 0 = Some 0 \<and> state (procs s 0) = RUNNING"
proof -
  obtain s where "mreach s" "cproc s 0 = Some 0" using first_process_runs by blast
  with process_on_one_cpu [of s] show ?thesis by blast
qed

lemma sched_checks_witness:
  "\<exists>s t. mreach s \<and> mode s 0 = Locked \<and> sleep_locked 0 0 ChTicks s = Inr t"
proof -
  obtain s where "mreach s" "mode s 0 = Locked" "others s 0 = 0" using first_process_locks by blast
  with sched_checks [of s 0 0 ChTicks] show ?thesis by blast
qed

lemma interrupt_flag_restored_witness:
  "\<exists>s t. mreach s \<and> mode s 0 = Locked \<and> pt_release 0 s = Inr t \<and> fl_if (mcpus t 0) = wantif s 0"
proof -
  obtain s where s: "mreach s" "mode s 0 = Locked" "cproc s 0 = Some 0" "others s 0 = 0"
    using first_process_locks by blast
  then obtain t where "pt_release 0 s = Inr t"
    using pt_release_total [OF mreach_inv(1,2) [OF s(1)], of 0] has_lock.simps(5) by metis
  with s interrupt_flag_restored [OF s(1,3), of t] show ?thesis by blast
qed

end
