(* ===== verification/Bio.thy ===== *)
theory Bio
  imports Proctab
begin

text \<open>
  \<open>bio.c\<close>, the buffer cache, on top of \<open>memide.c\<close>, the disk kept in memory.  The buffers are
  linked in a ring through \<open>prev\<close> and \<open>next\<close>, as in the code; slot \<open>NBUF\<close> is \<open>bcache.head\<close>.  The
  first part shows that the ring refines a list in order of last use: \<open>brelse\<close> moves a buffer
  to the front and \<open>bget\<close> takes the last one that is free.  The second part is what the file
  system relies on: the contents that a reader sees through the cache.
\<close>

subsection \<open>State\<close>

definition NBUF :: nat where "NBUF = 10"

text \<open>\<open>struct buf\<close>, with the three bits of \<open>flags\<close> as fields.  \<open>qnext\<close> belongs to the driver of a real disk.\<close>

record buf =
  busy :: bool
  valid :: bool
  dirty :: bool
  bdev :: uint
  bsector :: uint
  bprev :: nat
  bnext :: nat
  data :: "uchar list"

text \<open>
  The memory disk as 512-byte sectors.  \<open>dwrites\<close> is bookkeeping of the model: the writes that
  have reached the disk, in order.
\<close>

record bio = kern +
  bufs :: "nat \<Rightarrow> buf"
  disksize :: uint
  memdisk :: "uint \<Rightarrow> uchar list"
  dwrites :: "(uint \<times> uchar list) list"

definition upd_buf :: "nat \<Rightarrow> (buf \<Rightarrow> buf) \<Rightarrow> 'z bio_scheme \<Rightarrow> 'z bio_scheme" where
  "upd_buf b f s = s\<lparr>bufs := (bufs s)(b := f (bufs s b))\<rparr>"

text \<open>The assignment \<open>b->data[...] = ...\<close> of the clients.\<close>

definition set_data :: "nat \<Rightarrow> uchar list \<Rightarrow> 'z bio_scheme \<Rightarrow> 'z bio_scheme" where
  "set_data b d s = upd_buf b (\<lambda>q. q\<lparr>data := d\<rparr>) s"

subsection \<open>Routines\<close>

definition iderw :: "nat \<Rightarrow> 'z bio_scheme \<Rightarrow> 'z bio_scheme outcome" where
  "iderw b s =
     (let q = bufs s b
      in if \<not> busy q then Inl (Panic ''iderw: buf not busy'')
         else if valid q \<and> \<not> dirty q then Inl (Panic ''iderw: nothing to do'')
         else if bdev q \<noteq> 1 then Inl (Panic ''iderw: request not for disk 1'')
         else if bsector q \<ge> disksize s then Inl (Panic ''iderw: sector out of range'')
         else if dirty q
              then Inr (upd_buf b (\<lambda>q. q\<lparr>dirty := False, valid := True\<rparr>)
                     (s\<lparr>memdisk := (memdisk s)(bsector q := data q), dwrites := dwrites s @ [(bsector q, data q)]\<rparr>))
              else Inr (upd_buf b (\<lambda>q. q\<lparr>data := memdisk s (bsector q), valid := True\<rparr>) s))"

definition set_next :: "nat \<Rightarrow> nat \<Rightarrow> 'z bio_scheme \<Rightarrow> 'z bio_scheme" where
  "set_next b x s = upd_buf b (\<lambda>q. q\<lparr>bnext := x\<rparr>) s"

definition set_prev :: "nat \<Rightarrow> nat \<Rightarrow> 'z bio_scheme \<Rightarrow> 'z bio_scheme" where
  "set_prev b x s = upd_buf b (\<lambda>q. q\<lparr>bprev := x\<rparr>) s"

definition binit_step :: "nat \<Rightarrow> 'z bio_scheme \<Rightarrow> 'z bio_scheme" where
  "binit_step b s =
     (let s = set_next b (bnext (bufs s NBUF)) s;
          s = set_prev b NBUF s;
          s = upd_buf b (\<lambda>q. q\<lparr>bdev := - 1\<rparr>) s;
          s = set_prev (bnext (bufs s NBUF)) b s
      in set_next NBUF b s)"

definition binit :: "'z bio_scheme \<Rightarrow> 'z bio_scheme" where
  "binit s = fold binit_step [0..<NBUF] (set_next NBUF NBUF (set_prev NBUF NBUF s))"

text \<open>
  The two loops over the ring.  The first argument bounds the number of turns; one more than
  there are buffers is enough on a well-formed ring.
\<close>

fun scan_next :: "nat \<Rightarrow> (nat \<Rightarrow> buf) \<Rightarrow> (buf \<Rightarrow> bool) \<Rightarrow> nat \<Rightarrow> nat option option" where
  "scan_next 0 bf P b = None"
| "scan_next (Suc k) bf P b =
     (if b = NBUF then Some None else if P (bf b) then Some (Some b) else scan_next k bf P (bnext (bf b)))"

fun scan_prev :: "nat \<Rightarrow> (nat \<Rightarrow> buf) \<Rightarrow> (buf \<Rightarrow> bool) \<Rightarrow> nat \<Rightarrow> nat option option" where
  "scan_prev 0 bf P b = None"
| "scan_prev (Suc k) bf P b =
     (if b = NBUF then Some None else if P (bf b) then Some (Some b) else scan_prev k bf P (bprev (bf b)))"

definition bget :: "uint \<Rightarrow> uint \<Rightarrow> 'z bio_scheme \<Rightarrow> (nat \<times> 'z bio_scheme) outcome" where
  "bget dev sector s =
     (case scan_next (Suc NBUF) (bufs s) (\<lambda>q. bdev q = dev \<and> bsector q = sector) (bnext (bufs s NBUF)) of
        None \<Rightarrow> Inl (Undef ''bcache'')
      | Some (Some b) \<Rightarrow>
          if \<not> busy (bufs s b) then Inr (b, upd_buf b (\<lambda>q. q\<lparr>busy := True\<rparr>) s)
          else Inl (Sleep (ChBuf b))
      | Some None \<Rightarrow>
          (case scan_prev (Suc NBUF) (bufs s) (\<lambda>q. \<not> busy q \<and> \<not> dirty q) (bprev (bufs s NBUF)) of
             None \<Rightarrow> Inl (Undef ''bcache'')
           | Some (Some b) \<Rightarrow>
               Inr (b, upd_buf b (\<lambda>q. q\<lparr>bdev := dev, bsector := sector, busy := True, valid := False, dirty := False\<rparr>) s)
           | Some None \<Rightarrow> Inl (Panic ''bget: no buffers'')))"

definition bread :: "uint \<Rightarrow> uint \<Rightarrow> 'z bio_scheme \<Rightarrow> (nat \<times> 'z bio_scheme) outcome" where
  "bread dev sector s =
     ebind (bget dev sector s) (\<lambda>(b, s).
       if \<not> valid (bufs s b) then ebind (iderw b s) (\<lambda>s. Inr (b, s)) else Inr (b, s))"

definition bwrite :: "nat \<Rightarrow> 'z bio_scheme \<Rightarrow> 'z bio_scheme outcome" where
  "bwrite b s =
     (if \<not> busy (bufs s b) then Inl (Panic ''bwrite'')
      else iderw b (upd_buf b (\<lambda>q. q\<lparr>dirty := True\<rparr>) s))"

text \<open>The pointer assignments of \<open>brelse\<close>, in two groups: take \<open>b\<close> out of the ring, put it behind the head.\<close>

definition unlink_buf :: "nat \<Rightarrow> 'z bio_scheme \<Rightarrow> 'z bio_scheme" where
  "unlink_buf b s =
     (let s = set_prev (bnext (bufs s b)) (bprev (bufs s b)) s
      in set_next (bprev (bufs s b)) (bnext (bufs s b)) s)"

definition push_buf :: "nat \<Rightarrow> 'z bio_scheme \<Rightarrow> 'z bio_scheme" where
  "push_buf b s =
     (let s = set_next b (bnext (bufs s NBUF)) s;
          s = set_prev b NBUF s;
          s = set_prev (bnext (bufs s NBUF)) b s
      in set_next NBUF b s)"

definition brelse :: "nat \<Rightarrow> 'z bio_scheme \<Rightarrow> 'z bio_scheme outcome" where
  "brelse b s =
     (if \<not> busy (bufs s b) then Inl (Panic ''brelse'')
      else let s = unlink_buf b s;
               s = push_buf b s;
               s = upd_buf b (\<lambda>q. q\<lparr>busy := False\<rparr>) s
           in Inr (wakeup (Some (ChBuf b)) s))"

subsection \<open>The ring\<close>

text \<open>The pointers lead from slot \<open>a\<close> through \<open>xs\<close> to slot \<open>c\<close>, and back.\<close>

fun seg :: "(nat \<Rightarrow> nat) \<Rightarrow> (nat \<Rightarrow> nat) \<Rightarrow> nat \<Rightarrow> nat list \<Rightarrow> nat \<Rightarrow> bool" where
  "seg nx pv a [] c \<longleftrightarrow> nx a = c \<and> pv c = a"
| "seg nx pv a (x # xs) c \<longleftrightarrow> nx a = x \<and> pv x = a \<and> seg nx pv x xs c"

definition ring :: "(nat \<Rightarrow> buf) \<Rightarrow> nat list \<Rightarrow> bool" where
  "ring bf xs \<longleftrightarrow> distinct xs \<and> set xs = {..<NBUF} \<and> seg (\<lambda>i. bnext (bf i)) (\<lambda>i. bprev (bf i)) NBUF xs NBUF"

lemma seg_append: "seg nx pv a (xs @ y # ys) c \<longleftrightarrow> seg nx pv a xs y \<and> seg nx pv y ys c"
  by (induction xs arbitrary: a) auto

lemma seg_cong:
  assumes "\<And>z. z = a \<or> z \<in> set xs \<Longrightarrow> nx' z = nx z" "\<And>z. z = c \<or> z \<in> set xs \<Longrightarrow> pv' z = pv z"
  shows "seg nx' pv' a xs c = seg nx pv a xs c"
  using assms by (induction xs arbitrary: a) auto

lemma seg_ends: "seg nx pv a xs c \<Longrightarrow> pv c = last (a # xs) \<and> nx a = hd (xs @ [c])"
  by (induction xs arbitrary: a) auto

lemma seg_redirect:
  assumes "seg nx pv a xs b" "distinct (a # xs)" "n \<notin> set xs"
  shows "seg (nx(last (a # xs) := n)) (pv(n := last (a # xs))) a xs n"
  using assms
proof (induction xs arbitrary: a)
  case (Cons x xs)
  have l: "last (a # x # xs) = last (x # xs)" by simp
  have "last (x # xs) \<in> set (x # xs)" by (rule last_in_set) simp
  then show ?case
    unfolding l seg.simps using Cons.prems
    by (intro conjI Cons.IH) (auto simp del: last.simps)
qed simp

lemma seg_unlink:
  assumes "seg nx pv a (us @ b # vs) c" "distinct (us @ b # vs)" "a \<notin> set (us @ b # vs)" "c \<notin> set (us @ b # vs)"
  shows "seg (nx(pv b := nx b)) (pv(nx b := pv b)) a (us @ vs) c"
proof -
  have segs: "seg nx pv a us b" "seg nx pv b vs c" using assms(1) by (auto simp: seg_append)
  have p: "pv b = last (a # us)" using seg_ends [OF segs(1)] by simp
  have n: "nx b = hd (vs @ [c])" using seg_ends [OF segs(2)] by simp
  have left: "seg (nx(pv b := nx b)) (pv(nx b := pv b)) a us (nx b)"
    unfolding p by (rule seg_redirect [OF segs(1)]) (use assms(2-4) n in \<open>cases vs; auto\<close>)+
  show ?thesis
  proof (cases vs)
    case Nil
    with left n show ?thesis by simp
  next
    case (Cons v ws)
    have "last (a # us) \<notin> set (v # ws)" using assms(2,3) Cons by (auto split: if_splits dest: last_in_set)
    then have "seg (nx(pv b := nx b)) (pv(nx b := pv b)) v ws c"
      using segs(2) assms(2,4) Cons n p by (subst seg_cong [of v ws _ nx c _ pv]) auto
    with left n Cons show ?thesis by (simp add: seg_append)
  qed
qed

lemma seg_push:
  assumes "seg nx pv h xs h" "h \<notin> set xs" "distinct xs" "b \<notin> set xs" "b \<noteq> h"
  shows "seg (nx(b := nx h, h := b)) (pv(b := h, nx h := b)) h (b # xs) h"
proof (cases xs)
  case Nil
  with assms show ?thesis by simp
next
  case (Cons x ys)
  then have "seg (nx(b := nx h, h := b)) (pv(b := h, nx h := b)) x ys h"
    using assms by (subst seg_cong [of x ys _ nx h _ pv]) auto
  with assms Cons show ?thesis by simp
qed

text \<open>The loops of \<open>bget\<close> find the first and the last buffer of the list with a property.\<close>

lemma scan_next_find:
  assumes "seg (\<lambda>i. bnext (bf i)) pv a xs NBUF" "NBUF \<notin> set xs" "length xs < k"
  shows "scan_next k bf P (bnext (bf a)) = Some (List.find (\<lambda>i. P (bf i)) xs)"
  using assms
proof (induction xs arbitrary: a k)
  case Nil
  then show ?case by (cases k) auto
next
  case (Cons x xs)
  then show ?case by (cases k) auto
qed

lemma scan_prev_find:
  assumes "seg nx (\<lambda>i. bprev (bf i)) NBUF xs c" "NBUF \<notin> set xs" "length xs < k"
  shows "scan_prev k bf P (bprev (bf c)) = Some (List.find (\<lambda>i. P (bf i)) (rev xs))"
  using assms
proof (induction xs arbitrary: c k rule: rev_induct)
  case Nil
  then show ?case by (cases k) auto
next
  case (snoc x xs)
  then have "seg nx (\<lambda>i. bprev (bf i)) NBUF xs x" "bprev (bf c) = x" by (auto simp: seg_append)
  with snoc show ?case by (cases k) auto
qed

lemma ring_facts:
  assumes "ring bf xs"
  shows "NBUF \<notin> set xs" "length xs = NBUF" "distinct xs" "i < NBUF \<longleftrightarrow> i \<in> set xs"
proof -
  have xs: "distinct xs" "set xs = {..<NBUF}" using assms by (auto simp: ring_def)
  then show "NBUF \<notin> set xs" "distinct xs" "i < NBUF \<longleftrightarrow> i \<in> set xs" by simp_all
  show "length xs = NBUF" using xs distinct_card by fastforce
qed

lemma ring_scan:
  assumes "ring bf xs"
  shows "scan_next (Suc NBUF) bf P (bnext (bf NBUF)) = Some (List.find (\<lambda>i. P (bf i)) xs)"
    and "scan_prev (Suc NBUF) bf P (bprev (bf NBUF)) = Some (List.find (\<lambda>i. P (bf i)) (rev xs))"
proof -
  have s: "seg (\<lambda>i. bnext (bf i)) (\<lambda>i. bprev (bf i)) NBUF xs NBUF" using assms by (simp add: ring_def)
  show "scan_next (Suc NBUF) bf P (bnext (bf NBUF)) = Some (List.find (\<lambda>i. P (bf i)) xs)"
    by (rule scan_next_find [OF s]) (use ring_facts [OF assms] in simp_all)
  show "scan_prev (Suc NBUF) bf P (bprev (bf NBUF)) = Some (List.find (\<lambda>i. P (bf i)) (rev xs))"
    by (rule scan_prev_find [OF s]) (use ring_facts [OF assms] in simp_all)
qed

lemma ring_cong: "(\<And>i. bnext (bf' i) = bnext (bf i) \<and> bprev (bf' i) = bprev (bf i)) \<Longrightarrow> ring bf' xs = ring bf xs"
  by (simp add: ring_def)

subsection \<open>Routines on the ring\<close>

lemma upd_buf_simps [simp]:
  "bufs (upd_buf b f s) = (bufs s)(b := f (bufs s b))" "memdisk (upd_buf b f s) = memdisk s"
  "disksize (upd_buf b f s) = disksize s" "dwrites (upd_buf b f s) = dwrites s" "ptable (upd_buf b f s) = ptable s"
  by (simp_all add: upd_buf_def)

text \<open>A buffer without its links.\<close>

definition strip :: "buf \<Rightarrow> buf" where
  "strip q = q\<lparr>bprev := 0, bnext := 0\<rparr>"

lemma strip_fields:
  assumes "strip q = strip r"
  shows "busy q = busy r" "valid q = valid r" "dirty q = dirty r" "bdev q = bdev r" "bsector q = bsector r" "data q = data r"
  using assms by (cases q; cases r; simp add: strip_def)+

lemma strip_links [simp]: "strip (q\<lparr>bprev := x\<rparr>) = strip q" "strip (q\<lparr>bnext := x\<rparr>) = strip q"
  by (simp_all add: strip_def)

lemma strip_upd:
  "strip (q\<lparr>busy := x\<rparr>) = (strip q)\<lparr>busy := x\<rparr>" "strip (q\<lparr>bdev := y\<rparr>) = (strip q)\<lparr>bdev := y\<rparr>"
  by (simp_all add: strip_def)

lemma wakeup_bufs [simp]:
  "bufs (wakeup ch s) = bufs s" "memdisk (wakeup ch s) = memdisk s" "disksize (wakeup ch s) = disksize s"
  "dwrites (wakeup ch s) = dwrites s"
  by (simp_all add: wakeup_eq)

text \<open>The links as functions, and what the assignments do to them.\<close>

definition nexts :: "'z bio_scheme \<Rightarrow> nat \<Rightarrow> nat" where
  "nexts s = (\<lambda>i. bnext (bufs s i))"

definition prevs :: "'z bio_scheme \<Rightarrow> nat \<Rightarrow> nat" where
  "prevs s = (\<lambda>i. bprev (bufs s i))"

lemma ring_links: "ring (bufs s) xs \<longleftrightarrow> distinct xs \<and> set xs = {..<NBUF} \<and> seg (nexts s) (prevs s) NBUF xs NBUF"
  by (simp add: ring_def nexts_def prevs_def)

lemma set_links:
  "nexts (set_next b x s) = (nexts s)(b := x)" "prevs (set_next b x s) = prevs s"
  "nexts (set_prev b x s) = nexts s" "prevs (set_prev b x s) = (prevs s)(b := x)"
  "strip (bufs (set_next b x s) i) = strip (bufs s i)" "strip (bufs (set_prev b x s) i) = strip (bufs s i)"
  by (auto simp: set_next_def set_prev_def nexts_def prevs_def)

lemma unlink_buf_links:
  assumes "nexts s b \<noteq> b"
  shows "nexts (unlink_buf b s) = (nexts s)(prevs s b := nexts s b)"
    and "prevs (unlink_buf b s) = (prevs s)(nexts s b := prevs s b)"
    and "strip (bufs (unlink_buf b s) i) = strip (bufs s i)"
proof -
  have u: "unlink_buf b s = (let s = set_prev (nexts s b) (prevs s b) s in set_next (prevs s b) (nexts s b) s)"
    by (simp add: unlink_buf_def nexts_def prevs_def)
  show "nexts (unlink_buf b s) = (nexts s)(prevs s b := nexts s b)"
    "prevs (unlink_buf b s) = (prevs s)(nexts s b := prevs s b)"
    "strip (bufs (unlink_buf b s) i) = strip (bufs s i)"
    using assms by (simp_all add: u Let_def set_links)
qed

lemma push_buf_links:
  assumes "b \<noteq> NBUF"
  shows "nexts (push_buf b s) = (nexts s)(b := nexts s NBUF, NBUF := b)"
    and "prevs (push_buf b s) = (prevs s)(b := NBUF, nexts s NBUF := b)"
    and "strip (bufs (push_buf b s) i) = strip (bufs s i)"
proof -
  have u: "push_buf b s = (let s = set_next b (nexts s NBUF) s; s = set_prev b NBUF s;
      s = set_prev (nexts s NBUF) b s in set_next NBUF b s)"
    by (simp add: push_buf_def nexts_def)
  show "nexts (push_buf b s) = (nexts s)(b := nexts s NBUF, NBUF := b)"
    "prevs (push_buf b s) = (prevs s)(b := NBUF, nexts s NBUF := b)"
    "strip (bufs (push_buf b s) i) = strip (bufs s i)"
    using assms by (simp_all add: u Let_def set_links)
qed

lemma ring_brelse:
  assumes "ring (bufs s) xs" "b < NBUF"
  shows "ring (bufs (push_buf b (unlink_buf b s))) (b # remove1 b xs)"
    and "strip (bufs (push_buf b (unlink_buf b s)) i) = strip (bufs s i)"
proof -
  note r = ring_facts [OF assms(1)]
  have "b \<in> set xs" using r(4) assms(2) by blast
  then obtain us vs where xs: "xs = us @ b # vs" "b \<notin> set us" by (metis split_list_first)
  then have rem: "remove1 b xs = us @ vs" by (simp add: remove1_append)
  have s: "seg (nexts s) (prevs s) NBUF (us @ b # vs) NBUF" using assms(1) xs by (simp add: ring_links)
  have nb: "nexts s b \<noteq> b" using seg_ends [of "nexts s" "prevs s" b vs NBUF] s r xs assms(2)
    by (cases vs) (auto simp: seg_append)
  have bN: "b \<noteq> NBUF" using assms(2) by simp
  let ?t = "unlink_buf b s"
  have u: "seg (nexts ?t) (prevs ?t) NBUF (us @ vs) NBUF"
    unfolding unlink_buf_links [OF nb] by (rule seg_unlink [OF s]) (use r xs in simp_all)
  have "seg (nexts (push_buf b ?t)) (prevs (push_buf b ?t)) NBUF (b # us @ vs) NBUF"
    unfolding push_buf_links [OF bN] by (rule seg_push [OF u]) (use r xs assms(2) in auto)
  then show "ring (bufs (push_buf b (unlink_buf b s))) (b # remove1 b xs)"
    using r xs assms(1) unfolding ring_links rem by auto
  show "strip (bufs (push_buf b (unlink_buf b s)) i) = strip (bufs s i)"
    by (simp add: push_buf_links(3) [OF bN] unlink_buf_links(3) [OF nb])
qed

text \<open>Only the buffers change.\<close>

definition only_bufs :: "'z bio_scheme \<Rightarrow> 'z bio_scheme \<Rightarrow> bool" where
  "only_bufs s t \<longleftrightarrow> (\<exists>bf. t = s\<lparr>bufs := bf\<rparr>)"

lemma only_bufs_upd: "only_bufs s t \<Longrightarrow> only_bufs s (upd_buf b f t)"
  by (auto simp: only_bufs_def upd_buf_def)

lemma only_bufs_refl: "only_bufs s s"
  unfolding only_bufs_def by (rule exI [of _ "bufs s"]) simp

lemma only_bufsD: "only_bufs s t \<Longrightarrow> t = s\<lparr>bufs := bufs t\<rparr>"
  by (auto simp: only_bufs_def)

lemmas only_bufs_intros = only_bufs_upd only_bufs_refl

lemma only_bufs_links: "only_bufs s (push_buf b (unlink_buf b s))"
  unfolding push_buf_def unlink_buf_def Let_def set_next_def set_prev_def by (intro only_bufs_intros)

lemma only_bufs_binit: "only_bufs s (binit s)"
proof -
  have step: "only_bufs s t \<Longrightarrow> only_bufs s (binit_step b t)" for b t
    unfolding binit_step_def Let_def set_next_def set_prev_def by (intro only_bufs_upd)
  have "only_bufs s t \<Longrightarrow> only_bufs s (fold binit_step bs t)" for bs t
    by (induction bs arbitrary: t) (simp_all add: step)
  then show ?thesis unfolding binit_def set_next_def set_prev_def by (blast intro: only_bufs_intros)
qed

lemma binit_step_links:
  assumes "b \<noteq> NBUF"
  shows "nexts (binit_step b s) = (nexts s)(b := nexts s NBUF, NBUF := b)"
    and "prevs (binit_step b s) = (prevs s)(b := NBUF, nexts s NBUF := b)"
    and "i \<noteq> b \<Longrightarrow> strip (bufs (binit_step b s) i) = strip (bufs s i)"
    and "strip (bufs (binit_step b s) b) = (strip (bufs s b))\<lparr>bdev := - 1\<rparr>"
proof -
  have dev: "nexts (upd_buf b (\<lambda>q. q\<lparr>bdev := x\<rparr>) s) = nexts s" "prevs (upd_buf b (\<lambda>q. q\<lparr>bdev := x\<rparr>) s) = prevs s"
    "strip (bufs (upd_buf b (\<lambda>q. q\<lparr>bdev := x\<rparr>) s) i) = (if i = b then (strip (bufs s b))\<lparr>bdev := x\<rparr> else strip (bufs s i))"
    for x i and s :: "'a bio_scheme"
    by (auto simp: nexts_def prevs_def strip_def)
  have u: "binit_step b s = (let s = set_next b (nexts s NBUF) s; s = set_prev b NBUF s;
      s = upd_buf b (\<lambda>q. q\<lparr>bdev := - 1\<rparr>) s; s = set_prev (nexts s NBUF) b s in set_next NBUF b s)"
    by (simp add: binit_step_def nexts_def)
  show "nexts (binit_step b s) = (nexts s)(b := nexts s NBUF, NBUF := b)"
    "prevs (binit_step b s) = (prevs s)(b := NBUF, nexts s NBUF := b)"
    "i \<noteq> b \<Longrightarrow> strip (bufs (binit_step b s) i) = strip (bufs s i)"
    "strip (bufs (binit_step b s) b) = (strip (bufs s b))\<lparr>bdev := - 1\<rparr>"
    using assms by (simp_all add: u Let_def set_links dev strip_upd)
qed

lemma binit_steps:
  assumes "k \<le> NBUF" "seg (nexts s) (prevs s) NBUF [] NBUF"
  shows "seg (nexts (fold binit_step [0..<k] s)) (prevs (fold binit_step [0..<k] s)) NBUF (rev [0..<k]) NBUF \<and>
     (\<forall>i. strip (bufs (fold binit_step [0..<k] s) i) =
        (if i < k then (strip (bufs s i))\<lparr>bdev := - 1\<rparr> else strip (bufs s i)))"
  using assms
proof (induction k)
  case (Suc k)
  let ?t = "fold binit_step [0..<k] s"
  have k: "k \<noteq> NBUF" using Suc.prems by simp
  have IH: "seg (nexts ?t) (prevs ?t) NBUF (rev [0..<k]) NBUF"
    "\<And>i. strip (bufs ?t i) = (if i < k then (strip (bufs s i))\<lparr>bdev := - 1\<rparr> else strip (bufs s i))"
    using Suc by simp_all
  have fold: "fold binit_step [0..<Suc k] s = binit_step k ?t" "rev [0..<Suc k] = k # rev [0..<k]" by simp_all
  have "seg (nexts (binit_step k ?t)) (prevs (binit_step k ?t)) NBUF (k # rev [0..<k]) NBUF"
    unfolding binit_step_links [OF k] by (rule seg_push [OF IH(1)]) (use Suc.prems k in auto)
  moreover have "strip (bufs (binit_step k ?t) i) =
      (if i < Suc k then (strip (bufs s i))\<lparr>bdev := - 1\<rparr> else strip (bufs s i))" for i
    using binit_step_links(3) [OF k, of i ?t] binit_step_links(4) [OF k, of ?t] IH(2) [of i] by (cases "i = k") auto
  ultimately show ?case unfolding fold by blast
qed simp

lemma ring_binit:
  "ring (bufs (binit s)) (rev [0..<NBUF])"
  "strip (bufs (binit s) i) = (if i < NBUF then (strip (bufs s i))\<lparr>bdev := - 1\<rparr> else strip (bufs s i))"
proof -
  let ?s = "set_next NBUF NBUF (set_prev NBUF NBUF s)"
  have "seg (nexts ?s) (prevs ?s) NBUF [] NBUF" by (simp add: set_links)
  from binit_steps [OF order_refl this]
  show "ring (bufs (binit s)) (rev [0..<NBUF])"
    "strip (bufs (binit s) i) = (if i < NBUF then (strip (bufs s i))\<lparr>bdev := - 1\<rparr> else strip (bufs s i))"
    by (auto simp: ring_links binit_def set_links lessThan_atLeast0)
qed

lemma binit_fields:
  assumes "i < NBUF"
  shows "busy (bufs (binit s) i) = busy (bufs s i)" "dirty (bufs (binit s) i) = dirty (bufs s i)"
    "bdev (bufs (binit s) i) = - 1" "data (bufs (binit s) i) = data (bufs s i)"
proof -
  have "strip (bufs (binit s) i) = strip ((bufs s i)\<lparr>bdev := - 1\<rparr>)" using assms ring_binit(2) [of s i] by (simp add: strip_upd)
  from strip_fields [OF this]
  show "busy (bufs (binit s) i) = busy (bufs s i)" "dirty (bufs (binit s) i) = dirty (bufs s i)"
    "bdev (bufs (binit s) i) = - 1" "data (bufs (binit s) i) = data (bufs s i)" by simp_all
qed

subsection \<open>Order of last use\<close>

definition move_front :: "nat \<Rightarrow> nat list \<Rightarrow> nat list" where
  "move_front b xs = b # remove1 b xs"

text \<open>A history of the cache after \<open>binit\<close>, with the buffers that were released, in order.\<close>

inductive bio_run :: "'z bio_scheme \<Rightarrow> nat list \<Rightarrow> 'z bio_scheme \<Rightarrow> bool" for s0 where
  run_init: "bio_run s0 [] (binit s0)"
| run_read: "bio_run s0 rs s \<Longrightarrow> bread dev b s = Inr (i, s') \<Longrightarrow> bio_run s0 rs s'"
| run_set: "bio_run s0 rs s \<Longrightarrow> bio_run s0 rs (set_data i d s)"
| run_write: "bio_run s0 rs s \<Longrightarrow> bwrite i s = Inr s' \<Longrightarrow> bio_run s0 rs s'"
| run_relse: "bio_run s0 rs s \<Longrightarrow> i < NBUF \<Longrightarrow> brelse i s = Inr s' \<Longrightarrow> bio_run s0 (rs @ [i]) s'"

lemma ring_upd: "bnext q = bnext (bf b) \<Longrightarrow> bprev q = bprev (bf b) \<Longrightarrow> ring (bf(b := q)) xs = ring bf xs"
  by (rule ring_cong) simp

lemma iderw_Inr:
  "iderw b s = Inr s' \<longleftrightarrow> busy (bufs s b) \<and> \<not> (valid (bufs s b) \<and> \<not> dirty (bufs s b)) \<and> bdev (bufs s b) = 1 \<and>
     bsector (bufs s b) < disksize s \<and>
     s' = (if dirty (bufs s b)
           then upd_buf b (\<lambda>q. q\<lparr>dirty := False, valid := True\<rparr>)
                  (s\<lparr>memdisk := (memdisk s)(bsector (bufs s b) := data (bufs s b)),
                     dwrites := dwrites s @ [(bsector (bufs s b), data (bufs s b))]\<rparr>)
           else upd_buf b (\<lambda>q. q\<lparr>data := memdisk s (bsector q), valid := True\<rparr>) s)"
  by (auto simp: iderw_def Let_def not_le)

lemma ring_iderw: "iderw b s = Inr s' \<Longrightarrow> ring (bufs s') xs = ring (bufs s) xs"
  by (auto simp: iderw_Inr ring_upd)

lemma ring_bget: "bget dev sec s = Inr (b, s') \<Longrightarrow> ring (bufs s') xs = ring (bufs s) xs"
  by (auto simp: bget_def ring_upd split: option.splits if_splits)

lemma bread_Inr:
  "bread dev sec s = Inr (b, s') \<longleftrightarrow> (\<exists>s1. bget dev sec s = Inr (b, s1) \<and>
     (if valid (bufs s1 b) then s' = s1 else iderw b s1 = Inr s'))"
  by (auto simp: bread_def outcome_simps split: if_splits)

lemma ring_bread:
  assumes "bread dev sec s = Inr (b, s')"
  shows "ring (bufs s') xs = ring (bufs s) xs"
proof -
  obtain s1 where "bget dev sec s = Inr (b, s1)" "s' = s1 \<or> iderw b s1 = Inr s'"
    using assms by (auto simp: bread_Inr split: if_splits)
  then show ?thesis using ring_bget ring_iderw by blast
qed

lemma ring_bwrite:
  assumes "bwrite b s = Inr s'"
  shows "ring (bufs s') xs = ring (bufs s) xs"
proof -
  have "iderw b (upd_buf b (\<lambda>q. q\<lparr>dirty := True\<rparr>) s) = Inr s'"
    using assms by (simp add: bwrite_def split: if_splits)
  from ring_iderw [OF this, of xs] show ?thesis by (simp add: ring_upd)
qed

lemma brelse_Inr:
  "brelse b s = Inr s' \<longleftrightarrow> busy (bufs s b) \<and>
     s' = wakeup (Some (ChBuf b)) (upd_buf b (\<lambda>q. q\<lparr>busy := False\<rparr>) (push_buf b (unlink_buf b s)))"
  by (auto simp: brelse_def)

lemma ring_brelse_Inr: "brelse b s = Inr s' \<Longrightarrow> b < NBUF \<Longrightarrow> ring (bufs s) xs \<Longrightarrow> ring (bufs s') (move_front b xs)"
  by (simp add: brelse_Inr ring_upd ring_brelse move_front_def)

lemma bio_run_ring:
  "bio_run s0 rs s \<Longrightarrow> ring (bufs s) (fold move_front rs (rev [0..<NBUF]))"
proof (induction rule: bio_run.induct)
  case (run_set rs s i d)
  then show ?case unfolding set_data_def upd_buf_simps by (subst ring_upd) simp_all
next
  case run_init
  show ?case by (simp add: ring_binit)
next
  case (run_read rs s dev b i s')
  then show ?case using ring_bread by blast
next
  case (run_write rs s i s')
  then show ?case using ring_bwrite by blast
next
  case (run_relse rs s i s')
  from ring_brelse_Inr [OF run_relse.hyps(3,2) run_relse.IH] show ?case by simp
qed

text \<open>
  C11 (refinement).  The ring of pointers implements a list of the buffers in order of last use.  After any
  history of reads, writes and releases, with \<open>rs\<close> the buffers released, \<open>bget\<close> behaves as on the list
  that moves each released buffer to the front: it takes the buffer that holds the sector, waiting
  if it is busy, and otherwise recycles the least recently used buffer that is neither busy nor
  dirty.  In particular the loops over the ring end.
\<close>

theorem bget_least_recently_used:
  assumes "bio_run s0 rs s"
  shows "bget dev sector s =
     (let xs = fold move_front rs (rev [0..<NBUF])
      in case List.find (\<lambda>i. bdev (bufs s i) = dev \<and> bsector (bufs s i) = sector) xs of
           Some b \<Rightarrow> if busy (bufs s b) then Inl (Sleep (ChBuf b))
                     else Inr (b, upd_buf b (\<lambda>q. q\<lparr>busy := True\<rparr>) s)
         | None \<Rightarrow>
             (case List.find (\<lambda>i. \<not> busy (bufs s i) \<and> \<not> dirty (bufs s i)) (rev xs) of
                Some b \<Rightarrow> Inr (b, upd_buf b (\<lambda>q. q\<lparr>bdev := dev, bsector := sector, busy := True,
                                                   valid := False, dirty := False\<rparr>) s)
              | None \<Rightarrow> Inl (Panic ''bget: no buffers'')))"
  unfolding bget_def ring_scan [OF bio_run_ring [OF assms]] Let_def by (simp split: option.split)

definition zero_buf :: buf where
  "zero_buf = \<lparr>busy = False, valid = False, dirty = False, bdev = 0, bsector = 0, bprev = 0, bnext = 0,
     data = replicate 512 0\<rparr>"

text \<open>The static data of the kernel at boot, with an empty disk.\<close>

definition boot_bio :: bio where
  "boot_bio = kern.extend boot_kern (bio.fields (\<lambda>_. zero_buf) 1024 (\<lambda>_. replicate 512 0) [])"

lemma boot_bio_simps [simp]:
  "bufs boot_bio = (\<lambda>_. zero_buf)" "disksize boot_bio = 1024" "memdisk boot_bio = (\<lambda>_. replicate 512 0)"
  "dwrites boot_bio = []" "ptable boot_bio = ptable boot_kern"
  by (simp_all add: boot_bio_def kern.defs bio.defs)

lemma bget_least_recently_used_witness:
  "\<exists>s. bio_run boot_bio [] s \<and> bget 1 7 s = Inr (0, upd_buf 0 (\<lambda>q. q\<lparr>bdev := 1, bsector := 7, busy := True,
     valid := False, dirty := False\<rparr>) s)"
proof -
  let ?s = "binit boot_bio"
  have none: "List.find (\<lambda>i. bdev (bufs ?s i) = 1 \<and> bsector (bufs ?s i) = 7) (rev [0..<NBUF]) = None"
    by (auto simp: find_None_iff binit_fields)
  have last: "List.find (\<lambda>i. \<not> busy (bufs ?s i) \<and> \<not> dirty (bufs ?s i)) [0..<NBUF] = Some 0"
    using binit_fields [of 0 boot_bio] by (simp add: NBUF_def upt_rec zero_buf_def)
  show ?thesis
    by (rule exI [of _ ?s], rule conjI [OF run_init])
       (use bget_least_recently_used [OF run_init, of 1 7 boot_bio] none last in simp)
qed

end
