(* ===== verification/Cache.thy ===== *)
theory Cache
  imports Bio
begin

text \<open>
  What the buffer cache gives to its clients.  \<open>view s b\<close> is the contents of sector \<open>b\<close> as a reader
  sees it: the cached copy, or the disk's when there is none.  The locale \<open>block_cache\<close> states the
  contract of \<open>bread\<close>, \<open>bwrite\<close> and \<open>brelse\<close> in these terms and derives the sequences that the log
  and the file system use; the routines of \<open>bio.c\<close> interpret it.
\<close>

subsection \<open>Invariant and view\<close>

text \<open>
  Between calls every buffer is unused, or holds a sector of disk 1; a buffer that nobody has
  locked and that is not dirty agrees with the disk; and no sector is cached twice.
\<close>

definition buf_ok :: "'z bio_scheme \<Rightarrow> buf \<Rightarrow> bool" where
  "buf_ok s q \<longleftrightarrow> length (data q) = 512 \<and>
     (if bdev q = 1 then valid q \<and> bsector q < disksize s \<and> (busy q \<or> dirty q \<or> data q = memdisk s (bsector q))
      else bdev q = - 1 \<and> \<not> busy q \<and> \<not> dirty q)"

definition cache_ok :: "'z bio_scheme \<Rightarrow> bool" where
  "cache_ok s \<longleftrightarrow> (\<exists>xs. ring (bufs s) xs) \<and> (\<forall>i < NBUF. buf_ok s (bufs s i)) \<and>
     (\<forall>i < NBUF. \<forall>j < NBUF. bdev (bufs s i) = 1 \<longrightarrow> bdev (bufs s j) = 1 \<longrightarrow>
        bsector (bufs s i) = bsector (bufs s j) \<longrightarrow> i = j) \<and>
     (\<forall>b. length (memdisk s b) = 512)"

text \<open>Buffer \<open>i\<close> holds sector \<open>b\<close>.\<close>

definition at :: "'z bio_scheme \<Rightarrow> nat \<Rightarrow> uint \<Rightarrow> bool" where
  "at s i b \<longleftrightarrow> i < NBUF \<and> bdev (bufs s i) = 1 \<and> bsector (bufs s i) = b"

definition view :: "'z bio_scheme \<Rightarrow> uint \<Rightarrow> uchar list" where
  "view s b = (case List.find (\<lambda>i. bdev (bufs s i) = 1 \<and> bsector (bufs s i) = b) [0..<NBUF] of
     Some i \<Rightarrow> data (bufs s i) | None \<Rightarrow> memdisk s b)"

definition held :: "'z bio_scheme \<Rightarrow> uint set" where
  "held s = {b. \<exists>i. at s i b \<and> busy (bufs s i)}"

definition pinned :: "'z bio_scheme \<Rightarrow> uint set" where
  "pinned s = {b. \<exists>i. at s i b \<and> dirty (bufs s i)}"

lemma cache_okD:
  assumes "cache_ok s"
  shows "\<exists>xs. ring (bufs s) xs" "i < NBUF \<Longrightarrow> buf_ok s (bufs s i)" "length (memdisk s b) = 512"
    "at s i b \<Longrightarrow> at s j b \<Longrightarrow> i = j"
  using assms unfolding cache_ok_def at_def by auto

lemma other_sector:
  assumes "cache_ok s" "at s i b" "j < NBUF" "j \<noteq> i" "bdev (bufs s j) = 1"
  shows "bsector (bufs s j) \<noteq> b"
  using cache_okD(4) [OF assms(1,2), of j] assms(3-5) by (auto simp: at_def)

lemma view_at:
  assumes "cache_ok s" "at s i b"
  shows "view s b = data (bufs s i)"
proof -
  have "\<not> (bdev (bufs s j) = 1 \<and> bsector (bufs s j) = b)" if "j < i" for j
    using cache_okD(4) [OF assms, of j] that assms(2) by (auto simp: at_def)
  then have "List.find (\<lambda>i. bdev (bufs s i) = 1 \<and> bsector (bufs s i) = b) [0..<NBUF] = Some i"
    using assms(2) unfolding find_Some_iff by (intro exI [of _ i]) (auto simp: at_def)
  then show ?thesis by (simp add: view_def)
qed

lemma view_out:
  assumes "\<And>i. \<not> at s i b"
  shows "view s b = memdisk s b"
proof -
  have "List.find (\<lambda>i. bdev (bufs s i) = 1 \<and> bsector (bufs s i) = b) [0..<NBUF] = None"
    using assms by (auto simp: find_None_iff at_def)
  then show ?thesis by (simp add: view_def)
qed

lemma length_view: "cache_ok s \<Longrightarrow> length (view s b) = 512"
  using view_at [of s _ b] view_out [of s b] cache_okD(2,3) [of s]
  by (metis at_def buf_ok_def)

lemma view_unpinned:
  assumes "cache_ok s" "b \<notin> held s" "b \<notin> pinned s"
  shows "view s b = memdisk s b"
proof (cases "\<exists>i. at s i b")
  case True
  then obtain i where "at s i b" ..
  then show ?thesis
    using view_at [OF assms(1)] cache_okD(2) [OF assms(1), of i] assms(2,3)
    by (auto simp: held_def pinned_def at_def buf_ok_def)
qed (simp add: view_out)

text \<open>A buffer can be taken for sector \<open>b\<close>: it is cached, or some buffer is neither busy nor dirty.\<close>

definition room :: "'z bio_scheme \<Rightarrow> uint \<Rightarrow> bool" where
  "room s b \<longleftrightarrow> (\<exists>i. at s i b) \<or> (\<exists>i < NBUF. \<not> busy (bufs s i) \<and> \<not> dirty (bufs s i))"

lemma room_card:
  assumes "cache_ok s" "card (held s \<union> pinned s) < NBUF"
  shows "room s b"
proof (rule ccontr)
  assume "\<not> room s b"
  then have all: "busy (bufs s i) \<or> dirty (bufs s i)" if "i < NBUF" for i using that by (auto simp: room_def)
  have one: "bdev (bufs s i) = 1" if "i < NBUF" for i
    using all [OF that] cache_okD(2) [OF assms(1) that] by (auto simp: buf_ok_def split: if_splits)
  have "inj_on (\<lambda>i. bsector (bufs s i)) {..<NBUF}"
    using cache_okD(4) [OF assms(1)] one by (auto simp: inj_on_def at_def)
  moreover have "(\<lambda>i. bsector (bufs s i)) ` {..<NBUF} \<subseteq> held s \<union> pinned s"
    using all one by (auto simp: held_def pinned_def at_def)
  moreover have "finite (held s \<union> pinned s)"
  proof (rule finite_subset)
    show "held s \<union> pinned s \<subseteq> (\<lambda>i. bsector (bufs s i)) ` {..<NBUF}" by (auto simp: held_def pinned_def at_def)
  qed simp
  ultimately have "NBUF \<le> card (held s \<union> pinned s)"
    using card_mono card_image by (metis card_lessThan)
  with assms(2) show False by simp
qed

subsection \<open>One buffer changes\<close>

lemma cache_ok_upd:
  assumes "cache_ok s" "i < NBUF" "bufs t = (bufs s)(i := q)" "disksize t = disksize s"
    "bnext q = bnext (bufs s i)" "bprev q = bprev (bufs s i)" "buf_ok t q"
    "\<And>j. j < NBUF \<Longrightarrow> j \<noteq> i \<Longrightarrow> bdev (bufs s j) = 1 \<Longrightarrow> bdev q = 1 \<Longrightarrow> bsector (bufs s j) \<noteq> bsector q"
    "\<And>b. bdev q \<noteq> 1 \<or> b \<noteq> bsector q \<Longrightarrow> memdisk t b = memdisk s b" "\<And>b. length (memdisk t b) = 512"
  shows "cache_ok t"
proof -
  obtain xs where "ring (bufs s) xs" using cache_okD(1) [OF assms(1)] ..
  then have "ring (bufs t) xs" unfolding assms(3) by (subst ring_upd) (simp_all add: assms(5,6))
  moreover have "buf_ok t (bufs t j)" if "j < NBUF" for j
  proof (cases "j = i")
    case False
    then have "memdisk t (bsector (bufs s j)) = memdisk s (bsector (bufs s j))" if "bdev (bufs s j) = 1"
      using assms(8) [OF \<open>j < NBUF\<close> False] assms(9) that by metis
    with False cache_okD(2) [OF assms(1) that] show ?thesis by (auto simp: buf_ok_def assms(3,4))
  qed (simp add: assms(3,7))
  moreover have "j = k" if "j < NBUF" "k < NBUF" "bdev (bufs t j) = 1" "bdev (bufs t k) = 1"
    "bsector (bufs t j) = bsector (bufs t k)" for j k
    using that cache_okD(4) [OF assms(1), of j _ k] assms(8) [of j] assms(8) [of k]
    by (auto simp: assms(3) at_def split: if_splits)
  ultimately show ?thesis using assms(10) unfolding cache_ok_def by blast
qed

lemma view_upd:
  assumes "cache_ok s" "cache_ok t" "i < NBUF" "bufs t = (bufs s)(i := q)" "memdisk t b = memdisk s b"
    "\<not> at t i b" "at s i b \<Longrightarrow> memdisk s b = data (bufs s i)"
  shows "view t b = view s b"
proof (cases "\<exists>j. at t j b")
  case True
  then obtain j where j: "at t j b" ..
  with assms(6) have "j \<noteq> i" by auto
  then have "at s j b" "bufs t j = bufs s j" using j by (auto simp: at_def assms(4))
  then show ?thesis using view_at [OF assms(1)] view_at [OF assms(2) j] by simp
next
  case False
  then have t: "view t b = memdisk s b" using view_out [of t b] assms(5) by auto
  show ?thesis
  proof (cases "at s i b")
    case True
    then show ?thesis using t assms(7) view_at [OF assms(1) True] by simp
  next
    case out: False
    have "\<not> at s j b" for j
    proof (cases "j = i")
      case jn: False
      then have "at t j b = at s j b" by (simp add: at_def assms(4))
      with False show ?thesis by blast
    qed (simp add: out)
    then show ?thesis using t view_out [of s b] by simp
  qed
qed

lemma held_upd:
  assumes "bufs t = (bufs s)(i := q)" "i < NBUF"
  shows "held t = {b. (\<exists>j. j \<noteq> i \<and> at s j b \<and> busy (bufs s j)) \<or> bdev q = 1 \<and> bsector q = b \<and> busy q}"
    and "pinned t = {b. (\<exists>j. j \<noteq> i \<and> at s j b \<and> dirty (bufs s j)) \<or> bdev q = 1 \<and> bsector q = b \<and> dirty q}"
  using assms by (auto simp: held_def pinned_def at_def)

subsection \<open>Reading\<close>

text \<open>What \<open>bread\<close> does when it need not wait: buffer \<open>i\<close> becomes the locked copy of sector \<open>b\<close>.\<close>

definition took :: "'z bio_scheme \<Rightarrow> uint \<Rightarrow> nat \<Rightarrow> buf \<Rightarrow> bool" where
  "took s b i q \<longleftrightarrow> i < NBUF \<and> bnext q = bnext (bufs s i) \<and> bprev q = bprev (bufs s i) \<and> bdev q = 1 \<and> bsector q = b \<and>
     busy q \<and> valid q \<and> data q = view s b \<and> (dirty q \<longleftrightarrow> b \<in> pinned s) \<and> \<not> busy (bufs s i) \<and>
     (\<not> at s i b \<longrightarrow> \<not> dirty (bufs s i) \<and> (\<forall>j. \<not> at s j b))"

lemma bread_took:
  assumes "cache_ok s" "b < disksize s" "b \<notin> held s" "room s b"
  shows "\<exists>i q. bread 1 b s = Inr (i, s\<lparr>bufs := (bufs s)(i := q)\<rparr>) \<and> took s b i q"
proof -
  obtain xs where ring: "ring (bufs s) xs" using cache_okD(1) [OF assms(1)] ..
  note scan = ring_scan [OF ring] and xs = ring_facts(4) [OF ring]
  show ?thesis
  proof (cases "\<exists>i. at s i b")
    case True
    then obtain i where i: "at s i b" ..
    have "List.find (\<lambda>i. bdev (bufs s i) = 1 \<and> bsector (bufs s i) = b) xs = Some i"
    proof -
      have "\<exists>j. List.find (\<lambda>i. bdev (bufs s i) = 1 \<and> bsector (bufs s i) = b) xs = Some j"
        using i xs by (intro find_exists [of i]) (auto simp: at_def)
      then obtain j where j: "List.find (\<lambda>i. bdev (bufs s i) = 1 \<and> bsector (bufs s i) = b) xs = Some j" ..
      then have "at s j b" using xs by (auto simp: at_def dest: find_SomeD)
      with j cache_okD(4) [OF assms(1) i] show ?thesis by blast
    qed
    moreover have ok: "\<not> busy (bufs s i)" "valid (bufs s i)" "i < NBUF" "bdev (bufs s i) = 1" "bsector (bufs s i) = b"
      using i assms(3) cache_okD(2) [OF assms(1), of i] by (auto simp: held_def at_def buf_ok_def)
    ultimately have "bread 1 b s = Inr (i, s\<lparr>bufs := (bufs s)(i := (bufs s i)\<lparr>busy := True\<rparr>)\<rparr>)"
      unfolding bread_Inr bget_def scan by (simp add: upd_buf_def)
    moreover have "dirty (bufs s i) \<longleftrightarrow> b \<in> pinned s"
      using i cache_okD(4) [OF assms(1)] by (auto simp: pinned_def)
    ultimately show ?thesis
      using ok i view_at [OF assms(1) i] by (intro exI conjI) (auto simp: took_def)
  next
    case False
    then have none: "List.find (\<lambda>i. bdev (bufs s i) = 1 \<and> bsector (bufs s i) = b) xs = None"
      using xs by (auto simp: find_None_iff at_def)
    from False assms(4) obtain j where "j < NBUF" "\<not> busy (bufs s j)" "\<not> dirty (bufs s j)" by (auto simp: room_def)
    then have "\<exists>i. List.find (\<lambda>i. \<not> busy (bufs s i) \<and> \<not> dirty (bufs s i)) (rev xs) = Some i"
      using xs by (intro find_exists [of j]) auto
    then obtain i where i: "List.find (\<lambda>i. \<not> busy (bufs s i) \<and> \<not> dirty (bufs s i)) (rev xs) = Some i" ..
    then have ok: "i \<in> set xs" "\<not> busy (bufs s i)" "\<not> dirty (bufs s i)" by (auto dest: find_SomeD)
    then have lt: "i < NBUF" using xs by blast
    let ?q = "(bufs s i)\<lparr>bdev := 1, bsector := b, busy := True, dirty := False, data := memdisk s b, valid := True\<rparr>"
    have "bread 1 b s = Inr (i, s\<lparr>bufs := (bufs s)(i := ?q)\<rparr>)"
      unfolding bread_Inr bget_def scan none i using assms(2) by (simp add: upd_buf_def iderw_Inr)
    moreover have "took s b i ?q"
      using False ok lt view_out [of s b] by (auto simp: took_def pinned_def)
    ultimately show ?thesis by blast
  qed
qed

text \<open>Conversely, a read that returns did not have to wait.\<close>

lemma bread_InrD:
  assumes "cache_ok s" "bread 1 b s = Inr (i, t)"
  shows "b \<notin> held s" "b < disksize s" "room s b"
proof -
  obtain xs where ring: "ring (bufs s) xs" using cache_okD(1) [OF assms(1)] ..
  note scan = ring_scan [OF ring] and xs = ring_facts(4) [OF ring]
  have "b \<notin> held s \<and> b < disksize s \<and> room s b"
  proof (cases "List.find (\<lambda>i. bdev (bufs s i) = 1 \<and> bsector (bufs s i) = b) xs")
    case (Some j)
    then have j: "at s j b" using xs by (auto simp: at_def dest: find_SomeD)
    have "bget 1 b s = Inl (Sleep (ChBuf j))" if "busy (bufs s j)" unfolding bget_def scan Some using that by simp
    then have "\<not> busy (bufs s j)" using assms(2) by (auto simp: bread_def)
    then have "b \<notin> held s" unfolding held_def using cache_okD(4) [OF assms(1) j] by blast
    then show ?thesis using j cache_okD(2) [OF assms(1), of j] by (auto simp: room_def at_def buf_ok_def)
  next
    case None
    then have none: "\<not> at s j b" for j using xs by (auto simp: find_None_iff at_def)
    have "bget 1 b s = Inl (Panic ''bget: no buffers'')"
      if "List.find (\<lambda>i. \<not> busy (bufs s i) \<and> \<not> dirty (bufs s i)) (rev xs) = None" unfolding bget_def scan None that by simp
    then obtain j where j: "List.find (\<lambda>i. \<not> busy (bufs s i) \<and> \<not> dirty (bufs s i)) (rev xs) = Some j"
      using assms(2) by (cases "List.find (\<lambda>i. \<not> busy (bufs s i) \<and> \<not> dirty (bufs s i)) (rev xs)") (auto simp: bread_def)
    let ?u = "upd_buf j (\<lambda>q. q\<lparr>bdev := 1, bsector := b, busy := True, valid := False, dirty := False\<rparr>) s"
    have "bget 1 b s = Inr (j, ?u)" unfolding bget_def scan None j by simp
    then have "iderw j ?u = Inr t" using assms(2) unfolding bread_Inr by auto
    then have "b < disksize s" by (simp add: iderw_Inr)
    then show ?thesis using none j xs by (auto simp: room_def held_def dest!: find_SomeD)
  qed
  then show "b \<notin> held s" "b < disksize s" "room s b" by simp_all
qed

lemma took_rule:
  assumes "cache_ok s" "b < disksize s" "took s b i q"
  defines "t \<equiv> s\<lparr>bufs := (bufs s)(i := q)\<rparr>"
  shows "cache_ok t" "view t = view s" "held t = insert b (held s)" "pinned t = pinned s" "at t i b"
    "busy (bufs t i)" "data (bufs t i) = view s b"
proof -
  note q = assms(3) [unfolded took_def]
  have t: "bufs t = (bufs s)(i := q)" "disksize t = disksize s" "memdisk t = memdisk s" by (simp_all add: t_def)
  have buf: "buf_ok t q" using q assms(2) length_view [OF assms(1)] by (simp add: buf_ok_def t)
  show ok: "cache_ok t"
  proof (rule cache_ok_upd [OF assms(1) _ t(1,2)])
    fix j assume j: "j < NBUF" "j \<noteq> i" "bdev (bufs s j) = 1"
    show "bsector (bufs s j) \<noteq> bsector q"
      using q j cache_okD(4) [OF assms(1), of i b j] by (cases "at s i b") (auto simp: at_def)
  qed (use q buf t cache_okD(3) [OF assms(1)] in simp_all)
  show here: "at t i b" "busy (bufs t i)" "data (bufs t i) = view s b" using q by (simp_all add: at_def t)
  show "view t = view s"
  proof
    fix c
    show "view t c = view s c"
    proof (cases "c = b")
      case True
      with view_at [OF ok here(1)] q show ?thesis by (simp add: t)
    next
      case False
      then have "\<not> at t i c" using here(1) by (simp add: at_def)
      moreover have "memdisk s c = data (bufs s i)" if "at s i c"
        using that False q cache_okD(2) [OF assms(1), of i] by (auto simp: at_def buf_ok_def)
      ultimately show ?thesis
        using view_upd [OF assms(1) ok _ t(1)] q t(3) by simp
    qed
  qed
  have other: "at s i c \<Longrightarrow> \<not> busy (bufs s i) \<and> (c = b \<or> \<not> dirty (bufs s i))" for c
    using q by (auto simp: at_def)
  show "held t = insert b (held s)"
    unfolding held_upd(1) [OF t(1) conjunct1 [OF q]] using q other by (auto simp: held_def)
  show "pinned t = pinned s"
    unfolding held_upd(2) [OF t(1) conjunct1 [OF q]] using q other
    by (auto simp: pinned_def) (metis at_def)+
qed

subsection \<open>Writing and releasing\<close>

definition woken :: "(nat \<Rightarrow> proc) \<Rightarrow> (nat \<Rightarrow> proc) \<Rightarrow> bool" where
  "woken pt pt' \<longleftrightarrow> (\<forall>p. pt' p = pt p \<or> state (pt p) = SLEEPING \<and> pt' p = (pt p)\<lparr>state := RUNNABLE\<rparr>)"

lemma woken_refl [simp]: "woken pt pt"
  by (simp add: woken_def)

lemma woken_trans:
  assumes "woken p q" "woken q r"
  shows "woken p r"
  unfolding woken_def
proof
  fix x
  have "q x = p x \<or> state (p x) = SLEEPING \<and> q x = (p x)\<lparr>state := RUNNABLE\<rparr>"
    "r x = q x \<or> state (q x) = SLEEPING \<and> r x = (q x)\<lparr>state := RUNNABLE\<rparr>"
    using assms by (simp_all add: woken_def)
  then show "r x = p x \<or> state (p x) = SLEEPING \<and> r x = (p x)\<lparr>state := RUNNABLE\<rparr>"
    by (elim disjE conjE) simp_all
qed

lemma woken_wakeup: "woken (ptable s) (ptable (wakeup ch s))"
  by (simp add: woken_def wakeup_eq)

text \<open>A client writes into the buffer it has locked.\<close>

lemma set_data_rule:
  assumes "cache_ok s" "at s i b" "busy (bufs s i)" "length d = 512"
  defines "t \<equiv> set_data i d s"
  shows "cache_ok t" "view t = (view s)(b := d)" "held t = held s" "pinned t = pinned s" "at t j c \<longleftrightarrow> at s j c"
    "busy (bufs t j) = busy (bufs s j)" "dirty (bufs t j) = dirty (bufs s j)" "data (bufs t i) = d"
proof -
  have i: "i < NBUF" using assms(2) by (simp add: at_def)
  have t: "bufs t = (bufs s)(i := (bufs s i)\<lparr>data := d\<rparr>)" "disksize t = disksize s" "memdisk t = memdisk s"
    by (simp_all add: t_def set_data_def)
  have buf: "buf_ok t ((bufs s i)\<lparr>data := d\<rparr>)"
    using assms(2-4) cache_okD(2) [OF assms(1) i] by (simp add: buf_ok_def t at_def)
  show at: "at t j c \<longleftrightarrow> at s j c" for j c by (auto simp: at_def t)
  show "busy (bufs t j) = busy (bufs s j)" "dirty (bufs t j) = dirty (bufs s j)" "data (bufs t i) = d"
    by (simp_all add: t)
  show ok: "cache_ok t"
  proof (rule cache_ok_upd [OF assms(1) i t(1,2)])
    show "bsector (bufs s j) \<noteq> bsector ((bufs s i)\<lparr>data := d\<rparr>)" if "j < NBUF" "j \<noteq> i" "bdev (bufs s j) = 1" for j
      using other_sector [OF assms(1,2) that] assms(2) by (simp add: at_def)
  qed (use buf cache_okD(3) [OF assms(1)] in \<open>simp_all add: t\<close>)
  show "view t = (view s)(b := d)"
  proof
    fix c
    show "view t c = ((view s)(b := d)) c"
    proof (cases "c = b")
      case True
      with view_at [OF ok, of i b] at assms(2) show ?thesis by (simp add: t)
    next
      case False
      then show ?thesis
        using view_upd [OF assms(1) ok i t(1), of c] assms(2) by (simp add: t at_def)
    qed
  qed
  show "held t = held s" "pinned t = pinned s" by (auto simp: held_def pinned_def at t)
qed

lemma bwrite_rule:
  assumes "cache_ok s" "at s i b" "busy (bufs s i)"
  defines "t \<equiv> s\<lparr>bufs := (bufs s)(i := (bufs s i)\<lparr>dirty := False, valid := True\<rparr>),
     memdisk := (memdisk s)(b := data (bufs s i)), dwrites := dwrites s @ [(b, data (bufs s i))]\<rparr>"
  shows "bwrite i s = Inr t" "cache_ok t" "view t = view s" "held t = held s" "pinned t = pinned s - {b}"
    "at t j c \<longleftrightarrow> at s j c" "busy (bufs t j) = busy (bufs s j)" "data (bufs t j) = data (bufs s j)"
proof -
  have i: "i < NBUF" "bsector (bufs s i) = b" "bdev (bufs s i) = 1" using assms(2) by (simp_all add: at_def)
  have t: "bufs t = (bufs s)(i := (bufs s i)\<lparr>dirty := False, valid := True\<rparr>)" "disksize t = disksize s"
    "memdisk t = (memdisk s)(b := data (bufs s i))" by (simp_all add: t_def)
  note bi = cache_okD(2) [OF assms(1) i(1), unfolded buf_ok_def]
  show "bwrite i s = Inr t"
    using i assms(3) bi by (simp add: bwrite_def iderw_Inr t_def upd_buf_def)
  have buf: "buf_ok t ((bufs s i)\<lparr>dirty := False, valid := True\<rparr>)"
    using assms(3) bi i by (simp add: buf_ok_def t)
  show at: "at t j c \<longleftrightarrow> at s j c" for j c by (auto simp: at_def t)
  show "busy (bufs t j) = busy (bufs s j)" "data (bufs t j) = data (bufs s j)" by (simp_all add: t)
  show ok: "cache_ok t"
  proof (rule cache_ok_upd [OF assms(1) i(1) t(1,2)])
    show "bsector (bufs s j) \<noteq> bsector ((bufs s i)\<lparr>dirty := False, valid := True\<rparr>)"
      if "j < NBUF" "j \<noteq> i" "bdev (bufs s j) = 1" for j
      using other_sector [OF assms(1,2) that] i by simp
  qed (use buf bi i cache_okD(3) [OF assms(1)] in \<open>auto simp: t\<close>)
  show "view t = view s"
  proof
    fix c
    show "view t c = view s c"
    proof (cases "c = b")
      case True
      with view_at [OF ok, of i b] view_at [OF assms(1,2)] at assms(2) show ?thesis by (simp add: t)
    next
      case False
      then show ?thesis
        using view_upd [OF assms(1) ok i(1) t(1), of c] assms(2) by (simp add: t at_def)
    qed
  qed
  show "held t = held s" by (auto simp: held_def at t)
  show "pinned t = pinned s - {b}"
  proof -
    have "j = i \<longleftrightarrow> c = b" if "at s j c" for j c
      using that assms(2) cache_okD(4) [OF assms(1,2), of j] by (auto simp: at_def)
    then show ?thesis by (auto simp: pinned_def at t)
  qed
qed

lemma view_cong:
  assumes "\<And>i. bdev (bufs t i) = bdev (bufs s i) \<and> bsector (bufs t i) = bsector (bufs s i) \<and> data (bufs t i) = data (bufs s i)"
    "memdisk t = memdisk s"
  shows "view t = view s"
  using assms by (simp add: view_def fun_eq_iff split: option.split)

text \<open>Only the links differ.\<close>

lemma cache_ok_strip:
  assumes "cache_ok s" "ring (bufs t) xs" "\<And>i. strip (bufs t i) = strip (bufs s i)"
    "memdisk t = memdisk s" "disksize t = disksize s"
  shows "cache_ok t" "view t = view s" "held t = held s" "pinned t = pinned s" "at t i b = at s i b"
proof -
  note f = strip_fields [OF assms(3)]
  have "buf_ok t (bufs t i) = buf_ok s (bufs s i)" for i by (simp add: buf_ok_def f assms(4,5))
  then show "cache_ok t" using assms(1,2,4) unfolding cache_ok_def f by auto
  show at: "at t i b = at s i b" for i b by (simp add: at_def f)
  show "held t = held s" "pinned t = pinned s" by (simp_all add: held_def pinned_def at f)
  show "view t = view s" by (rule view_cong) (simp_all add: f assms(4))
qed

lemma only_bufs_wakeup:
  "only_bufs s u \<Longrightarrow> wakeup ch u = s\<lparr>bufs := bufs (wakeup ch u), ptable := ptable (wakeup ch u)\<rparr>"
  by (auto simp: only_bufs_def wakeup_eq)

lemma brelse_rule:
  assumes "cache_ok s" "at s i b" "busy (bufs s i)" "dirty (bufs s i) \<or> view s b = memdisk s b"
  obtains t where "brelse i s = Inr t" "t = s\<lparr>bufs := bufs t, ptable := ptable t\<rparr>" "woken (ptable s) (ptable t)"
    "cache_ok t" "view t = view s" "held t = held s - {b}" "pinned t = pinned s"
    "\<And>j c. at t j c \<longleftrightarrow> at s j c" "\<And>j. busy (bufs t j) \<longleftrightarrow> j \<noteq> i \<and> busy (bufs s j)"
    "\<And>j. dirty (bufs t j) = dirty (bufs s j)" "\<And>j. data (bufs t j) = data (bufs s j)"
proof -
  have i: "i < NBUF" using assms(2) by (simp add: at_def)
  obtain xs where xs: "ring (bufs s) xs" using cache_okD(1) [OF assms(1)] ..
  let ?r = "push_buf i (unlink_buf i s)"
  have r: "?r = s\<lparr>bufs := bufs ?r\<rparr>" using only_bufsD [OF only_bufs_links] .
  have rm: "memdisk ?r = memdisk s" "disksize ?r = disksize s" "ptable ?r = ptable s" by (subst r, simp)+
  note rs = cache_ok_strip [OF assms(1) ring_brelse(1) [OF xs i] ring_brelse(2) [OF xs i] rm(1,2)]
  note rf = strip_fields [OF ring_brelse(2) [OF xs i]]
  let ?q = "(bufs ?r i)\<lparr>busy := False\<rparr>"
  let ?u = "upd_buf i (\<lambda>q. q\<lparr>busy := False\<rparr>) ?r"
  have u: "bufs ?u = (bufs ?r)(i := ?q)" "disksize ?u = disksize ?r" "memdisk ?u = memdisk ?r" by simp_all
  have atu: "at ?u j c \<longleftrightarrow> at s j c" for j c by (auto simp: at_def rf)
  have vs: "view s b = data (bufs s i)" by (rule view_at [OF assms(1,2)])
  have oku: "cache_ok ?u"
  proof (rule cache_ok_upd [OF rs(1) i u(1,2)])
    show "buf_ok ?u ?q"
      using assms vs cache_okD(2) [OF assms(1) i] by (auto simp: buf_ok_def at_def rf rm)
    show "bsector (bufs ?r j) \<noteq> bsector ?q" if "j < NBUF" "j \<noteq> i" "bdev (bufs ?r j) = 1" for j
      using other_sector [OF assms(1,2), of j] that assms(2) by (simp add: rf at_def)
  qed (use cache_okD(3) [OF assms(1)] in \<open>simp_all add: rm\<close>)
  have viewu: "view ?u = view s"
    by (rule view_cong) (simp_all add: rf rm)
  let ?t = "wakeup (Some (ChBuf i)) ?u"
  have t: "bufs ?t = bufs ?u" "memdisk ?t = memdisk ?u" "disksize ?t = disksize ?u" by simp_all
  have same: "cache_ok ?t = cache_ok ?u" "view ?t = view ?u" "\<And>j c. at ?t j c = at ?u j c"
    "held ?t = held ?u" "pinned ?t = pinned ?u"
    by (simp_all add: cache_ok_def buf_ok_def at_def held_def pinned_def view_cong)
  show thesis
  proof (rule that)
    show "brelse i s = Inr ?t" using assms(3) by (simp add: brelse_Inr)
    show "?t = s\<lparr>bufs := bufs ?t, ptable := ptable ?t\<rparr>"
      by (rule only_bufs_wakeup [OF only_bufs_upd [OF only_bufs_links]])
    show "woken (ptable s) (ptable ?t)" using woken_wakeup [of ?u] rm(3) by simp
    show "cache_ok ?t" "view ?t = view s" using oku viewu by (simp_all only: same)
    show "\<And>j c. at ?t j c \<longleftrightarrow> at s j c" by (simp only: same atu)
    show "held ?t = held s - {b}"
    proof -
      have "j = i \<longleftrightarrow> c = b" if "at s j c" for j c
        using that assms(2) cache_okD(4) [OF assms(1,2), of j] by (auto simp: at_def)
      then show ?thesis unfolding same held_def atu by (auto simp: rf)
    qed
    show "pinned ?t = pinned s" unfolding same pinned_def atu by (auto simp: rf)
  qed (auto simp: rf)
qed

text \<open>\<open>b->flags |= B_DIRTY\<close>, which pins a locked buffer.\<close>

lemma set_dirty_rule:
  assumes "cache_ok s" "at s i b" "busy (bufs s i)"
  defines "t \<equiv> upd_buf i (\<lambda>q. q\<lparr>dirty := True\<rparr>) s"
  shows "cache_ok t" "view t = view s" "held t = held s" "pinned t = insert b (pinned s)" "at t j c \<longleftrightarrow> at s j c"
    "busy (bufs t j) = busy (bufs s j)" "data (bufs t j) = data (bufs s j)" "dirty (bufs t i)"
proof -
  have i: "i < NBUF" using assms(2) by (simp add: at_def)
  have t: "bufs t = (bufs s)(i := (bufs s i)\<lparr>dirty := True\<rparr>)" "disksize t = disksize s" "memdisk t = memdisk s"
    by (simp_all add: t_def)
  have buf: "buf_ok t ((bufs s i)\<lparr>dirty := True\<rparr>)"
    using assms(2,3) cache_okD(2) [OF assms(1) i] by (simp add: buf_ok_def t at_def)
  show at: "at t j c \<longleftrightarrow> at s j c" for j c by (auto simp: at_def t)
  show "busy (bufs t j) = busy (bufs s j)" "data (bufs t j) = data (bufs s j)" "dirty (bufs t i)" by (simp_all add: t)
  show ok: "cache_ok t"
  proof (rule cache_ok_upd [OF assms(1) i t(1,2)])
    show "bsector (bufs s j) \<noteq> bsector ((bufs s i)\<lparr>dirty := True\<rparr>)" if "j < NBUF" "j \<noteq> i" "bdev (bufs s j) = 1" for j
      using other_sector [OF assms(1,2) that] assms(2) by (simp add: at_def)
  qed (use buf cache_okD(3) [OF assms(1)] in \<open>simp_all add: t\<close>)
  show "view t = view s"
    by (rule view_cong) (simp_all add: t)
  show "held t = held s" by (auto simp: held_def at t)
  show "pinned t = insert b (pinned s)"
    using assms(2) by (auto simp: pinned_def at t at_def split: if_splits)
qed

subsection \<open>The contract\<close>

text \<open>
  \<open>keeps s t\<close>: \<open>t\<close> differs from \<open>s\<close> only in what the cache and the disk own, and in the processes
  that a release woke.
\<close>

definition keeps :: "'z bio_scheme \<Rightarrow> 'z bio_scheme \<Rightarrow> bool" where
  "keeps s t \<longleftrightarrow> (\<exists>pt bf md dw. woken (ptable s) pt \<and> t = s\<lparr>ptable := pt, bufs := bf, memdisk := md, dwrites := dw\<rparr>)"

text \<open>Buffer \<open>i\<close> is the caller's: it is locked, and it is the copy of sector \<open>b\<close>.\<close>

definition owns :: "'z bio_scheme \<Rightarrow> nat \<Rightarrow> uint \<Rightarrow> bool" where
  "owns s i b \<longleftrightarrow> at s i b \<and> busy (bufs s i)"

lemma keepsI [intro]: "woken (ptable s) pt \<Longrightarrow> keeps s (s\<lparr>ptable := pt, bufs := bf, memdisk := md, dwrites := dw\<rparr>)"
  unfolding keeps_def by blast

lemma keeps_refl [simp]: "keeps s s"
  using keepsI [where s = s and pt = "ptable s" and bf = "bufs s" and md = "memdisk s" and dw = "dwrites s"] by simp

lemma keeps_trans:
  assumes "keeps s t" "keeps t u"
  shows "keeps s u"
proof -
  obtain pt bf md dw where t: "woken (ptable s) pt" "t = s\<lparr>ptable := pt, bufs := bf, memdisk := md, dwrites := dw\<rparr>"
    using assms(1) unfolding keeps_def by blast
  obtain pt' bf' md' dw' where u: "woken (ptable t) pt'" "u = t\<lparr>ptable := pt', bufs := bf', memdisk := md', dwrites := dw'\<rparr>"
    using assms(2) unfolding keeps_def by blast
  have "u = s\<lparr>ptable := pt', bufs := bf', memdisk := md', dwrites := dw'\<rparr>" unfolding u(2) t(2) by simp
  moreover have "woken (ptable s) pt'" using woken_trans [OF t(1)] u(1) unfolding t(2) by simp
  ultimately show ?thesis by blast
qed

locale block_cache =
  fixes rd :: "uint \<Rightarrow> 's \<Rightarrow> (nat \<times> 's) outcome"
    and put :: "nat \<Rightarrow> uchar list \<Rightarrow> 's \<Rightarrow> 's"
    and wr rel :: "nat \<Rightarrow> 's \<Rightarrow> 's outcome"
    and look :: "'s \<Rightarrow> nat \<Rightarrow> uchar list"
    and inv :: "'s \<Rightarrow> bool"
    and contents disk :: "'s \<Rightarrow> uint \<Rightarrow> uchar list"
    and writes :: "'s \<Rightarrow> (uint \<times> uchar list) list"
    and locked kept :: "'s \<Rightarrow> uint set"
    and mine :: "'s \<Rightarrow> nat \<Rightarrow> uint \<Rightarrow> bool"
    and avail :: "'s \<Rightarrow> uint \<Rightarrow> bool"
    and frame :: "'s \<Rightarrow> 's \<Rightarrow> bool"
    and cap :: nat
    and size :: "'s \<Rightarrow> uint"
  assumes avail_cap: "inv s \<Longrightarrow> b < size s \<Longrightarrow> card (locked s \<union> kept s) < cap \<Longrightarrow> avail s b"
    and avail_kept: "inv s \<Longrightarrow> b \<in> kept s \<Longrightarrow> avail s b"
    and frame_size: "frame s t \<Longrightarrow> size t = size s"
    and frame_trans: "frame s t \<Longrightarrow> frame t u \<Longrightarrow> frame s u"
    and unkept: "inv s \<Longrightarrow> b \<notin> locked s \<Longrightarrow> b \<notin> kept s \<Longrightarrow> contents s b = disk s b"
    and look: "inv s \<Longrightarrow> mine s i b \<Longrightarrow> look s i = contents s b"
    and rd: "inv s \<Longrightarrow> b \<notin> locked s \<Longrightarrow> avail s b \<Longrightarrow> \<exists>i t. rd b s = Inr (i, t) \<and> inv t \<and> frame s t \<and>
       contents t = contents s \<and> disk t = disk s \<and> writes t = writes s \<and>
       locked t = insert b (locked s) \<and> kept t = kept s \<and> mine t i b \<and> (\<forall>j c. mine s j c \<longrightarrow> mine t j c)"
    and put: "inv s \<Longrightarrow> mine s i b \<Longrightarrow> length d = 512 \<Longrightarrow> inv (put i d s) \<and> frame s (put i d s) \<and>
       contents (put i d s) = (contents s)(b := d) \<and> disk (put i d s) = disk s \<and> writes (put i d s) = writes s \<and>
       locked (put i d s) = locked s \<and> kept (put i d s) = kept s \<and> mine (put i d s) = mine s"
    and wr: "inv s \<Longrightarrow> mine s i b \<Longrightarrow> \<exists>t. wr i s = Inr t \<and> inv t \<and> frame s t \<and> contents t = contents s \<and>
       disk t = (disk s)(b := contents s b) \<and> writes t = writes s @ [(b, contents s b)] \<and>
       locked t = locked s \<and> kept t = kept s - {b} \<and> mine t = mine s"
    and rel: "inv s \<Longrightarrow> mine s i b \<Longrightarrow> b \<in> kept s \<or> contents s b = disk s b \<Longrightarrow> \<exists>t. rel i s = Inr t \<and> inv t \<and> frame s t \<and>
       contents t = contents s \<and> disk t = disk s \<and> writes t = writes s \<and>
       locked t = locked s - {b} \<and> kept t = kept s \<and> (\<forall>j c. mine t j c \<longleftrightarrow> mine s j c \<and> c \<noteq> b)"
begin

text \<open>Look at a sector and give it back.\<close>

lemma peek:
  assumes "inv s" "b \<notin> locked s" "avail s b"
  obtains i t u where "rd b s = Inr (i, t)" "look t i = contents s b" "rel i t = Inr u" "inv u" "frame s u"
    "contents u = contents s" "disk u = disk s" "writes u = writes s" "locked u = locked s" "kept u = kept s"
    "\<And>j c. mine s j c \<Longrightarrow> c \<noteq> b \<Longrightarrow> mine u j c"
proof -
  obtain i t where t: "rd b s = Inr (i, t)" "inv t" "frame s t" "contents t = contents s" "disk t = disk s"
    "writes t = writes s" "locked t = insert b (locked s)" "kept t = kept s" "mine t i b" "\<And>j c. mine s j c \<Longrightarrow> mine t j c"
    using rd [OF assms] by blast
  have "b \<in> kept t \<or> contents t b = disk t b" using unkept [OF assms(1,2)] t by auto
  then obtain u where u: "rel i t = Inr u" "inv u" "frame t u" "contents u = contents t" "disk u = disk t"
    "writes u = writes t" "locked u = locked t - {b}" "kept u = kept t" "\<And>j c. mine u j c \<longleftrightarrow> mine t j c \<and> c \<noteq> b"
    using rel [OF t(2,9)] by blast
  show thesis
    by (rule that [OF t(1) _ u(1,2) frame_trans [OF t(3) u(3)]])
       (use t u assms(2) look [OF t(2,9)] in auto)
qed

text \<open>Write a whole sector through to the disk.\<close>

lemma poke_through:
  assumes "inv s" "b \<notin> locked s" "avail s b"
  obtains i t where "rd b s = Inr (i, t)" "look t i = contents s b" "mine t i b" "inv t" "frame s t"
    "locked t = insert b (locked s)" "\<And>j c. mine s j c \<Longrightarrow> mine t j c" "contents t = contents s"
    "\<And>d. length d = 512 \<Longrightarrow> \<exists>u v. wr i (put i d t) = Inr u \<and> rel i u = Inr v \<and> inv v \<and> frame s v \<and>
      contents v = (contents s)(b := d) \<and> disk v = (disk s)(b := d) \<and> writes v = writes s @ [(b, d)] \<and>
      locked v = locked s \<and> kept v = kept s - {b} \<and> (\<forall>j c. mine s j c \<longrightarrow> c \<noteq> b \<longrightarrow> mine v j c)"
proof -
  obtain i t where t: "rd b s = Inr (i, t)" "inv t" "frame s t" "contents t = contents s" "disk t = disk s"
    "writes t = writes s" "locked t = insert b (locked s)" "kept t = kept s" "mine t i b" "\<And>j c. mine s j c \<Longrightarrow> mine t j c"
    using rd [OF assms] by blast
  show thesis
  proof (rule that [OF t(1) _ t(9,2,3,7) t(10,4)])
    show "look t i = contents s b" using look [OF t(2,9)] t(4) by simp
    fix d :: "uchar list" assume d: "length d = 512"
    note p = put [OF t(2,9) d]
    then have pm: "mine (put i d t) i b" using t(9) by simp
    obtain u where u: "wr i (put i d t) = Inr u" "inv u" "frame (put i d t) u" "contents u = contents (put i d t)"
      "disk u = (disk (put i d t))(b := contents (put i d t) b)"
      "writes u = writes (put i d t) @ [(b, contents (put i d t) b)]"
      "locked u = locked (put i d t)" "kept u = kept (put i d t) - {b}" "mine u = mine (put i d t)"
      using wr [OF conjunct1 [OF p] pm] by blast
    have um: "mine u i b" "contents u b = disk u b" using u p pm by simp_all
    then obtain v where v: "rel i u = Inr v" "inv v" "frame u v" "contents v = contents u" "disk v = disk u"
      "writes v = writes u" "locked v = locked u - {b}" "kept v = kept u" "\<And>j c. mine v j c \<longleftrightarrow> mine u j c \<and> c \<noteq> b"
      using rel [OF u(2) um(1)] by blast
    have "frame s v" using t(3) p u(3) v(3) by (blast intro: frame_trans)
    then show "\<exists>u v. wr i (put i d t) = Inr u \<and> rel i u = Inr v \<and> inv v \<and> frame s v \<and>
      contents v = (contents s)(b := d) \<and> disk v = (disk s)(b := d) \<and> writes v = writes s @ [(b, d)] \<and>
      locked v = locked s \<and> kept v = kept s - {b} \<and> (\<forall>j c. mine s j c \<longrightarrow> c \<noteq> b \<longrightarrow> mine v j c)"
      using p t u v assms(2) by auto
  qed
qed

text \<open>Copy one sector to another, on the disk.\<close>

lemma copy_through:
  assumes "inv s" "b \<notin> locked s" "c \<notin> locked s" "b \<noteq> c" "avail s b"
    "c \<in> kept s \<or> c < size s \<and> card (insert b (locked s \<union> kept s)) < cap" "b \<notin> kept s"
    "length (contents s b) = 512"
  obtains i j t u v w x where "rd b s = Inr (i, t)" "rd c t = Inr (j, u)" "wr j (put j (look u i) u) = Inr v"
    "rel i v = Inr w" "rel j w = Inr x" "frame s t" "inv x" "frame s x" "contents x = (contents s)(c := contents s b)"
    "disk x = (disk s)(c := contents s b)" "writes x = writes s @ [(c, contents s b)]"
    "locked x = locked s" "kept x = kept s - {c}"
proof -
  obtain i t where t: "rd b s = Inr (i, t)" "inv t" "frame s t" "contents t = contents s" "disk t = disk s"
    "writes t = writes s" "locked t = insert b (locked s)" "kept t = kept s" "mine t i b"
    using rd [OF assms(1,2,5)] by blast
  have "avail t c"
    using assms(6) avail_kept [OF t(2)] avail_cap [OF t(2)] t(7,8) frame_size [OF t(3)] by auto
  moreover have "c \<notin> locked t" using t(7) assms(3,4) by auto
  ultimately obtain j u where u: "rd c t = Inr (j, u)" "inv u" "frame t u" "contents u = contents t" "disk u = disk t"
    "writes u = writes t" "locked u = insert c (locked t)" "kept u = kept t" "mine u j c" "\<And>j c. mine t j c \<Longrightarrow> mine u j c"
    using rd [OF t(2)] by blast
  have lk: "look u i = contents s b" using look [OF u(2) u(10) [OF t(9)]] u(4) t(4) by simp
  let ?p = "put j (look u i) u"
  have p: "inv ?p" "frame u ?p" "contents ?p = (contents u)(c := contents s b)" "disk ?p = disk u" "writes ?p = writes u"
    "locked ?p = locked u" "kept ?p = kept u" "mine ?p = mine u"
    using put [OF u(2,9), of "look u i"] assms(8) lk by auto
  obtain v where v: "wr j ?p = Inr v" "inv v" "frame ?p v" "contents v = contents ?p"
    "disk v = (disk ?p)(c := contents ?p c)" "writes v = writes ?p @ [(c, contents ?p c)]"
    "locked v = locked ?p" "kept v = kept ?p - {c}" "mine v = mine ?p"
    using wr [OF p(1), of j c] u(9) p(8) by auto
  have vb: "mine v i b" "contents v b = disk v b"
    using v p u(4,5,10) t(4,5,9) assms(4) unkept [OF assms(1,2,7)] by auto
  then obtain w where w: "rel i v = Inr w" "inv w" "frame v w" "contents w = contents v" "disk w = disk v"
    "writes w = writes v" "locked w = locked v - {b}" "kept w = kept v" "\<And>j c. mine w j c \<longleftrightarrow> mine v j c \<and> c \<noteq> b"
    using rel [OF v(2) vb(1)] by blast
  have wc: "mine w j c" "contents w c = disk w c" using w v p u(9) assms(4) by auto
  then obtain x where x: "rel j w = Inr x" "inv x" "frame w x" "contents x = contents w" "disk x = disk w"
    "writes x = writes w" "locked x = locked w - {c}" "kept x = kept w"
    using rel [OF w(2) wc(1)] by blast
  have "frame s x" using t(3) u(3) p(2) v(3) w(3) x(3) by (blast intro: frame_trans)
  then show thesis
    by (rule that [OF t(1) u(1) v(1) w(1) x(1) t(3) x(2)]) (use t u p v w x assms(2-4) in auto)
qed

end

lemma keeps_fields:
  assumes "keeps s t"
  shows "disksize t = disksize s" "mem t = mem s" "curproc t = curproc s" "woken (ptable s) (ptable t)"
  using assms by (auto simp: keeps_def)

lemma keeps_bufs: "only_bufs s t \<Longrightarrow> keeps s t"
  using keepsI [where s = s and pt = "ptable s" and md = "memdisk s" and dw = "dwrites s"] by (auto simp: only_bufs_def)

lemma bread_law:
  assumes "cache_ok s" "b \<notin> held s" "b < disksize s \<and> room s b"
  shows "\<exists>i t. bread 1 b s = Inr (i, t) \<and> cache_ok t \<and> keeps s t \<and> view t = view s \<and> memdisk t = memdisk s \<and>
    dwrites t = dwrites s \<and> held t = insert b (held s) \<and> pinned t = pinned s \<and> owns t i b \<and> (\<forall>j c. owns s j c \<longrightarrow> owns t j c)"
proof -
  obtain i q where q: "bread 1 b s = Inr (i, s\<lparr>bufs := (bufs s)(i := q)\<rparr>)" "took s b i q"
    using bread_took assms by blast
  note r = took_rule [OF assms(1) conjunct1 [OF assms(3)] q(2)]
  let ?t = "s\<lparr>bufs := (bufs s)(i := q)\<rparr>"
  have "keeps s ?t" by (rule keeps_bufs) (auto simp: only_bufs_def)
  moreover have "owns ?t i b" using r by (simp add: owns_def)
  moreover have "owns ?t j c" if "owns s j c" for j c
    using that q(2) by (auto simp: owns_def at_def took_def)
  ultimately show ?thesis using q(1) r by (intro exI [of _ i] exI [of _ ?t]) simp
qed

lemma set_data_law:
  assumes "cache_ok s" "owns s i b" "length d = 512"
  shows "cache_ok (set_data i d s) \<and> keeps s (set_data i d s) \<and> view (set_data i d s) = (view s)(b := d) \<and>
    memdisk (set_data i d s) = memdisk s \<and> dwrites (set_data i d s) = dwrites s \<and>
    held (set_data i d s) = held s \<and> pinned (set_data i d s) = pinned s \<and> owns (set_data i d s) = owns s"
proof -
  have o: "at s i b" "busy (bufs s i)" using assms(2) by (simp_all add: owns_def)
  note r = set_data_rule [OF assms(1) o assms(3)]
  have "keeps s (set_data i d s)" unfolding set_data_def by (intro keeps_bufs only_bufs_intros)
  moreover have "owns (set_data i d s) = owns s" using r by (simp add: owns_def fun_eq_iff)
  moreover have "memdisk (set_data i d s) = memdisk s" "dwrites (set_data i d s) = dwrites s"
    by (simp_all add: set_data_def)
  ultimately show ?thesis using r by simp
qed

lemma bwrite_law:
  assumes "cache_ok s" "owns s i b"
  shows "\<exists>t. bwrite i s = Inr t \<and> cache_ok t \<and> keeps s t \<and> view t = view s \<and> memdisk t = (memdisk s)(b := view s b) \<and>
    dwrites t = dwrites s @ [(b, view s b)] \<and> held t = held s \<and> pinned t = pinned s - {b} \<and> owns t = owns s"
proof -
  have o: "at s i b" "busy (bufs s i)" using assms(2) by (simp_all add: owns_def)
  note r = bwrite_rule [OF assms(1) o] and v = view_at [OF assms(1) o(1)]
  let ?t = "s\<lparr>bufs := (bufs s)(i := (bufs s i)\<lparr>dirty := False, valid := True\<rparr>),
     memdisk := (memdisk s)(b := data (bufs s i)), dwrites := dwrites s @ [(b, data (bufs s i))]\<rparr>"
  have "keeps s ?t"
    using keepsI [where s = s and pt = "ptable s"] by simp
  moreover have "owns ?t = owns s" by (simp add: owns_def fun_eq_iff r)
  ultimately show ?thesis using r v by (intro exI [of _ ?t]) simp
qed

lemma brelse_law:
  assumes "cache_ok s" "owns s i b" "b \<in> pinned s \<or> view s b = memdisk s b"
  shows "\<exists>t. brelse i s = Inr t \<and> cache_ok t \<and> keeps s t \<and> view t = view s \<and> memdisk t = memdisk s \<and>
    dwrites t = dwrites s \<and> held t = held s - {b} \<and> pinned t = pinned s \<and> (\<forall>j c. owns t j c \<longleftrightarrow> owns s j c \<and> c \<noteq> b)"
proof -
  have o: "at s i b" "busy (bufs s i)" using assms(2) by (simp_all add: owns_def)
  have "dirty (bufs s i) \<or> view s b = memdisk s b"
    using assms(3) cache_okD(4) [OF assms(1) o(1)] by (auto simp: pinned_def)
  then obtain t where t: "brelse i s = Inr t" "t = s\<lparr>bufs := bufs t, ptable := ptable t\<rparr>" "woken (ptable s) (ptable t)"
    "cache_ok t" "view t = view s" "held t = held s - {b}" "pinned t = pinned s"
    "\<And>j c. at t j c \<longleftrightarrow> at s j c" "\<And>j. busy (bufs t j) \<longleftrightarrow> j \<noteq> i \<and> busy (bufs s j)"
    using brelse_rule [OF assms(1) o] by metis
  have "memdisk t = memdisk s" "dwrites t = dwrites s" by (subst t(2), simp)+
  moreover have "t = s\<lparr>ptable := ptable t, bufs := bufs t, memdisk := memdisk s, dwrites := dwrites s\<rparr>"
    by (subst t(2)) simp
  then have "keeps s t" using t(3) unfolding keeps_def by blast
  moreover have "j = i \<longleftrightarrow> c = b" if "at s j c" for j c
    using that o(1) cache_okD(4) [OF assms(1) o(1), of j] by (auto simp: at_def)
  ultimately show ?thesis using t by (intro exI [of _ t]) (auto simp: owns_def)
qed

lemma avail_pinned:
  assumes "cache_ok s" "b \<in> pinned s"
  shows "b < disksize s \<and> room s b"
proof -
  obtain i where "at s i b" using assms(2) by (auto simp: pinned_def)
  then show ?thesis using cache_okD(2) [OF assms(1), of i] by (auto simp: room_def at_def buf_ok_def)
qed

interpretation cache: block_cache "bread 1" set_data bwrite brelse "\<lambda>s i. data (bufs s i)" cache_ok view memdisk dwrites
  held pinned owns "\<lambda>s b. b < disksize s \<and> room s b" keeps NBUF disksize
proof (unfold_locales, goal_cases)
  case (1 s b) then show ?case by (simp add: room_card)
next
  case (6 s i b) then show ?case by (metis owns_def view_at)
qed (rule avail_pinned keeps_fields keeps_trans view_unpinned bread_law set_data_law bwrite_law brelse_law; assumption)+

text \<open>Whatever leaves the buffers and the disk alone leaves the cache alone.\<close>

lemma cache_cong:
  assumes "bufs t = bufs s" "disksize t = disksize s" "memdisk t = memdisk s"
  shows "cache_ok t = cache_ok s" "view t = view s" "held t = held s" "pinned t = pinned s" "owns t = owns s"
    "room t = room s" "at t = at s"
proof -
  show a: "at t = at s" using assms by (simp add: at_def fun_eq_iff)
  show "view t = view s" by (rule view_cong) (simp_all add: assms)
  show "cache_ok t = cache_ok s" by (simp add: cache_ok_def buf_ok_def assms)
qed (use assms in \<open>simp_all add: held_def pinned_def owns_def room_def at_def fun_eq_iff\<close>)

lemma finite_pinned [simp]: "finite (pinned s)" "finite (held s)"
proof -
  have "held s \<union> pinned s \<subseteq> (\<lambda>i. bsector (bufs s i)) ` {..<NBUF}" by (auto simp: held_def pinned_def at_def)
  then show "finite (pinned s)" "finite (held s)" by (auto intro: finite_subset)
qed

subsection \<open>A block store\<close>

lemma cache_ok_binit:
  assumes "\<And>i. i < NBUF \<Longrightarrow> \<not> busy (bufs s i) \<and> \<not> dirty (bufs s i) \<and> length (data (bufs s i)) = 512"
    "\<And>b. length (memdisk s b) = 512"
  shows "cache_ok (binit s)" "view (binit s) = memdisk s" "held (binit s) = {}" "pinned (binit s) = {}"
    "memdisk (binit s) = memdisk s" "disksize (binit s) = disksize s"
proof -
  have o: "binit s = s\<lparr>bufs := bufs (binit s)\<rparr>" by (rule only_bufsD [OF only_bufs_binit])
  show m: "memdisk (binit s) = memdisk s" "disksize (binit s) = disksize s" by (subst o, simp)+
  have not: "\<not> at (binit s) i b" for i b by (auto simp: at_def binit_fields)
  show "cache_ok (binit s)"
    unfolding cache_ok_def using ring_binit(1) [of s] assms by (auto simp: buf_ok_def binit_fields m)
  show "view (binit s) = memdisk s" using view_out [OF not] m by (simp add: fun_eq_iff)
  show "held (binit s) = {}" "pinned (binit s) = {}" by (simp_all add: held_def pinned_def not)
qed

text \<open>
  Clients that lock one sector at a time: read a sector (\<open>None\<close>) or write one (\<open>Some d\<close>).
\<close>

definition cread :: "uint \<Rightarrow> 'z bio_scheme \<Rightarrow> (uchar list \<times> 'z bio_scheme) outcome" where
  "cread b s = ebind (bread 1 b s) (\<lambda>(i, s). ebind (brelse i s) (\<lambda>t. Inr (data (bufs s i), t)))"

definition cwrite :: "uint \<Rightarrow> uchar list \<Rightarrow> 'z bio_scheme \<Rightarrow> 'z bio_scheme outcome" where
  "cwrite b d s = ebind (bread 1 b s) (\<lambda>(i, s). ebind (bwrite i (set_data i d s)) (\<lambda>s. brelse i s))"

fun cache_run :: "(uint \<times> uchar list option) list \<Rightarrow> 'z bio_scheme \<Rightarrow> (uchar list list \<times> 'z bio_scheme) outcome" where
  "cache_run [] s = Inr ([], s)"
| "cache_run ((b, None) # ops) s =
     ebind (cread b s) (\<lambda>(d, s). ebind (cache_run ops s) (\<lambda>(ds, s). Inr (d # ds, s)))"
| "cache_run ((b, Some d) # ops) s = ebind (cwrite b d s) (cache_run ops)"

text \<open>The store without a cache.\<close>

fun store_run :: "(uint \<times> uchar list option) list \<Rightarrow> (uint \<Rightarrow> uchar list) \<Rightarrow> uchar list list \<times> (uint \<Rightarrow> uchar list)" where
  "store_run [] m = ([], m)"
| "store_run ((b, None) # ops) m = (let (ds, m') = store_run ops m in (m b # ds, m'))"
| "store_run ((b, Some d) # ops) m = store_run ops (m(b := d))"

lemma cread_ok:
  assumes "cache_ok s" "held s = {}" "pinned s = {}" "b < disksize s"
  shows "\<exists>t. cread b s = Inr (memdisk s b, t) \<and> cache_ok t \<and> held t = {} \<and> pinned t = {} \<and> memdisk t = memdisk s \<and>
     disksize t = disksize s"
proof -
  have "b \<notin> held s" "room s b" using assms room_card [OF assms(1)] by (simp_all add: NBUF_def)
  with assms(4) have "b \<notin> held s" "b < disksize s \<and> room s b" by simp_all
  from cache.peek [OF assms(1) this]
  obtain i t u where "bread 1 b s = Inr (i, t)" "data (bufs t i) = view s b" "brelse i t = Inr u" "cache_ok u"
    "keeps s u" "memdisk u = memdisk s" "held u = held s" "pinned u = pinned s" by metis
  moreover have "view s b = memdisk s b" using view_unpinned [OF assms(1)] assms by simp
  ultimately show ?thesis using assms keeps_fields by (auto simp: cread_def)
qed

lemma cwrite_ok:
  assumes "cache_ok s" "held s = {}" "pinned s = {}" "b < disksize s" "length d = 512"
  shows "\<exists>t. cwrite b d s = Inr t \<and> cache_ok t \<and> held t = {} \<and> pinned t = {} \<and> memdisk t = (memdisk s)(b := d) \<and>
     disksize t = disksize s"
proof -
  have "b \<notin> held s" "room s b" using assms room_card [OF assms(1)] by (simp_all add: NBUF_def)
  with assms(4) have "b \<notin> held s" "b < disksize s \<and> room s b" by simp_all
  from cache.poke_through [OF assms(1) this]
  obtain i t where t: "bread 1 b s = Inr (i, t)"
    "\<And>d. length d = 512 \<Longrightarrow> \<exists>u v. bwrite i (set_data i d t) = Inr u \<and> brelse i u = Inr v \<and> cache_ok v \<and> keeps s v \<and>
      view v = (view s)(b := d) \<and> memdisk v = (memdisk s)(b := d) \<and> dwrites v = dwrites s @ [(b, d)] \<and>
      held v = held s \<and> pinned v = pinned s - {b} \<and> (\<forall>j c. owns s j c \<longrightarrow> c \<noteq> b \<longrightarrow> owns v j c)"
    by metis
  from t(2) [OF assms(5)] show ?thesis using assms t(1) keeps_fields(1) by (auto simp: cwrite_def)
qed

text \<open>
  C12 (refinement).  The buffer cache is transparent.  From the initialised cache, any sequence of reads and writes
  of sectors succeeds (it neither waits nor runs out of buffers), every read returns the
  sector's last written contents, and the disk ends as it would without a cache.
\<close>

theorem cache_transparent:
  assumes "\<And>i. i < NBUF \<Longrightarrow> \<not> busy (bufs s i) \<and> \<not> dirty (bufs s i) \<and> length (data (bufs s i)) = 512"
    "\<And>b. length (memdisk s b) = 512" "\<And>b d. (b, d) \<in> set ops \<Longrightarrow> b < disksize s"
    "\<And>b d. (b, Some d) \<in> set ops \<Longrightarrow> length d = 512"
  shows "\<exists>t. cache_run ops (binit s) = Inr (fst (store_run ops (memdisk s)), t) \<and>
     memdisk t = snd (store_run ops (memdisk s))"
proof -
  have "\<exists>t. cache_run ops s = Inr (fst (store_run ops (memdisk s)), t) \<and> memdisk t = snd (store_run ops (memdisk s))"
    if "cache_ok s" "held s = {}" "pinned s = {}" "\<And>b d. (b, d) \<in> set ops \<Longrightarrow> b < disksize s"
      "\<And>b d. (b, Some d) \<in> set ops \<Longrightarrow> length d = 512" for s :: "'a bio_scheme"
    using that
  proof (induction ops s rule: cache_run.induct)
    case (2 b ops s)
    have b: "b < disksize s" using 2(5) [of b None] by simp
    obtain t where t: "cread b s = Inr (memdisk s b, t)" "cache_ok t" "held t = {}" "pinned t = {}" "memdisk t = memdisk s"
      "disksize t = disksize s" using cread_ok [OF 2(2-4) b] by auto
    have "\<exists>u. cache_run ops t = Inr (fst (store_run ops (memdisk t)), u) \<and> memdisk u = snd (store_run ops (memdisk t))"
      by (rule 2(1) [OF t(1) refl]) (use t 2(5,6) in \<open>simp_all, blast+\<close>)
    then show ?case using t by (auto simp: Let_def split: prod.split)
  next
    case (3 b d ops s)
    have b: "b < disksize s" "length d = 512" using 3(5) [of b "Some d"] 3(6) [of b d] by simp_all
    obtain t where t: "cwrite b d s = Inr t" "cache_ok t" "held t = {}" "pinned t = {}" "memdisk t = (memdisk s)(b := d)"
      "disksize t = disksize s" using cwrite_ok [OF 3(2-4) b] by auto
    have "\<exists>u. cache_run ops t = Inr (fst (store_run ops (memdisk t)), u) \<and> memdisk u = snd (store_run ops (memdisk t))"
      by (rule 3(1) [OF t(1)]) (use t 3(5,6) in \<open>simp_all, blast+\<close>)
    then show ?case using t by auto
  qed simp
  from this [of "binit s"] assms show ?thesis by (simp add: cache_ok_binit)
qed

lemma cache_transparent_witness:
  "\<exists>t. cache_run [(3, Some (replicate 512 7)), (4, None), (3, None)] (binit boot_bio) =
     Inr ([replicate 512 0, replicate 512 7], t) \<and> memdisk t 3 = replicate 512 7"
proof -
  let ?ops = "[(3, Some (replicate 512 7)), (4, None), (3, None)] :: (uint \<times> uchar list option) list"
  have "\<exists>t. cache_run ?ops (binit boot_bio) = Inr (fst (store_run ?ops (memdisk boot_bio)), t) \<and>
     memdisk t = snd (store_run ?ops (memdisk boot_bio))"
    by (rule cache_transparent) (auto simp: zero_buf_def)
  then show ?thesis by auto
qed

end
