(* ===== verification/Fslayout.thy ===== *)
theory Fslayout
  imports Prelude
begin

text \<open>
  \<open>fs.h\<close>, the on-disk format: the super block, the inodes and the directory entries as the byte
  layout that the compiler gives to their C structures, inside blocks of 512 bytes.  The kernel
  reads and writes a structure through a pointer into the block; here a function reads the fields at
  their offsets, and one gives the bytes of a structure.
\<close>

subsection \<open>Bytes inside a block\<close>

definition get_bytes :: "'a list \<Rightarrow> nat \<Rightarrow> nat \<Rightarrow> 'a list" where
  "get_bytes d off n = take n (drop off d)"

definition put_bytes :: "'a list \<Rightarrow> nat \<Rightarrow> 'a list \<Rightarrow> 'a list" where
  "put_bytes d off xs = take off d @ xs @ drop (off + length xs) d"

definition get16 :: "uchar list \<Rightarrow> nat \<Rightarrow> ushort" where
  "get16 d off = of_le16 (get_bytes d off 2)"

definition get32 :: "uchar list \<Rightarrow> nat \<Rightarrow> uint" where
  "get32 d off = of_le32 (get_bytes d off 4)"

definition put16 :: "uchar list \<Rightarrow> nat \<Rightarrow> ushort \<Rightarrow> uchar list" where
  "put16 d off v = put_bytes d off (le16 v)"

definition put32 :: "uchar list \<Rightarrow> nat \<Rightarrow> uint \<Rightarrow> uchar list" where
  "put32 d off v = put_bytes d off (le32 v)"

lemma length_put_bytes [simp]: "off + length xs \<le> length d \<Longrightarrow> length (put_bytes d off xs) = length d"
  by (simp add: put_bytes_def)

lemma length_get_bytes [simp]: "off + n \<le> length d \<Longrightarrow> length (get_bytes d off n) = n"
  by (simp add: get_bytes_def)

lemma split_at: "off + n \<le> length d \<Longrightarrow> \<exists>u v w. d = u @ v @ w \<and> length u = off \<and> length v = n"
  by (rule exI [of _ "take off d"], rule exI [of _ "take n (drop off d)"], rule exI [of _ "drop n (drop off d)"])
     (simp add: append_take_drop_id del: drop_drop)

lemma put_bytes_split: "length v = length xs \<Longrightarrow> put_bytes (u @ v @ w) (length u) xs = u @ xs @ w"
  by (simp add: put_bytes_def)

lemma get_put_same [simp]:
  assumes "off + length xs \<le> length d" "n = length xs"
  shows "get_bytes (put_bytes d off xs) off n = xs"
proof -
  obtain u v w where "d = u @ v @ w" "length u = off" "length v = length xs" using split_at [OF assms(1)] by blast
  with assms(2) show ?thesis using put_bytes_split [of v xs u w] by (simp add: get_bytes_def)
qed

lemma get_put_apart:
  assumes "a + n \<le> off \<or> off + length xs \<le> a" "off + length xs \<le> length d"
  shows "get_bytes (put_bytes d off xs) a n = get_bytes d a n"
proof -
  obtain u v w where d: "d = u @ v @ w" "length u = off" "length v = length xs" using split_at [OF assms(2)] by blast
  then have p: "put_bytes d off xs = u @ xs @ w" using put_bytes_split [of v xs u w] by simp
  show ?thesis
    using assms(1) d unfolding p get_bytes_def by auto
qed

lemma put_get_same [simp]:
  assumes "off + n \<le> length d"
  shows "put_bytes d off (get_bytes d off n) = d"
proof -
  obtain u v w where d: "d = u @ v @ w" "length u = off" "length v = n" using split_at [OF assms] by blast
  then have "get_bytes d off n = v" by (simp add: get_bytes_def)
  then show ?thesis using d put_bytes_split [of v v u w] by simp
qed

lemma get32_put32 [simp]: "off + 4 \<le> length d \<Longrightarrow> get32 (put32 d off v) off = v"
  by (simp add: get32_def put32_def)

lemma get32_put32_apart: "a + 4 \<le> off \<or> off + 4 \<le> a \<Longrightarrow> off + 4 \<le> length d \<Longrightarrow> get32 (put32 d off v) a = get32 d a"
  by (simp add: get32_def put32_def get_put_apart)

lemma length_put32 [simp]: "off + 4 \<le> length d \<Longrightarrow> length (put32 d off v) = length d"
  by (simp add: put32_def)

lemma get_bytes_append1 [simp]: "off + n \<le> length xs \<Longrightarrow> get_bytes (xs @ ys) off n = get_bytes xs off n"
  by (simp add: get_bytes_def)

lemma get_bytes_append2 [simp]: "length xs \<le> off \<Longrightarrow> get_bytes (xs @ ys) off n = get_bytes ys (off - length xs) n"
  by (simp add: get_bytes_def)

lemma get_bytes_all [simp]: "n = length xs \<Longrightarrow> get_bytes xs 0 n = xs"
  by (simp add: get_bytes_def)

subsection \<open>Constants\<close>

definition ROOTINO :: uint where "ROOTINO = 1"
definition ROOTDEV :: uint where "ROOTDEV = 1"
definition BSIZE :: nat where "BSIZE = 512"
definition NDIRECT :: nat where "NDIRECT = 12"
definition NINDIRECT :: nat where "NINDIRECT = BSIZE div 4"
definition MAXFILE :: nat where "MAXFILE = NDIRECT + NINDIRECT"
definition DIRSIZ :: nat where "DIRSIZ = 14"
definition T_DIR :: ushort where "T_DIR = 1"
definition T_FILE :: ushort where "T_FILE = 2"
definition T_DEV :: ushort where "T_DEV = 3"
definition IPB :: uint where "IPB = of_nat (BSIZE div 64)"
definition BPB :: uint where "BPB = of_nat (BSIZE * 8)"
definition IBLOCK :: "uint \<Rightarrow> uint" where "IBLOCK i = i div IPB + 2"
definition BBLOCK :: "uint \<Rightarrow> uint \<Rightarrow> uint" where "BBLOCK b ninodes = b div BPB + ninodes div IPB + 3"

lemmas fs_consts = BSIZE_def NDIRECT_def NINDIRECT_def MAXFILE_def DIRSIZ_def

subsection \<open>Structures\<close>

record superblock =
  sb_size :: uint
  sb_nblocks :: uint
  sb_ninodes :: uint
  sb_nlog :: uint

definition sb_of :: "uchar list \<Rightarrow> superblock" where
  "sb_of d = \<lparr>sb_size = get32 d 0, sb_nblocks = get32 d 4, sb_ninodes = get32 d 8, sb_nlog = get32 d 12\<rparr>"

definition sb_bytes :: "superblock \<Rightarrow> uchar list" where
  "sb_bytes sb = le32 (sb_size sb) @ le32 (sb_nblocks sb) @ le32 (sb_ninodes sb) @ le32 (sb_nlog sb)"

record dinode =
  dtype :: ushort
  dmajor :: ushort
  dminor :: ushort
  dnlink :: ushort
  dsize :: uint
  daddrs :: "uint list"

definition dinode_of :: "uchar list \<Rightarrow> dinode" where
  "dinode_of bs = \<lparr>dtype = get16 bs 0, dmajor = get16 bs 2, dminor = get16 bs 4, dnlink = get16 bs 6,
     dsize = get32 bs 8, daddrs = map (\<lambda>i. get32 bs (12 + 4 * i)) [0..<NDIRECT + 1]\<rparr>"

definition dinode_bytes :: "dinode \<Rightarrow> uchar list" where
  "dinode_bytes d = le16 (dtype d) @ le16 (dmajor d) @ le16 (dminor d) @ le16 (dnlink d) @ le32 (dsize d) @
     concat (map le32 (daddrs d))"

record dirent =
  d_inum :: ushort
  d_name :: "uchar list"

definition dirent_of :: "uchar list \<Rightarrow> dirent" where
  "dirent_of bs = \<lparr>d_inum = get16 bs 0, d_name = get_bytes bs 2 DIRSIZ\<rparr>"

definition dirent_bytes :: "dirent \<Rightarrow> uchar list" where
  "dirent_bytes d = le16 (d_inum d) @ d_name d"

lemma length_concat_le32 [simp]: "length (concat (map le32 xs)) = 4 * length xs"
  by (induction xs) simp_all

lemma length_dinode_bytes [simp]: "length (daddrs d) = NDIRECT + 1 \<Longrightarrow> length (dinode_bytes d) = 64"
  by (simp add: dinode_bytes_def NDIRECT_def)

lemma length_dirent_bytes [simp]: "length (d_name d) = DIRSIZ \<Longrightarrow> length (dirent_bytes d) = 16"
  by (simp add: dirent_bytes_def DIRSIZ_def)

lemma get_bytes_concat_le32: "i < length xs \<Longrightarrow> get_bytes (concat (map le32 xs)) (4 * i) 4 = le32 (xs ! i)"
proof (induction xs arbitrary: i)
  case (Cons x xs)
  then show ?case by (cases i) simp_all
qed simp

lemma get32_concat_le32: "i < length xs \<Longrightarrow> get32 (concat (map le32 xs)) (4 * i) = xs ! i"
  by (simp add: get32_def get_bytes_concat_le32)

lemma sb_of_bytes: "sb_of (sb_bytes sb @ rest) = sb"
  by (simp add: sb_of_def sb_bytes_def get32_def)

end
