(* ===== verification/Log.thy ===== *)
theory Log
  imports Cache Fslayout
begin

text \<open>
  \<open>log.c\<close>, the redo log that makes a system call's updates of the disk atomic, and \<open>readsb\<close> of
  \<open>fs.c\<close>, which it calls.  The header block, the steps of an installation and the invariant of the
  log during a transaction; theory \<open>Crash\<close> has the theorem.
\<close>

subsection \<open>State\<close>

definition LOGSIZE :: nat where "LOGSIZE = 10"

record log = bio +
  lstart :: uint
  lsize :: int
  lbusy :: bool
  ldev :: uint
  lh_n :: int
  lh_sector :: "uint list"

text \<open>The log before \<open>initlog\<close>.\<close>

definition boot_log :: log where
  "boot_log = bio.extend boot_bio (log.fields 0 0 False 0 0 (replicate LOGSIZE 0))"

subsection \<open>Routines\<close>

definition readsb :: "uint \<Rightarrow> 'z bio_scheme \<Rightarrow> (superblock \<times> 'z bio_scheme) outcome" where
  "readsb dev s =
     ebind (bread dev 1 s) (\<lambda>(bp, s).
       let sb = sb_of (data (bufs s bp))
       in ebind (brelse bp s) (\<lambda>s. Inr (sb, s)))"

definition install_step :: "nat \<Rightarrow> 'z log_scheme \<Rightarrow> 'z log_scheme outcome" where
  "install_step tail s =
     ebind (bread (ldev s) (lstart s + of_nat tail + 1) s) (\<lambda>(lbuf, s).
     ebind (bread (ldev s) (lh_sector s ! tail) s) (\<lambda>(dbuf, s).
       let s = set_data dbuf (data (bufs s lbuf)) s
       in ebind (bwrite dbuf s) (\<lambda>s.
          ebind (brelse lbuf s) (\<lambda>s. brelse dbuf s))))"

definition install_trans :: "'z log_scheme \<Rightarrow> 'z log_scheme outcome" where
  "install_trans s = efold install_step [0..<nat (lh_n s)] s"

text \<open>\<open>read_head\<close> trusts the count on the disk: a larger count than \<open>LOGSIZE\<close> runs past the array.\<close>

definition read_head :: "'z log_scheme \<Rightarrow> 'z log_scheme outcome" where
  "read_head s =
     ebind (bread (ldev s) (lstart s) s) (\<lambda>(b, s).
       let d = data (bufs s b);
           s = s\<lparr>lh_n := sint (get32 d 0)\<rparr>
       in if lh_n s > int LOGSIZE then Inl (Undef ''log.lh.sector'')
          else let s = s\<lparr>lh_sector := fold (\<lambda>i l. l[i := get32 d (4 + 4 * i)]) [0..<nat (lh_n s)] (lh_sector s)\<rparr>
               in brelse b s)"

definition head_data :: "nat \<Rightarrow> uint list \<Rightarrow> uchar list \<Rightarrow> uchar list" where
  "head_data n secs d = fold (\<lambda>i d. put32 d (4 + 4 * i) (secs ! i)) [0..<n] (put32 d 0 (of_nat n))"

definition write_head :: "'z log_scheme \<Rightarrow> 'z log_scheme outcome" where
  "write_head s =
     ebind (bread (ldev s) (lstart s) s) (\<lambda>(b, s).
       let s = set_data b (head_data (nat (lh_n s)) (lh_sector s) (data (bufs s b))) s
       in ebind (bwrite b s) (\<lambda>s. brelse b s))"

definition recover_from_log :: "'z log_scheme \<Rightarrow> 'z log_scheme outcome" where
  "recover_from_log s =
     ebind (read_head s) (\<lambda>s.
     ebind (install_trans s) (\<lambda>s.
       write_head (s\<lparr>lh_n := 0\<rparr>)))"

definition initlog :: "'z log_scheme \<Rightarrow> 'z log_scheme outcome" where
  "initlog s =
     (if 4 + 4 * LOGSIZE \<ge> BSIZE then Inl (Panic ''initlog: too big logheader'')
      else ebind (readsb ROOTDEV s) (\<lambda>(sb, s).
        recover_from_log (s\<lparr>lstart := sb_size sb - sb_nlog sb, lsize := sint (sb_nlog sb), ldev := ROOTDEV\<rparr>)))"

definition begin_trans :: "'z log_scheme \<Rightarrow> 'z log_scheme outcome" where
  "begin_trans s = (if lbusy s then Inl (Sleep ChLog) else Inr (s\<lparr>lbusy := True\<rparr>))"

definition commit_trans :: "'z log_scheme \<Rightarrow> 'z log_scheme outcome" where
  "commit_trans s =
     ebind (if lh_n s > 0
            then ebind (write_head s) (\<lambda>s.
                 ebind (install_trans s) (\<lambda>s.
                   write_head (s\<lparr>lh_n := 0\<rparr>)))
            else Inr s)
       (\<lambda>s. Inr (wakeup (Some ChLog) (s\<lparr>lbusy := False\<rparr>)))"

definition log_write :: "nat \<Rightarrow> 'z log_scheme \<Rightarrow> 'z log_scheme outcome" where
  "log_write b s =
     (if lh_n s \<ge> int LOGSIZE \<or> lh_n s \<ge> lsize s - 1 then Inl (Panic ''too big a transaction'')
      else if \<not> lbusy s then Inl (Panic ''write outside of trans'')
      else let i = (case List.find (\<lambda>i. lh_sector s ! i = bsector (bufs s b)) [0..<nat (lh_n s)] of
                      Some i \<Rightarrow> i | None \<Rightarrow> nat (lh_n s));
               s = s\<lparr>lh_sector := (lh_sector s)[i := bsector (bufs s b)]\<rparr>
           in ebind (bread (bdev (bufs s b)) (lstart s + of_nat i + 1) s) (\<lambda>(lbuf, s).
                let s = set_data lbuf (data (bufs s b)) s
                in ebind (bwrite lbuf s) (\<lambda>s.
                   ebind (brelse lbuf s) (\<lambda>s.
                     let s = (if int i = lh_n s then s\<lparr>lh_n := lh_n s + 1\<rparr> else s)
                     in Inr (upd_buf b (\<lambda>q. q\<lparr>dirty := True\<rparr>) s)))))"

subsection \<open>The header block\<close>

lemma head_data_facts:
  assumes "length d = 512" "n \<le> LOGSIZE"
  shows "length (head_data n secs d) = 512" "get32 (head_data n secs d) 0 = of_nat n"
    "i < n \<Longrightarrow> get32 (head_data n secs d) (4 + 4 * i) = secs ! i"
proof -
  let ?h = "\<lambda>k. fold (\<lambda>i d. put32 d (4 + 4 * i) (secs ! i)) [0..<k] (put32 d 0 (of_nat n))"
  have "length (?h k) = 512 \<and> get32 (?h k) 0 = of_nat n \<and> (\<forall>i<k. get32 (?h k) (4 + 4 * i) = secs ! i)" if "k \<le> n" for k
    using that
  proof (induction k)
    case 0
    then show ?case using assms by simp
  next
    case (Suc k)
    then have len: "4 + 4 * k + 4 \<le> length (?h k)" using assms(2) by (simp add: LOGSIZE_def)
    have "get32 (put32 (?h k) (4 + 4 * k) (secs ! k)) (4 + 4 * i) = secs ! i" if "i < Suc k" for i
    proof (cases "i = k")
      case False
      with that have "4 + 4 * i + 4 \<le> 4 + 4 * k" by simp
      with that False Suc show ?thesis by (subst get32_put32_apart [OF _ len]) simp_all
    qed (use len in simp)
    with Suc len show ?case by (simp add: get32_put32_apart)
  qed
  from this [OF order_refl]
  show "length (head_data n secs d) = 512" "get32 (head_data n secs d) 0 = of_nat n"
    "i < n \<Longrightarrow> get32 (head_data n secs d) (4 + 4 * i) = secs ! i" by (simp_all add: head_data_def)
qed

lemma fold_list_update:
  assumes "n \<le> length l"
  shows "length (fold (\<lambda>i l. l[i := f i]) [0..<n] l) = length l"
    and "i < length l \<Longrightarrow> fold (\<lambda>i l. l[i := f i]) [0..<n] l ! i = (if i < n then f i else l ! i)"
proof -
  have "length (fold (\<lambda>i l. l[i := f i]) [0..<k] l) = length l \<and>
     (\<forall>i < length l. fold (\<lambda>i l. l[i := f i]) [0..<k] l ! i = (if i < k then f i else l ! i))" if "k \<le> n" for k
    using that assms
  proof (induction k)
    case (Suc k)
    then show ?case by (auto simp: nth_list_update less_Suc_eq)
  qed simp
  from this [OF order_refl]
  show "length (fold (\<lambda>i l. l[i := f i]) [0..<n] l) = length l"
    "i < length l \<Longrightarrow> fold (\<lambda>i l. l[i := f i]) [0..<n] l ! i = (if i < n then f i else l ! i)" by simp_all
qed

subsection \<open>Where the log lies\<close>

text \<open>The log occupies \<open>m\<close> sectors from \<open>st\<close>: the header and then a slot for each logged sector.\<close>

definition in_log :: "uint \<Rightarrow> nat \<Rightarrow> uint \<Rightarrow> bool" where
  "in_log st m b \<longleftrightarrow> unat st \<le> unat b \<and> unat b < unat st + m"

definition slot :: "uint \<Rightarrow> nat \<Rightarrow> uint" where
  "slot st i = st + of_nat i + 1"

text \<open>
  The log is in the disk, behind the super block, and no larger than the cache: a transaction
  pins its sectors in the cache until it commits.
\<close>

definition geom :: "uint \<Rightarrow> nat \<Rightarrow> uint \<Rightarrow> bool" where
  "geom st m ds \<longleftrightarrow> 2 \<le> m \<and> m \<le> NBUF \<and> 1 < unat st \<and> unat st + m \<le> unat ds"

lemma slot_unat:
  assumes "geom st m ds" "i + 1 < m"
  shows "unat (slot st i) = unat st + i + 1"
proof -
  have "unat st + i + 1 < 2 ^ 32" using assms unat_less_32 [of ds] by (simp add: geom_def)
  moreover have "slot st i = word_of_nat (unat st + i + 1)" by (simp add: slot_def)
  ultimately show ?thesis by (simp only: unat_of_nat) simp
qed

lemma slot_facts:
  assumes "geom st m ds" "i + 1 < m"
  shows "in_log st m (slot st i)" "slot st i \<noteq> st" "slot st i < ds" "j + 1 < m \<Longrightarrow> slot st i = slot st j \<longleftrightarrow> i = j"
proof -
  note u = slot_unat [OF assms]
  show "in_log st m (slot st i)" using u assms by (simp add: in_log_def)
  show "slot st i \<noteq> st" using u by auto
  show "slot st i < ds" using u assms by (simp add: word_less_nat_alt geom_def)
  show "slot st i = slot st j \<longleftrightarrow> i = j" if "j + 1 < m"
    using u slot_unat [OF assms(1) that] by (metis Suc_eq_plus1 add_left_cancel add_Suc_right old.nat.inject)
qed

lemma head_facts:
  assumes "geom st m ds"
  shows "in_log st m st" "st < ds" "\<not> in_log st m 1"
  using assms by (simp_all add: geom_def in_log_def word_less_nat_alt)

lemma keeps_log:
  assumes "keeps s t"
  shows "lstart t = lstart s" "lsize t = lsize s" "lbusy t = lbusy s" "ldev t = ldev s" "lh_n t = lh_n s"
    "lh_sector t = lh_sector s"
  using assms by (auto simp: keeps_def)

subsection \<open>Writing the header\<close>

lemma write_head_ok:
  assumes "cache_ok s" "ldev s = 1" "lstart s < disksize s" "lstart s \<notin> held s" "card (held s \<union> pinned s) < NBUF"
    "nat (lh_n s) \<le> LOGSIZE"
  defines "h \<equiv> head_data (nat (lh_n s)) (lh_sector s) (view s (lstart s))"
  shows "\<exists>t. write_head s = Inr t \<and> cache_ok t \<and> keeps s t \<and> view t = (view s)(lstart s := h) \<and>
     memdisk t = (memdisk s)(lstart s := h) \<and> dwrites t = dwrites s @ [(lstart s, h)] \<and>
     held t = held s \<and> pinned t = pinned s - {lstart s}"
proof -
  have av: "lstart s < disksize s \<and> room s (lstart s)" using assms room_card by blast
  from cache.poke_through [OF assms(1,4) av] obtain i t where t: "bread 1 (lstart s) s = Inr (i, t)"
    "data (bufs t i) = view s (lstart s)" "cache_ok t" "keeps s t"
    "\<And>d. length d = 512 \<Longrightarrow> \<exists>u v. bwrite i (set_data i d t) = Inr u \<and> brelse i u = Inr v \<and> cache_ok v \<and> keeps s v \<and>
      view v = (view s)(lstart s := d) \<and> memdisk v = (memdisk s)(lstart s := d) \<and>
      dwrites v = dwrites s @ [(lstart s, d)] \<and> held v = held s \<and> pinned v = pinned s - {lstart s}"
    by metis
  have len: "length h = 512" unfolding h_def using assms(6) length_view [OF assms(1)] by (simp add: head_data_facts)
  from t(5) [OF len] obtain u v where "bwrite i (set_data i h t) = Inr u" "brelse i u = Inr v" "cache_ok v" "keeps s v"
      "view v = (view s)(lstart s := h)" "memdisk v = (memdisk s)(lstart s := h)"
      "dwrites v = dwrites s @ [(lstart s, h)]" "held v = held s" "pinned v = pinned s - {lstart s}" by blast
  then show ?thesis using t(1,2) keeps_log [OF t(4)] assms(2) by (simp add: write_head_def h_def)
qed

subsection \<open>Installing\<close>

text \<open>The disk after some sector writes.\<close>

fun redo :: "(uint \<times> uchar list) list \<Rightarrow> (uint \<Rightarrow> uchar list) \<Rightarrow> uint \<Rightarrow> uchar list" where
  "redo [] d = d"
| "redo ((b, x) # ws) d = redo ws (d(b := x))"

lemma redo_append: "redo (xs @ ys) d = redo ys (redo xs d)"
  by (induction xs arbitrary: d) auto

lemma redo_other: "b \<notin> fst ` set ws \<Longrightarrow> redo ws d b = d b"
  by (induction ws arbitrary: d) auto

lemma redo_in: "distinct (map fst ws) \<Longrightarrow> (b, x) \<in> set ws \<Longrightarrow> redo ws d b = x"
  by (induction ws arbitrary: d) (auto simp: redo_other image_iff)

lemma install_step_ok:
  assumes "cache_ok s" "ldev s = 1" "geom (lstart s) m (disksize s)" "held s = {}" "\<And>b. in_log (lstart s) m b \<Longrightarrow> b \<notin> pinned s"
    "card (pinned s) < NBUF" "i + 1 < m" "\<not> in_log (lstart s) m (lh_sector s ! i)" "lh_sector s ! i < disksize s"
    "pinned s = {} \<or> lh_sector s ! i \<in> pinned s"
  defines "c \<equiv> lh_sector s ! i" and "x \<equiv> memdisk s (slot (lstart s) i)"
  shows "\<exists>t. install_step i s = Inr t \<and> cache_ok t \<and> keeps s t \<and> held t = {} \<and> pinned t = pinned s - {c} \<and>
     dwrites t = dwrites s @ [(c, x)] \<and> memdisk t = (memdisk s)(c := x) \<and> view t = (view s)(c := x)"
proof -
  let ?b = "slot (lstart s) i"
  note sl = slot_facts [OF assms(3,7)]
  have un: "?b \<notin> pinned s" "?b \<notin> held s" "c \<notin> held s" "?b \<noteq> c" using assms(4,5,8) sl(1) unfolding c_def by auto
  have vx: "view s ?b = x" using view_unpinned [OF assms(1) un(2,1)] by (simp add: x_def)
  have av: "?b < disksize s \<and> room s ?b" using sl(3) room_card [OF assms(1)] assms(4,6) by simp
  have cap: "c \<in> pinned s \<or> c < disksize s \<and> card (insert ?b (held s \<union> pinned s)) < NBUF"
    using assms(4,9,10) by (auto simp: c_def NBUF_def)
  from cache.copy_through [OF assms(1) un(2,3,4) av cap un(1) length_view [OF assms(1)]]
  obtain i' j t u v w y where r: "bread 1 ?b s = Inr (i', t)" "bread 1 c t = Inr (j, u)"
    "bwrite j (set_data j (data (bufs u i')) u) = Inr v" "brelse i' v = Inr w" "brelse j w = Inr y" "keeps s t"
    and y: "cache_ok y" "keeps s y" "view y = (view s)(c := view s ?b)" "memdisk y = (memdisk s)(c := view s ?b)"
    "dwrites y = dwrites s @ [(c, view s ?b)]" "held y = held s" "pinned y = pinned s - {c}"
    by metis
  have "install_step i s = Inr y"
    using r(1-5) assms(2) keeps_log [OF r(6)] by (simp add: install_step_def slot_def c_def)
  then show ?thesis using y vx assms(4) by simp
qed

lemma install_steps:
  assumes "cache_ok s" "ldev s = 1" "geom (lstart s) m (disksize s)" "held s = {}" "\<And>b. in_log (lstart s) m b \<Longrightarrow> b \<notin> pinned s"
    "card (pinned s) < NBUF" "\<And>i. i \<in> set is \<Longrightarrow> i + 1 < m \<and> \<not> in_log (lstart s) m (lh_sector s ! i) \<and> lh_sector s ! i < disksize s"
    "pinned s = {} \<or> (\<forall>i \<in> set is. lh_sector s ! i \<in> pinned s)" "distinct (map (\<lambda>i. lh_sector s ! i) is)"
  defines "ws \<equiv> map (\<lambda>i. (lh_sector s ! i, memdisk s (slot (lstart s) i))) is"
  shows "\<exists>t. efold install_step is s = Inr t \<and> cache_ok t \<and> keeps s t \<and> held t = {} \<and>
     pinned t = pinned s - set (map (\<lambda>i. lh_sector s ! i) is) \<and> dwrites t = dwrites s @ ws \<and>
     memdisk t = redo ws (memdisk s) \<and> view t = redo ws (view s)"
  using assms(1-9) unfolding ws_def
proof (induction "is" arbitrary: s)
  case (Cons i "is")
  obtain t where t: "install_step i s = Inr t" "cache_ok t" "keeps s t" "held t = {}" "pinned t = pinned s - {lh_sector s ! i}"
    "dwrites t = dwrites s @ [(lh_sector s ! i, memdisk s (slot (lstart s) i))]"
    "memdisk t = (memdisk s)(lh_sector s ! i := memdisk s (slot (lstart s) i))"
    "view t = (view s)(lh_sector s ! i := memdisk s (slot (lstart s) i))"
    using install_step_ok [OF Cons.prems(1-6), of i] Cons.prems(7,8) by auto
  note k = keeps_log [OF t(3)] keeps_fields [OF t(3)]
  let ?ws = "\<lambda>t. map (\<lambda>i. (lh_sector t ! i, memdisk t (slot (lstart t) i))) is"
  have ws: "?ws t = ?ws s"
  proof (rule map_cong [OF refl])
    fix j assume "j \<in> set is"
    then have "slot (lstart s) j \<noteq> lh_sector s ! i"
      using Cons.prems(3,7) slot_facts(1) by (metis list.set_intros)
    then show "(lh_sector t ! j, memdisk t (slot (lstart t) j)) = (lh_sector s ! j, memdisk s (slot (lstart s) j))"
      by (simp add: k t(7))
  qed
  have "\<exists>u. efold install_step is t = Inr u \<and> cache_ok u \<and> keeps t u \<and> held u = {} \<and>
     pinned u = pinned t - set (map (\<lambda>i. lh_sector t ! i) is) \<and> dwrites u = dwrites t @ ?ws t \<and>
     memdisk u = redo (?ws t) (memdisk t) \<and> view u = redo (?ws t) (view t)"
  proof (rule Cons.IH)
    show "card (pinned t) < NBUF" using card_Diff1_le [of "pinned s" "lh_sector s ! i"] Cons.prems(6) unfolding t(5) by linarith
    show "pinned t = {} \<or> (\<forall>i \<in> set is. lh_sector t ! i \<in> pinned t)"
      using Cons.prems(8,9) unfolding t(5) k by (auto simp: image_iff)
  qed (use t k Cons.prems in auto)
  then obtain u where "efold install_step is t = Inr u" "cache_ok u" "keeps t u" "held u = {}"
     "pinned u = pinned t - set (map (\<lambda>i. lh_sector t ! i) is)" "dwrites u = dwrites t @ ?ws s"
     "memdisk u = redo (?ws s) (memdisk t)" "view u = redo (?ws s) (view t)" unfolding ws by blast
  then show ?case using t keeps_trans [OF t(3)] k by (intro exI [of _ u]) auto
qed simp

subsection \<open>The log during a transaction\<close>

definition logged :: "'z log_scheme \<Rightarrow> uint list" where
  "logged s = take (nat (lh_n s)) (lh_sector s)"

text \<open>
  \<open>d\<close> is the disk when the transaction began.  The header on the disk is empty and the home
  locations are as they were; the sectors logged so far are pinned in the cache and, unless
  somebody is working on one, equal to their copy in the log.
\<close>

definition log_geom :: "'z log_scheme \<Rightarrow> bool" where
  "log_geom s \<longleftrightarrow> cache_ok s \<and> ldev s = 1 \<and> geom (lstart s) (nat (lsize s)) (disksize s) \<and>
     length (lh_sector s) = LOGSIZE \<and> 0 \<le> lh_n s \<and> lh_n s < lsize s"

definition log_ok :: "(uint \<Rightarrow> uchar list) \<Rightarrow> 'z log_scheme \<Rightarrow> bool" where
  "log_ok d s \<longleftrightarrow> log_geom s \<and> get32 (memdisk s (lstart s)) 0 = 0 \<and>
     (\<forall>b. in_log (lstart s) (nat (lsize s)) b \<longrightarrow> b \<notin> held s \<and> b \<notin> pinned s) \<and>
     pinned s = set (logged s) \<and> distinct (logged s) \<and> 1 \<notin> set (logged s) \<and>
     (\<forall>b. \<not> in_log (lstart s) (nat (lsize s)) b \<longrightarrow> memdisk s b = d b) \<and>
     (\<forall>k < nat (lh_n s). lh_sector s ! k \<notin> held s \<longrightarrow> memdisk s (slot (lstart s) k) = view s (lh_sector s ! k))"

text \<open>What a client must see to before it releases a sector: that it logged what it changed.\<close>

definition clean :: "'z log_scheme \<Rightarrow> uint \<Rightarrow> bool" where
  "clean s b \<longleftrightarrow> (if b \<in> set (logged s) then \<forall>k < nat (lh_n s). lh_sector s ! k = b \<longrightarrow> memdisk s (slot (lstart s) k) = view s b
     else view s b = memdisk s b)"

lemma log_geomD:
  assumes "log_geom s"
  shows "cache_ok s" "ldev s = 1" "geom (lstart s) (nat (lsize s)) (disksize s)" "length (lh_sector s) = LOGSIZE"
    "nat (lh_n s) + 1 \<le> nat (lsize s)" "nat (lh_n s) < LOGSIZE" "int (nat (lh_n s)) = lh_n s"
  using assms by (auto simp: log_geom_def geom_def NBUF_def LOGSIZE_def)

lemma set_logged: "log_geom s \<Longrightarrow> b \<in> set (logged s) \<longleftrightarrow> (\<exists>k < nat (lh_n s). lh_sector s ! k = b)"
  using log_geomD [of s] by (auto simp: logged_def in_set_conv_nth)

lemma card_logged: "log_geom s \<Longrightarrow> card (set (logged s)) < NBUF"
  using card_length [of "logged s"] log_geomD(3,5) [of s] by (simp add: logged_def geom_def)

text \<open>The log's own fields do not change, or only the list of logged sectors does.\<close>

definition log_same :: "'z log_scheme \<Rightarrow> 'z log_scheme \<Rightarrow> bool" where
  "log_same s t \<longleftrightarrow> lstart t = lstart s \<and> lsize t = lsize s \<and> ldev t = ldev s \<and> disksize t = disksize s \<and>
     lh_n t = lh_n s \<and> lh_sector t = lh_sector s"

lemma log_same_keeps: "keeps s t \<Longrightarrow> log_same s t"
  using keeps_log [of s t] keeps_fields [of s t] by (simp add: log_same_def)

lemma log_okI:
  assumes "log_ok d s" "log_same s t" "cache_ok t" "memdisk t = memdisk s" "pinned t = pinned s"
    "\<And>b. in_log (lstart s) (nat (lsize s)) b \<Longrightarrow> b \<notin> held t"
    "\<And>k. k < nat (lh_n s) \<Longrightarrow> lh_sector s ! k \<notin> held t \<Longrightarrow> memdisk s (slot (lstart s) k) = view t (lh_sector s ! k)"
  shows "log_ok d t"
  using assms unfolding log_ok_def log_geom_def log_same_def logged_def by auto

lemma log_ok_read:
  assumes "log_ok d s" "\<not> in_log (lstart s) (nat (lsize s)) b" "bread 1 b s = Inr (i, t)"
  shows "log_ok d t" "keeps s t" "dwrites t = dwrites s" "memdisk t = memdisk s"
proof -
  have ok: "cache_ok s" using assms(1) by (simp add: log_ok_def log_geom_def)
  note c = bread_InrD [OF ok assms(3)]
  then obtain t' i' where "bread 1 b s = Inr (i', t')" and t: "cache_ok t'" "keeps s t'" "view t' = view s" "memdisk t' = memdisk s"
    "dwrites t' = dwrites s" "held t' = insert b (held s)" "pinned t' = pinned s"
    using bread_law [OF ok c(1)] by auto
  then have [simp]: "t' = t" using assms(3) by simp
  show "keeps s t" "dwrites t = dwrites s" "memdisk t = memdisk s" using t by simp_all
  show "log_ok d t"
    by (rule log_okI [OF assms(1) log_same_keeps]) (use t assms(1,2) in \<open>auto simp: log_ok_def\<close>)
qed

lemma log_ok_data:
  assumes "log_ok d s" "owns s i b" "\<not> in_log (lstart s) (nat (lsize s)) b" "length x = 512"
  shows "log_ok d (set_data i x s)" "keeps s (set_data i x s)"
proof -
  have ok: "cache_ok s" using assms(1) by (simp add: log_ok_def log_geom_def)
  have h: "b \<in> held s" using assms(2) by (auto simp: held_def owns_def)
  note r = set_data_law [OF ok assms(2,4)]
  then show "keeps s (set_data i x s)" by blast
  show "log_ok d (set_data i x s)"
    by (rule log_okI [OF assms(1) log_same_keeps]) (use r h assms(1) in \<open>auto simp: log_ok_def\<close>)
qed

lemma log_ok_relse:
  assumes "log_ok d s" "owns s i b" "clean s b" "brelse i s = Inr t"
  shows "log_ok d t" "keeps s t" "dwrites t = dwrites s" "memdisk t = memdisk s"
proof -
  have g: "log_geom s" and ok: "cache_ok s" and p: "pinned s = set (logged s)" using assms(1) by (auto simp: log_ok_def log_geom_def)
  have "b \<in> pinned s \<or> view s b = memdisk s b" using assms(3) p by (auto simp: clean_def split: if_splits)
  then obtain t' where "brelse i s = Inr t'" and t: "cache_ok t'" "keeps s t'" "view t' = view s" "memdisk t' = memdisk s"
    "dwrites t' = dwrites s" "held t' = held s - {b}" "pinned t' = pinned s"
    using brelse_law [OF ok assms(2)] by auto
  then have [simp]: "t' = t" using assms(4) by simp
  show "keeps s t" "dwrites t = dwrites s" "memdisk t = memdisk s" using t by simp_all
  have k: "memdisk s (slot (lstart s) k) = view t (lh_sector s ! k)" if "k < nat (lh_n s)" "lh_sector s ! k \<notin> held t" for k
  proof (cases "lh_sector s ! k = b")
    case True
    then have "b \<in> set (logged s)" using set_logged [OF g] that(1) by blast
    with assms(3) that(1) True t show ?thesis by (simp add: clean_def)
  next
    case False
    with that(2) t have "lh_sector s ! k \<notin> held s" by simp
    with assms(1) that(1) t show ?thesis by (simp add: log_ok_def)
  qed
  show "log_ok d t"
    by (rule log_okI [OF assms(1) log_same_keeps]) (use t k assms(1) in \<open>auto simp: log_ok_def\<close>)
qed

end
