(* ===== verification/Crash.thy ===== *)
theory Crash
  imports Log
begin

text \<open>
  Transactions are atomic: whatever a transaction does through the cache and at whichever disk write the
  machine stops, recovery yields the disk from before the transaction or the disk with all of it.
  The disk writes one sector at a time, completely.  The invariant \<open>log_ok\<close> of theory \<open>Log\<close> describes the
  memory during a transaction; \<open>sound\<close> and \<open>settled\<close> say what a disk means to recovery.
\<close>

subsection \<open>Logging a sector\<close>

text \<open>The slot that \<open>log_write\<close> uses for sector \<open>b\<close>: the one it has already, or the next.\<close>

definition log_index :: "'z log_scheme \<Rightarrow> uint \<Rightarrow> nat" where
  "log_index s b = (case List.find (\<lambda>i. lh_sector s ! i = b) [0..<nat (lh_n s)] of Some i \<Rightarrow> i | None \<Rightarrow> nat (lh_n s))"

lemma log_index_cases:
  assumes "log_geom s"
  shows "log_index s b < nat (lh_n s) \<and> lh_sector s ! log_index s b = b \<and> b \<in> set (logged s) \<and>
      (lh_sector s)[log_index s b := b] = lh_sector s \<or>
    log_index s b = nat (lh_n s) \<and> b \<notin> set (logged s)"
proof (cases "List.find (\<lambda>i. lh_sector s ! i = b) [0..<nat (lh_n s)]")
  case None
  then have "b \<notin> set (logged s)" unfolding set_logged [OF assms] by (auto simp: find_None_iff)
  with None show ?thesis by (simp add: log_index_def)
next
  case (Some k)
  then have k: "k < nat (lh_n s)" "lh_sector s ! k = b" by (auto dest: find_SomeD)
  then have "b \<in> set (logged s)" unfolding set_logged [OF assms] by blast
  moreover have "(lh_sector s)[k := b] = lh_sector s" using k list_update_id by metis
  ultimately show ?thesis using Some k by (simp add: log_index_def)
qed

text \<open>Writing the copy in the log, the part of \<open>log_write\<close> between its checks and its bookkeeping.\<close>

lemma log_copy:
  assumes "log_ok d s" "owns s i b" "k + 1 < nat (lsize s)" "log_write i s = Inr t" "k = log_index s b"
  obtains v where
    "t = upd_buf i (\<lambda>q. q\<lparr>dirty := True\<rparr>) (if int k = lh_n s then v\<lparr>lh_n := lh_n s + 1\<rparr> else v)"
    "cache_ok v" "keeps (s\<lparr>lh_sector := (lh_sector s)[k := b]\<rparr>) v" "view v = (view s)(slot (lstart s) k := view s b)"
    "memdisk v = (memdisk s)(slot (lstart s) k := view s b)" "dwrites v = dwrites s @ [(slot (lstart s) k, view s b)]"
    "held v = held s" "pinned v = pinned s" "owns v i b"
proof -
  have g: "log_geom s" and ok: "cache_ok s" and bi: "bsector (bufs s i) = b" "bdev (bufs s i) = 1"
    using assms(1,2) by (auto simp: log_ok_def log_geom_def owns_def at_def)
  let ?s = "s\<lparr>lh_sector := (lh_sector s)[k := b]\<rparr>" and ?c = "slot (lstart s) k"
  have cc: "cache_ok ?s = cache_ok s" "view ?s = view s" "held ?s = held s" "pinned ?s = pinned s" "owns ?s = owns s" "room ?s = room s"
    by (rule cache_cong; simp)+
  have idx: "(case List.find (\<lambda>i. lh_sector s ! i = bsector (bufs s i')) [0..<nat (lh_n s)] of Some i \<Rightarrow> i | None \<Rightarrow> nat (lh_n s)) = k"
    if "i' = i" for i' using assms(5) bi that by (simp add: log_index_def)
  have w: "ebind (bread 1 ?c ?s) (\<lambda>(lbuf, s). let s = set_data lbuf (data (bufs s i)) s
      in ebind (bwrite lbuf s) (\<lambda>s. ebind (brelse lbuf s) (\<lambda>s. let s = (if int k = lh_n s then s\<lparr>lh_n := lh_n s + 1\<rparr> else s)
                     in Inr (upd_buf i (\<lambda>q. q\<lparr>dirty := True\<rparr>) s)))) = Inr t"
    using assms(4) unfolding log_write_def idx [OF refl] by (simp add: bi slot_def split: if_splits)
  then obtain lb u where rd: "bread 1 ?c ?s = Inr (lb, u)" by (auto simp: outcome_simps)
  have av: "?c \<notin> held ?s" "?c < disksize ?s \<and> room ?s ?c" using bread_InrD [OF _ rd] cc ok by auto
  have okS: "cache_ok ?s" using ok cc(1) by simp
  obtain i' u' where u: "bread 1 ?c ?s = Inr (i', u')" "data (bufs u' i') = view ?s ?c" "owns u' i' ?c" "cache_ok u'" "keeps ?s u'"
    "held u' = insert ?c (held ?s)" "\<And>j c. owns ?s j c \<Longrightarrow> owns u' j c" "view u' = view ?s"
    "\<And>d. length d = 512 \<Longrightarrow> \<exists>v w. bwrite i' (set_data i' d u') = Inr v \<and> brelse i' v = Inr w \<and> cache_ok w \<and> keeps ?s w \<and>
      view w = (view ?s)(?c := d) \<and> memdisk w = (memdisk ?s)(?c := d) \<and> dwrites w = dwrites ?s @ [(?c, d)] \<and>
      held w = held ?s \<and> pinned w = pinned ?s - {?c} \<and> (\<forall>j c. owns ?s j c \<longrightarrow> c \<noteq> ?c \<longrightarrow> owns w j c)"
    by (rule cache.poke_through [OF okS av], rule that)
  have "owns u' i b" using u(7) assms(2) cc by simp
  then have "at u' i b" by (simp add: owns_def)
  then have d: "data (bufs u' i) = view s b" using view_at [OF u(4)] u(8) cc(2) by simp
  from u(9) [of "view s b"] length_view [OF ok] obtain v w where v: "bwrite i' (set_data i' (view s b) u') = Inr v" "brelse i' v = Inr w"
      "cache_ok w" "keeps ?s w" "view w = (view ?s)(?c := view s b)" "memdisk w = (memdisk ?s)(?c := view s b)"
      "dwrites w = dwrites ?s @ [(?c, view s b)]" "held w = held ?s" "pinned w = pinned ?s - {?c}"
      "\<And>j c. owns ?s j c \<Longrightarrow> c \<noteq> ?c \<Longrightarrow> owns w j c" by blast
  have inl: "in_log (lstart s) (nat (lsize s)) ?c" by (rule slot_facts [OF log_geomD(3) [OF g] assms(3)])
  then have ne: "?c \<notin> pinned s" "?c \<noteq> b"
    using assms(1,2) unfolding log_ok_def by (auto simp: held_def owns_def)
  have "lh_n w = lh_n s" using keeps_log(5) [OF v(4)] by simp
  then have "t = upd_buf i (\<lambda>q. q\<lparr>dirty := True\<rparr>) (if int k = lh_n s then w\<lparr>lh_n := lh_n s + 1\<rparr> else w)"
    using w u(1) d v(1,2) by (auto simp: Let_def)
  then show thesis
    by (rule that [OF _ v(3,4)]) (use v cc ne assms(2) in auto)
qed


lemma log_write_total:
  assumes "log_ok d s" "owns s i b" "lbusy s" "lh_n s < lsize s - 1" "card (held s \<union> pinned s) < NBUF"
  shows "\<exists>t. log_write i s = Inr t"
proof -
  have g: "log_geom s" and ok: "cache_ok s" and bi: "bsector (bufs s i) = b" "bdev (bufs s i) = 1"
    using assms(1,2) by (auto simp: log_ok_def log_geom_def owns_def at_def)
  note G = log_geomD [OF g]
  let ?k = "log_index s b"
  let ?s = "s\<lparr>lh_sector := (lh_sector s)[?k := b]\<rparr>" and ?c = "slot (lstart s) ?k"
  have cc: "cache_ok ?s = cache_ok s" "held ?s = held s" "room ?s = room s" "pinned ?s = pinned s"
    by (rule cache_cong; simp)+
  have k: "?k + 1 < nat (lsize s)" using log_index_cases [OF g, of b] assms(4) G(7) by linarith
  note S = slot_facts [OF G(3) k]
  have len: "length (view s b) = 512" by (rule length_view [OF ok])
  have "?c \<notin> held ?s" "?c < disksize ?s \<and> room ?s ?c" using S(1,3) assms(1,5) room_card [OF ok] cc by (auto simp: log_ok_def)
  then obtain l u where u: "bread 1 ?c ?s = Inr (l, u)" "cache_ok u" "view u = view ?s" "owns u l ?c" "\<forall>j c. owns ?s j c \<longrightarrow> owns u j c"
    using bread_law [of ?s ?c] cc ok by blast
  have len: "length (data (bufs u i)) = 512"
    using assms(2) cache_okD(2) [OF u(2), of i] by (auto simp: owns_def at_def buf_ok_def)
  note p = set_data_law [OF u(2,4) len]
  obtain v where v: "bwrite l (set_data l (data (bufs u i)) u) = Inr v" "cache_ok v" "owns v l ?c"
    "view v = view (set_data l (data (bufs u i)) u)" "memdisk v ?c = view (set_data l (data (bufs u i)) u) ?c"
    using bwrite_law [of "set_data l (data (bufs u i)) u" l ?c] p u(4) by auto
  then obtain w where "brelse l v = Inr w" using brelse_law [OF v(2,3)] by auto
  then show ?thesis using u(1) v(1) assms(3,4) bi G(6,7)
    by (simp add: log_write_def log_index_def [symmetric] slot_def Let_def)
qed

lemma log_write_guard:
  assumes "log_write i s = Inr t"
  shows "lh_n s < int LOGSIZE" "lh_n s < lsize s - 1" "lbusy s"
  using assms by (auto simp: log_write_def split: if_splits)

text \<open>The state after \<open>log_write\<close>: slot \<open>k\<close> has the copy of sector \<open>b\<close> and \<open>b\<close> is pinned.\<close>

lemma log_write_state:
  assumes "log_ok d s" "owns s i b" "log_write i s = Inr t"
  defines "k \<equiv> log_index s b"
  shows "k + 1 < nat (lsize s)" "k \<le> nat (lh_n s)" "cache_ok t" "view t = (view s)(slot (lstart s) k := view s b)"
    "held t = held s" "pinned t = insert b (pinned s)" "owns t i b" "lstart t = lstart s" "lsize t = lsize s" "disksize t = disksize s"
    "ldev t = ldev s" "memdisk t = (memdisk s)(slot (lstart s) k := view s b)"
    "dwrites t = dwrites s @ [(slot (lstart s) k, view s b)]" "lh_sector t = (lh_sector s)[k := b]"
    "lh_n t = (if int k = lh_n s then lh_n s + 1 else lh_n s)" "lbusy t"
proof -
  have g: "log_geom s" using assms(1) by (simp add: log_ok_def)
  note gd = log_write_guard [OF assms(3)] and G = log_geomD [OF g]
  show k: "k + 1 < nat (lsize s)" "k \<le> nat (lh_n s)"
    using gd G(7) log_index_cases [OF g, of b] unfolding k_def by linarith+
  have kk: "k = log_index s b" by (simp add: k_def)
  obtain v where t: "t = upd_buf i (\<lambda>q. q\<lparr>dirty := True\<rparr>) (if int k = lh_n s then v\<lparr>lh_n := lh_n s + 1\<rparr> else v)"
    and v: "cache_ok v" "keeps (s\<lparr>lh_sector := (lh_sector s)[k := b]\<rparr>) v" "view v = (view s)(slot (lstart s) k := view s b)"
    "memdisk v = (memdisk s)(slot (lstart s) k := view s b)" "dwrites v = dwrites s @ [(slot (lstart s) k, view s b)]"
    "held v = held s" "pinned v = pinned s" "owns v i b"
    by (rule log_copy [OF assms(1,2) k(1) assms(3) kk], rule that)
  let ?w = "if int k = lh_n s then v\<lparr>lh_n := lh_n s + 1\<rparr> else v"
  have cc: "cache_ok ?w = cache_ok v" "view ?w = view v" "held ?w = held v" "pinned ?w = pinned v" "owns ?w = owns v"
    by (rule cache_cong; simp)+
  have w: "at ?w i b" "busy (bufs ?w i)" using v(8) unfolding cc(5) [symmetric] owns_def by auto
  note sd = set_dirty_rule [OF _ w, folded t]
  show "cache_ok t" "view t = (view s)(slot (lstart s) k := view s b)" "held t = held s" "pinned t = insert b (pinned s)" "owns t i b"
    using sd cc v(1,3,6,7) w by (simp_all add: owns_def)
  show "lstart t = lstart s" "lsize t = lsize s" "disksize t = disksize s" "ldev t = ldev s" "lbusy t"
    "lh_sector t = (lh_sector s)[k := b]" "lh_n t = (if int k = lh_n s then lh_n s + 1 else lh_n s)"
    "memdisk t = (memdisk s)(slot (lstart s) k := view s b)" "dwrites t = dwrites s @ [(slot (lstart s) k, view s b)]"
    unfolding t using keeps_log [OF v(2)] keeps_fields [OF v(2)] gd(3) v(4,5) by (simp_all add: upd_buf_def)
qed

lemma log_write_logged:
  assumes "log_ok d s" "owns s i b" "log_write i s = Inr t"
  shows "set (logged t) = insert b (set (logged s))" "distinct (logged t)"
proof -
  have g: "log_geom s" and d: "distinct (logged s)" using assms(1) by (simp_all add: log_ok_def)
  note G = log_geomD [OF g] and st = log_write_state [OF assms]
  let ?k = "log_index s b"
  have "logged t = (if int ?k = lh_n s then logged s @ [b] else logged s) \<and> (int ?k \<noteq> lh_n s \<longrightarrow> b \<in> set (logged s)) \<and>
      (int ?k = lh_n s \<longrightarrow> b \<notin> set (logged s))"
    using log_index_cases [OF g, of b]
  proof (elim disjE conjE)
    assume "?k = nat (lh_n s)" "b \<notin> set (logged s)"
    moreover have "nat (lh_n s + 1) = Suc (nat (lh_n s))" using G(7) by linarith
    ultimately show ?thesis using st(14,15) G(4,6,7) by (simp add: logged_def take_Suc_conv_app_nth)
  qed (use st(14,15) in \<open>simp add: logged_def\<close>)
  with d show "set (logged t) = insert b (set (logged s))" "distinct (logged t)" by (auto split: if_splits)
qed

lemma log_write_ok:
  assumes "log_ok d s" "owns s i b" "b \<noteq> 1" "log_write i s = Inr t"
  shows "log_ok d t" "clean t b"
proof -
  let ?k = "log_index s b"
  have g: "log_geom s" and bh: "b \<in> held s" using assms(1,2) by (auto simp: log_ok_def owns_def held_def)
  note G = log_geomD [OF g] and S = slot_facts [OF G(3)] and gd = log_write_guard [OF assms(4)]
  note st = log_write_state [OF assms(1,2,4)] and lg = log_write_logged [OF assms(1,2,4)]
  have bl: "\<not> in_log (lstart s) (nat (lsize s)) b" using assms(1) bh by (auto simp: log_ok_def)
  have kt: "?k < nat (lh_n t)" "lh_sector t ! ?k = b" using st(2,14,15) G by (auto split: if_splits)
  have geo: "log_geom t" using g gd st by (auto simp: log_geom_def)
  have slots: "memdisk t (slot (lstart s) j) = view t (lh_sector t ! j)" if j: "j < nat (lh_n t)" "lh_sector t ! j \<notin> held t" for j
  proof -
    have jk: "j \<noteq> ?k" using j(2) kt(2) st(5) bh by auto
    then have j': "j < nat (lh_n s)" "lh_sector t ! j = lh_sector s ! j" using j(1) st(14,15) G(7) by (auto split: if_splits)
    then have js: "lh_sector s ! j \<in> set (logged s)" using set_logged [OF g] by blast
    have j1: "j + 1 < nat (lsize s)" using j'(1) G(5) by linarith
    have "slot (lstart s) ?k \<noteq> lh_sector s ! j" using js assms(1) S(1) [OF st(1)] by (auto simp: log_ok_def)
    moreover have "slot (lstart s) j \<noteq> slot (lstart s) ?k" using S(4) [OF j1 st(1)] jk by simp
    ultimately show ?thesis using assms(1) j(2) j' st(4,5,12) by (simp add: log_ok_def)
  qed
  show "log_ok d t"
    unfolding log_ok_def st(8,9)
    using geo lg st(5,6,12) assms(1,3) bl slots S(1,2) [OF st(1)] by (auto simp: log_ok_def)
  have "\<forall>i < nat (lh_n t). \<forall>j < nat (lh_n t). i \<noteq> j \<longrightarrow> lh_sector t ! i \<noteq> lh_sector t ! j"
    using lg(2) log_geomD(4,6) [OF geo] by (simp add: logged_def distinct_conv_nth)
  then have "j = ?k" if "j < nat (lh_n t)" "lh_sector t ! j = b" for j using that kt by metis
  then show "clean t b" using lg(1) st(4,8,12) S(1) [OF st(1)] bl by (auto simp: clean_def)
qed

subsection \<open>What a disk means\<close>

text \<open>
  The sectors that the header on disk \<open>D\<close> commits, with their new contents, and the disk that
  recovery makes of \<open>D\<close>.
\<close>

type_synonym disk = "uint \<Rightarrow> uchar list"

definition committed :: "uint \<Rightarrow> disk \<Rightarrow> (uint \<times> uchar list) list" where
  "committed st D = map (\<lambda>i. (get32 (D st) (4 + 4 * i), D (slot st i))) [0..<unat (get32 (D st) 0)]"

definition settled :: "uint \<Rightarrow> disk \<Rightarrow> disk" where
  "settled st D = redo (committed st D) D"

text \<open>A disk that recovery can work on.\<close>

definition sound :: "uint \<Rightarrow> nat \<Rightarrow> uint \<Rightarrow> disk \<Rightarrow> bool" where
  "sound st m ds D \<longleftrightarrow> unat (get32 (D st) 0) < m \<and> distinct (map fst (committed st D)) \<and>
     (\<forall>c \<in> fst ` set (committed st D). \<not> in_log st m c \<and> c < ds \<and> c \<noteq> 1) \<and> (\<forall>b. length (D b) = 512) \<and>
     sb_size (sb_of (D 1)) - sb_nlog (sb_of (D 1)) = st \<and> sint (sb_nlog (sb_of (D 1))) = int m"

definition agree :: "uint \<Rightarrow> nat \<Rightarrow> disk \<Rightarrow> disk \<Rightarrow> bool" where
  "agree st m D E \<longleftrightarrow> (\<forall>b. \<not> in_log st m b \<longrightarrow> D b = E b)"

lemma agree_trans: "agree st m D E \<Longrightarrow> agree st m E F \<Longrightarrow> agree st m D F"
  by (simp add: agree_def)

text \<open>A write outside the log, or to a slot while the header is empty, keeps what the header commits.\<close>

lemma redo_take_other: "b \<notin> fst ` set ws \<Longrightarrow> redo (take k ws) d b = d b"
  by (rule redo_other) (auto dest: in_set_takeD)

lemma redo_twice:
  assumes "distinct (map fst ws)"
  shows "redo ws (redo (take k ws) d) = redo ws d"
proof
  fix b
  show "redo ws (redo (take k ws) d) b = redo ws d b"
  proof (cases "b \<in> fst ` set ws")
    case True
    then obtain x where "(b, x) \<in> set ws" by auto
    then show ?thesis by (simp add: redo_in [OF assms])
  qed (simp add: redo_other redo_take_other)
qed

lemma length_redo:
  "\<forall>b. length (d b) = 512 \<Longrightarrow> \<forall>x \<in> set ws. length (snd x) = 512 \<Longrightarrow> length (redo ws d b) = 512"
  by (induction ws arbitrary: d) auto

lemma committed_length: "sound st m ds D \<Longrightarrow> x \<in> set (committed st D) \<Longrightarrow> length (snd x) = 512"
  by (auto simp: committed_def sound_def)

text \<open>Any part of an installation leaves recovery the same work with the same result.\<close>

lemma installing:
  fixes k :: nat
  assumes "geom st m ds" "sound st m ds D"
  defines "D' \<equiv> redo (take k (committed st D)) D"
  shows "sound st m ds D'" "settled st D' = settled st D"
proof -
  let ?ws = "committed st D"
  have out: "c \<notin> fst ` set ?ws" if "in_log st m c \<or> c = 1" for c using assms(2) that by (auto simp: sound_def)
  then have same: "D' c = D c" if "in_log st m c \<or> c = 1" for c using that unfolding D'_def by (intro redo_take_other) blast
  have hd: "D' st = D st" using same head_facts(1) [OF assms(1)] by blast
  have c: "committed st D' = ?ws"
    unfolding committed_def hd
  proof (rule map_cong [OF refl])
    fix i assume "i \<in> set [0..<unat (get32 (D st) 0)]"
    then have "i + 1 < m" using assms(2) by (simp add: sound_def)
    then show "(get32 (D st) (4 + 4 * i), D' (slot st i)) = (get32 (D st) (4 + 4 * i), D (slot st i))"
      using same slot_facts(1) [OF assms(1)] by simp
  qed
  have "length (D' b) = 512" for b
    unfolding D'_def using assms(2) committed_length [OF assms(2)]
    by (intro length_redo) (auto simp: sound_def dest: in_set_takeD)
  then show "sound st m ds D'" using assms(2) same [of 1] by (simp add: sound_def c hd)
  show "settled st D' = settled st D" unfolding settled_def c unfolding D'_def
    by (rule redo_twice) (use assms(2) in \<open>simp add: sound_def\<close>)
qed

text \<open>A disk with an empty header stands for itself.\<close>

lemma empty_header:
  assumes "get32 (D st) 0 = 0"
  shows "committed st D = []" "settled st D = D"
  using assms by (simp_all add: committed_def settled_def)

lemma sound_empty:
  assumes "geom st m ds" "sound st m ds E" "get32 (D st) 0 = 0" "\<And>b. length (D b) = 512" "D 1 = E 1"
  shows "sound st m ds D"
  using assms by (simp add: sound_def empty_header geom_def)

lemma settled_one: "sound st m ds D \<Longrightarrow> settled st D 1 = D 1"
  unfolding settled_def by (rule redo_other) (auto simp: sound_def)

subsection \<open>Installing and erasing\<close>

text \<open>
  The header on the disk commits what the log in memory holds; \<open>finish\<close> is the rest of a commit
  and of a recovery.
\<close>

definition finish :: "'z log_scheme \<Rightarrow> 'z log_scheme outcome" where
  "finish s = ebind (install_trans s) (\<lambda>s. write_head (s\<lparr>lh_n := 0\<rparr>))"

lemma finish_ok:
  assumes "cache_ok s" "ldev s = 1" "geom (lstart s) m (disksize s)" "lsize s = int m" "held s = {}"
    "\<And>b. in_log (lstart s) m b \<Longrightarrow> b \<notin> pinned s" "sound (lstart s) m (disksize s) (memdisk s)"
    "map fst (committed (lstart s) (memdisk s)) = logged s" "length (lh_sector s) = LOGSIZE" "pinned s = {} \<or> pinned s = set (logged s)"
    "lh_n s = int (unat (get32 (memdisk s (lstart s)) 0))"
  obtains t h where "finish s = Inr t" "log_ok (memdisk t) t" "lh_n t = 0" "held t = {}" "pinned t = {}"
    "lstart t = lstart s" "lsize t = lsize s" "disksize t = disksize s" "get32 h 0 = 0" "length h = 512"
    "dwrites t = dwrites s @ committed (lstart s) (memdisk s) @ [(lstart s, h)]"
    "memdisk t = (settled (lstart s) (memdisk s))(lstart s := h)"
proof -
  let ?st = "lstart s" and ?n = "nat (lh_n s)" and ?ws = "committed (lstart s) (memdisk s)"
  have n: "?n < m" "m \<le> NBUF" using assms(3,7,11) by (simp_all add: sound_def geom_def)
  then have n': "?n < LOGSIZE" "?n < NBUF" by (simp_all add: NBUF_def LOGSIZE_def)
  have lg: "logged s = map (\<lambda>i. lh_sector s ! i) [0..<?n]"
    using n'(1) assms(9) by (simp add: logged_def list_eq_iff_nth_eq)
  have ws: "?ws = map (\<lambda>i. (lh_sector s ! i, memdisk s (slot ?st i))) [0..<?n]"
  proof -
    have "get32 (memdisk s ?st) (4 + 4 * i) = lh_sector s ! i" if "i < ?n" for i
      using arg_cong [OF assms(8), of "\<lambda>l. l ! i"] that assms(11) unfolding lg by (simp add: committed_def)
    then show ?thesis using assms(11) by (simp add: committed_def)
  qed
  have sec: "i + 1 < m \<and> \<not> in_log ?st m (lh_sector s ! i) \<and> lh_sector s ! i < disksize s" if "i \<in> set [0..<?n]" for i
    using that n(1) assms(7) unfolding sound_def ws by (auto simp: image_image)
  have pin: "card (pinned s) < NBUF" using assms(10) n'(2) card_length [of "logged s"] lg by (auto simp: NBUF_def)
  have pin': "pinned s = {} \<or> (\<forall>i \<in> set [0..<?n]. lh_sector s ! i \<in> pinned s)" using assms(10) lg by auto
  have dis: "distinct (map (\<lambda>i. lh_sector s ! i) [0..<?n])" using assms(7,8) lg by (simp add: sound_def)
  obtain t where t: "install_trans s = Inr t" "cache_ok t" "keeps s t" "held t = {}"
    "pinned t = pinned s - set (logged s)" "dwrites t = dwrites s @ ?ws" "memdisk t = redo ?ws (memdisk s)"
    using install_steps [OF assms(1-3,5,6) pin sec pin' dis] unfolding ws [symmetric] lg [symmetric] install_trans_def by blast
  let ?u = "t\<lparr>lh_n := 0\<rparr>"
  note k = keeps_log [OF t(3)] keeps_fields [OF t(3)]
  have pt: "pinned t = {}" using t(5) assms(10) by auto
  have cc: "cache_ok ?u = cache_ok t" "view ?u = view t" "held ?u = held t" "pinned ?u = pinned t"
    by (rule cache_cong; simp)+
  define h where "h = head_data 0 (lh_sector s) (view t ?st)"
  have h: "get32 h 0 = 0" "length h = 512" using head_data_facts [OF length_view [OF t(2)], of 0] by (simp_all add: h_def)
  obtain v where v: "write_head ?u = Inr v" "cache_ok v" "keeps ?u v" "memdisk v = (memdisk t)(?st := h)"
    "dwrites v = dwrites t @ [(?st, h)]" "held v = {}" "pinned v = {}"
    using write_head_ok [of ?u] assms(2) head_facts(2) [OF assms(3)] k cc t(2,4) pt by (auto simp: h_def NBUF_def)
  note k' = keeps_log [OF v(3)] keeps_fields [OF v(3)]
  have "log_ok (memdisk v) v"
    using v(2,4,6,7) k k' h assms(2-4,9) n(1) by (auto simp: log_ok_def log_geom_def logged_def)
  moreover have "memdisk v = (settled ?st (memdisk s))(?st := h)" by (simp add: v(4) t(7) settled_def)
  ultimately show thesis
    by (intro that [of v h]) (use v h k k' t in \<open>simp_all add: finish_def\<close>)
qed

lemma commit_trans_finish:
  "commit_trans s = ebind (if lh_n s > 0 then ebind (write_head s) finish else Inr s)
     (\<lambda>s. Inr (wakeup (Some ChLog) (s\<lparr>lbusy := False\<rparr>)))"
  by (simp add: commit_trans_def finish_def [abs_def])

lemma recover_from_log_finish: "recover_from_log s = ebind (read_head s) finish"
  by (simp add: recover_from_log_def finish_def [abs_def])

text \<open>The header that a commit writes.\<close>

lemma commit_point:
  assumes "log_ok d s" "held s = {}" "sound (lstart s) (nat (lsize s)) (disksize s) (memdisk s)"
  defines "h \<equiv> head_data (nat (lh_n s)) (lh_sector s) (view s (lstart s))"
  defines "D \<equiv> (memdisk s)(lstart s := h)"
  shows "sound (lstart s) (nat (lsize s)) (disksize s) D" "map fst (committed (lstart s) D) = logged s"
    "agree (lstart s) (nat (lsize s)) (settled (lstart s) D) (view s)" "unat (get32 (D (lstart s)) 0) = nat (lh_n s)"
proof -
  let ?st = "lstart s" and ?m = "nat (lsize s)" and ?n = "nat (lh_n s)"
  have g: "log_geom s" using assms(1) by (simp add: log_ok_def)
  note G = log_geomD [OF g]
  note hd = head_data_facts [OF length_view [OF G(1)], of ?n]
  have n: "?n \<le> LOGSIZE" "?n < 2 ^ 32" using G(6) by (simp_all add: LOGSIZE_def)
  have nm: "?n < ?m" using G(5) by linarith
  have h: "length h = 512" "get32 h 0 = of_nat ?n" "\<And>i. i < ?n \<Longrightarrow> get32 h (4 + 4 * i) = lh_sector s ! i"
    using hd n(1) by (simp_all add: h_def)
  show u: "unat (get32 (D ?st) 0) = ?n" using h(2) n(2) by (simp add: D_def unat_of_nat)
  have sl: "D (slot ?st i) = memdisk s (slot ?st i)" if "i < ?n" for i
    using slot_facts(2) [OF G(3), of i] that nm by (simp add: D_def)
  have ws: "committed ?st D = map (\<lambda>i. (lh_sector s ! i, memdisk s (slot ?st i))) [0..<?n]"
    unfolding committed_def u by (rule map_cong) (use h(3) sl in \<open>auto simp: D_def\<close>)
  show lg: "map fst (committed ?st D) = logged s"
    unfolding ws using n(1) G(4) by (simp add: logged_def list_eq_iff_nth_eq)
  have mem: "\<not> in_log ?st ?m c \<and> c < disksize s \<and> c \<noteq> 1" if "c \<in> set (logged s)" for c
    using assms(1) that avail_pinned [OF G(1), of c] by (auto simp: log_ok_def)
  have one: "D 1 = memdisk s 1" using head_facts(1,3) [OF G(3)] by (auto simp: D_def)
  have len: "length (D b) = 512" for b using h(1) cache_okD(3) [OF G(1)] by (simp add: D_def)
  show "sound ?st ?m (disksize s) D"
    using assms(1,3) mem one len lg u nm unfolding sound_def set_map [symmetric] lg by (simp add: log_ok_def)
  have dis: "distinct (map fst (committed ?st D))" using lg assms(1) by (simp add: log_ok_def)
  show "agree ?st ?m (settled ?st D) (view s)"
    unfolding agree_def
  proof (intro allI impI)
    fix b assume b: "\<not> in_log ?st ?m b"
    show "settled ?st D b = view s b"
    proof (cases "b \<in> set (logged s)")
      case True
      then obtain k where k: "k < ?n" "lh_sector s ! k = b" using set_logged [OF g] by blast
      then have "(b, memdisk s (slot ?st k)) \<in> set (committed ?st D)" unfolding ws by auto
      moreover have "memdisk s (slot ?st k) = view s b" using assms(1,2) k by (auto simp: log_ok_def)
      ultimately show ?thesis unfolding settled_def using redo_in [OF dis] by metis
    next
      case False
      then have "settled ?st D b = D b" unfolding settled_def by (intro redo_other) (simp flip: lg)
      also have "\<dots> = view s b"
        using b False assms(1,2) head_facts(1) [OF G(3)] view_unpinned [OF G(1)] by (auto simp: D_def log_ok_def)
      finally show ?thesis .
    qed
  qed
qed

lemma erased:
  assumes "geom st m ds" "sound st m ds D" "get32 h 0 = 0" "length h = 512"
  defines "E \<equiv> (settled st D)(st := h)"
  shows "sound st m ds E" "settled st E = E" "agree st m E (settled st D)"
proof -
  have "E 1 = D 1" using head_facts(1,3) [OF assms(1)] settled_one [OF assms(2)] by (auto simp: E_def)
  moreover have "length (E b) = 512" for b
    using assms(2,4) committed_length [OF assms(2)] by (auto simp: E_def settled_def sound_def intro!: length_redo)
  ultimately show "sound st m ds E" by (intro sound_empty [OF assms(1,2)]) (simp_all add: E_def assms(3))
  show "settled st E = E" by (rule empty_header) (simp add: E_def assms(3))
  show "agree st m E (settled st D)" using head_facts(1) [OF assms(1)] by (auto simp: E_def agree_def)
qed

text \<open>Stopping anywhere while \<open>finish\<close> runs.\<close>

lemma finish_stopped:
  assumes "geom st m ds" "sound st m ds D" "get32 h 0 = 0" "length h = 512"
  defines "E \<equiv> \<lambda>k. redo (take k (committed st D @ [(st, h)])) D"
  shows "sound st m ds (E k) \<and> agree st m (settled st (E k)) (settled st D)"
proof (cases "k \<le> length (committed st D)")
  case True
  then have "E k = redo (take k (committed st D)) D" by (simp add: E_def)
  then show ?thesis using installing [OF assms(1,2), of k] by (simp add: agree_def)
next
  case False
  then have "E k = (settled st D)(st := h)" by (simp add: E_def redo_append settled_def)
  then show ?thesis using erased [OF assms(1-4)] by simp
qed

lemma log_ok_aside:
  assumes "log_ok d s" "log_same s t" "bufs t = bufs s" "memdisk t = memdisk s"
  shows "log_ok d t"
proof -
  have "disksize t = disksize s" using assms(2) by (simp add: log_same_def)
  note c = cache_cong [OF assms(3) this assms(4)]
  show ?thesis by (rule log_okI [OF assms(1,2)]) (use assms(1,4) c in \<open>auto simp: log_ok_def log_geom_def\<close>)
qed

lemma end_trans:
  fixes s :: "'z log_scheme"
  defines "t \<equiv> wakeup (Some ChLog) (s\<lparr>lbusy := False\<rparr>)"
  shows "log_same s t" "held t = held s" "bufs t = bufs s" "memdisk t = memdisk s" "dwrites t = dwrites s" "lh_n t = lh_n s"
    "log_ok d s \<Longrightarrow> log_ok d t"
proof -
  show f: "log_same s t" "bufs t = bufs s" "memdisk t = memdisk s" "dwrites t = dwrites s" "lh_n t = lh_n s"
    by (simp_all add: t_def log_same_def wakeup_eq)
  show "held t = held s" by (rule cache_cong) (use f in \<open>simp_all add: log_same_def\<close>)
  show "log_ok d s \<Longrightarrow> log_ok d t" using f log_ok_aside by blast
qed

lemma commit_ok:
  assumes "log_ok d s" "held s = {}" "sound (lstart s) (nat (lsize s)) (disksize s) (memdisk s)"
  obtains t ws where "commit_trans s = Inr t" "dwrites t = dwrites s @ ws" "log_ok (memdisk t) t" "lh_n t = 0" "held t = {}"
    "memdisk t = redo ws (memdisk s)" "agree (lstart s) (nat (lsize s)) (memdisk t) (view s)"
    "\<And>k D. D = redo (take k ws) (memdisk s) \<Longrightarrow> sound (lstart s) (nat (lsize s)) (disksize s) D \<and>
      (agree (lstart s) (nat (lsize s)) (settled (lstart s) D) d \<or> agree (lstart s) (nat (lsize s)) (settled (lstart s) D) (view s))"
proof -
  let ?st = "lstart s" and ?m = "nat (lsize s)" and ?ds = "disksize s"
  have g: "log_geom s" and emp: "get32 (memdisk s ?st) 0 = 0" using assms(1) by (auto simp: log_ok_def)
  note G = log_geomD [OF g]
  have old: "agree ?st ?m (settled ?st (memdisk s)) d" 
    using assms(1) empty_header(2) [of "memdisk s" ?st] emp by (simp add: agree_def log_ok_def)
  let ?fin = "\<lambda>s. wakeup (Some ChLog) (s\<lparr>lbusy := False\<rparr>)"
  show thesis
  proof (cases "0 < lh_n s")
    case False
    then have n: "lh_n s = 0" using g by (simp add: log_geom_def)
    then have "log_ok (memdisk s) s" "view s = memdisk s"
      using assms(1,2) view_unpinned [OF G(1)] by (auto simp: log_ok_def logged_def)
    then show thesis using False n assms(2,3) old end_trans [where s = s]
      by (intro that [of "?fin s" "[]"]) (auto simp: commit_trans_finish agree_def)
  next
    case True
    define h where "h = head_data (nat (lh_n s)) (lh_sector s) (view s ?st)"
    have hn: "?st \<notin> pinned s" using assms(1) head_facts(1) [OF G(3)] by (auto simp: log_ok_def)
    have p: "pinned s = set (logged s)" using assms(1) by (simp add: log_ok_def)
    obtain u where u: "write_head s = Inr u" "cache_ok u" "keeps s u" "memdisk u = (memdisk s)(?st := h)"
      "dwrites u = dwrites s @ [(?st, h)]" "held u = {}" "pinned u = pinned s"
      using write_head_ok [OF G(1,2) head_facts(2) [OF G(3)]] G(6) assms(2) hn p card_logged [OF g] by (auto simp: h_def)
    note k = keeps_log [OF u(3)] keeps_fields [OF u(3)]
    note cp = commit_point [OF assms, folded h_def, folded u(4)]
    have lg: "logged u = logged s" by (simp add: logged_def k)
    obtain t h0 where t: "finish u = Inr t" "log_ok (memdisk t) t" "lh_n t = 0" "held t = {}" "lstart t = ?st" "lsize t = lsize s" "disksize t = ?ds"
      "get32 h0 0 = 0" "length h0 = 512" "dwrites t = dwrites u @ committed ?st (memdisk u) @ [(?st, h0)]"
      "memdisk t = (settled ?st (memdisk u))(?st := h0)"
    proof (rule finish_ok [of u ?m])
      show "\<And>b. in_log (lstart u) ?m b \<Longrightarrow> b \<notin> pinned u" using assms(1) unfolding u(7) k log_ok_def by blast
      show "lh_n u = int (unat (get32 (memdisk u (lstart u)) 0))" using cp(4) G(7) k by simp
      show "lsize u = int ?m" using g by (simp add: k log_geom_def)
    qed (use u k G cp lg p that in simp_all)
    let ?ws = "(?st, h) # committed ?st (memdisk u) @ [(?st, h0)]"
    have stop: "sound ?st ?m ?ds D \<and> (agree ?st ?m (settled ?st D) d \<or> agree ?st ?m (settled ?st D) (view s))"
      if D: "D = redo (take j ?ws) (memdisk s)" for j D
    proof (cases j)
      case 0
      then show ?thesis using D assms(3) old by simp
    next
      case (Suc i)
      then have "D = redo (take i (committed ?st (memdisk u) @ [(?st, h0)])) (memdisk u)" using D u(4) by simp
      then show ?thesis using finish_stopped [OF G(3) cp(1) t(8,9), of i] cp(3) agree_trans by blast
    qed
    have "memdisk t = redo ?ws (memdisk s)" by (simp add: t(11) u(4) redo_append settled_def)
    moreover have "agree ?st ?m (memdisk t) (view s)" using erased(3) [OF G(3) cp(1) t(8,9)] cp(3) agree_trans unfolding t(11) by blast
    ultimately show thesis
      by (intro that [of "?fin t" ?ws]) (use u(1,5) t True stop end_trans [where s = t] in \<open>simp_all add: commit_trans_finish\<close>)
  qed
qed

subsection \<open>Recovery\<close>

lemma readsb_ok:
  assumes "cache_ok s" "held s = {}" "pinned s = {}" "1 < disksize s"
  obtains t where "readsb ROOTDEV s = Inr (sb_of (memdisk s 1), t)" "cache_ok t" "keeps s t" "view t = view s" "memdisk t = memdisk s"
    "dwrites t = dwrites s" "held t = {}" "pinned t = {}"
proof -
  have "1 \<notin> held s" "1 < disksize s \<and> room s 1" using assms room_card [OF assms(1)] by (auto simp: NBUF_def)
  then obtain i t u where r: "bread 1 1 s = Inr (i, t)" "data (bufs t i) = view s 1" "brelse i t = Inr u"
    and u: "cache_ok u" "keeps s u" "view u = view s" "memdisk u = memdisk s" "dwrites u = dwrites s" "held u = held s" "pinned u = pinned s"
    using cache.peek [OF assms(1), of 1] by metis
  have "view s 1 = memdisk s 1" using view_unpinned [OF assms(1)] assms by simp
  then show thesis using that [of u] r u assms(2,3) by (simp add: readsb_def ROOTDEV_def)
qed

lemma read_head_ok:
  fixes s :: "'z log_scheme"
  assumes "cache_ok s" "held s = {}" "pinned s = {}" "lstart s < disksize s" "ldev s = 1" "length (lh_sector s) = LOGSIZE"
    "n = unat (get32 (memdisk s (lstart s)) 0)" "n < LOGSIZE"
  obtains t where "read_head s = Inr t" "cache_ok t" "memdisk t = memdisk s" "dwrites t = dwrites s" "held t = {}" "pinned t = {}"
    "lh_n t = int n" "logged t = map (\<lambda>i. get32 (memdisk s (lstart s)) (4 + 4 * i)) [0..<n]" "length (lh_sector t) = LOGSIZE"
    "lstart t = lstart s" "lsize t = lsize s" "ldev t = 1" "disksize t = disksize s"
proof -
  let ?d = "memdisk s (lstart s)"
  define f where "f = (\<lambda>s :: 'z log_scheme. s\<lparr>lh_n := int n, lh_sector := fold (\<lambda>i l. l[i := get32 ?d (4 + 4 * i)]) [0..<n] (lh_sector s)\<rparr>)"
  have "lstart s \<notin> held s" "lstart s < disksize s \<and> room s (lstart s)" using assms room_card [OF assms(1)] by (auto simp: NBUF_def)
  then obtain i t where t: "bread 1 (lstart s) s = Inr (i, t)" "cache_ok t" "keeps s t" "view t = view s" "memdisk t = memdisk s"
    "dwrites t = dwrites s" "held t = insert (lstart s) (held s)" "pinned t = pinned s" "owns t i (lstart s)"
    using bread_law [OF assms(1)] by blast
  have v: "view s (lstart s) = ?d" using view_unpinned [OF assms(1)] assms(2,3) by simp
  have d: "data (bufs t i) = ?d" using t(4,9) view_at [OF t(2)] v by (metis owns_def)
  have cc: "cache_ok (f t) = cache_ok t" "view (f t) = view t" "held (f t) = held t" "pinned (f t) = pinned t" "owns (f t) = owns t"
    by (rule cache_cong; simp add: f_def)+
  have md: "memdisk (f t) = memdisk t" "dwrites (f t) = dwrites t" by (simp_all add: f_def)
  obtain u where u: "brelse i (f t) = Inr u" "cache_ok u" "keeps (f t) u" "memdisk u = memdisk (f t)" "dwrites u = dwrites (f t)"
    "held u = held (f t) - {lstart s}" "pinned u = pinned (f t)"
    using brelse_law [of "f t" i "lstart s"] cc md t v by auto
  have sn: "sint (get32 ?d 0) = int n"
  proof -
    have "uint (get32 ?d 0) = int n" unfolding assms(7) by (rule uint_nat)
    then show ?thesis using assms(8) by (simp add: sint_uint LOGSIZE_def signed_take_bit_int_eq_self)
  qed
  note k = keeps_log [OF t(3)] keeps_fields [OF t(3)] and k' = keeps_log [OF u(3)] keeps_fields [OF u(3)]
  have rh: "read_head s = Inr u"
    using t(1) d sn assms(5,8) u(1) by (simp add: read_head_def f_def Let_def)
  have sec: "lh_sector u = fold (\<lambda>i l. l[i := get32 ?d (4 + 4 * i)]) [0..<n] (lh_sector s)" "lh_n u = int n"
    using k(6) k'(5,6) by (simp_all add: f_def)
  note fl = fold_list_update [where n = n and l = "lh_sector s" and f = "\<lambda>i. get32 ?d (4 + 4 * i)"]
  have lu: "length (lh_sector u) = LOGSIZE" "logged u = map (\<lambda>i. get32 ?d (4 + 4 * i)) [0..<n]"
    unfolding logged_def sec using fl assms(6,8) by (auto intro!: nth_equalityI)
  have fs: "lstart (f t) = lstart t" "lsize (f t) = lsize t" "ldev (f t) = ldev t" "disksize (f t) = disksize t"
    by (simp_all add: f_def)
  show thesis
    by (rule that [OF rh u(2) _ _ _ _ sec(2) lu(2,1)]) (use u(4-7) t(5-8) cc md k k' fs assms(2,3,5) in simp_all)
qed

lemma initlog_ok:
  assumes "cache_ok s" "held s = {}" "pinned s = {}" "length (lh_sector s) = LOGSIZE" "geom st m (disksize s)"
    "sound st m (disksize s) (memdisk s)"
  obtains t h where "initlog s = Inr t" "log_ok (memdisk t) t" "lh_n t = 0" "held t = {}" "lstart t = st" "lsize t = int m"
    "disksize t = disksize s" "get32 h 0 = 0" "length h = 512" "dwrites t = dwrites s @ committed st (memdisk s) @ [(st, h)]"
    "memdisk t = (settled st (memdisk s))(st := h)"
proof -
  let ?D = "memdisk s"
  have ds: "1 < disksize s" using assms(5) by (simp add: geom_def word_less_nat_alt)
  obtain t where t: "readsb ROOTDEV s = Inr (sb_of (?D 1), t)" "cache_ok t" "keeps s t" "memdisk t = ?D"
    "dwrites t = dwrites s" "held t = {}" "pinned t = {}"
    by (rule readsb_ok [OF assms(1-3) ds])
  let ?u = "t\<lparr>lstart := st, lsize := int m, ldev := ROOTDEV\<rparr>"
  have cc: "cache_ok ?u = cache_ok t" "held ?u = held t" "pinned ?u = pinned t" by (rule cache_cong; simp)+
  note k = keeps_log [OF t(3)] keeps_fields [OF t(3)]
  let ?n = "unat (get32 (?D st) 0)"
  have n: "?n < LOGSIZE" using assms(5,6) by (simp add: sound_def geom_def NBUF_def LOGSIZE_def)
  obtain v where v: "read_head ?u = Inr v" "cache_ok v" "memdisk v = ?D" "dwrites v = dwrites s" "held v = {}" "pinned v = {}"
    "lh_n v = int ?n" "logged v = map (\<lambda>i. get32 (?D st) (4 + 4 * i)) [0..<?n]" "length (lh_sector v) = LOGSIZE"
    "lstart v = st" "lsize v = int m" "ldev v = 1" "disksize v = disksize s"
    by (rule read_head_ok [of ?u ?n]) (use t cc k assms head_facts(2) [OF assms(5)] n that in \<open>simp_all add: ROOTDEV_def\<close>)
  have lg: "map fst (committed st ?D) = logged v" by (simp add: committed_def v(8))
  obtain w h where w: "finish v = Inr w" "log_ok (memdisk w) w" "lh_n w = 0" "held w = {}" "pinned w = {}" "lstart w = st" "lsize w = int m"
    "disksize w = disksize s" "get32 h 0 = 0" "length h = 512" "dwrites w = dwrites v @ committed st ?D @ [(st, h)]" "memdisk w = (settled st ?D)(st := h)"
    by (rule finish_ok [of v m]) (use v lg assms(5,6) that in simp_all)
  have "initlog s = finish v"
    using t(1) v(1) assms(6) by (simp add: initlog_def recover_from_log_finish sound_def LOGSIZE_def BSIZE_def)
  then show thesis using that [of w h] w v(4) by simp
qed

subsection \<open>Transactions and crashes\<close>

text \<open>
  What system calls do between \<open>begin_trans\<close> and \<open>commit_trans\<close>, alone or interleaved with calls
  that only read: lock a sector, change the copy, log it, release it, and anything that concerns
  neither the cache nor the log.  Sector 1 is the super block.
\<close>

inductive tx :: "'z log_scheme \<Rightarrow> 'z log_scheme \<Rightarrow> bool" where
  lock: "\<not> in_log (lstart s) (nat (lsize s)) b \<Longrightarrow> bread 1 b s = Inr (i, t) \<Longrightarrow> tx s t"
| change: "owns s i b \<Longrightarrow> length x = 512 \<Longrightarrow> tx s (set_data i x s)"
| logw: "owns s i b \<Longrightarrow> b \<noteq> 1 \<Longrightarrow> log_write i s = Inr t \<Longrightarrow> tx s t"
| unlock: "owns s i b \<Longrightarrow> clean s b \<Longrightarrow> brelse i s = Inr t \<Longrightarrow> tx s t"
| aside: "log_same s t \<Longrightarrow> bufs t = bufs s \<Longrightarrow> memdisk t = memdisk s \<Longrightarrow> dwrites t = dwrites s \<Longrightarrow> tx s t"

text \<open>Start the machine with disk \<open>D\<close>.\<close>

definition reboot :: "uint \<Rightarrow> disk \<Rightarrow> log" where
  "reboot ds D = binit (boot_log\<lparr>disksize := ds, memdisk := D, dwrites := []\<rparr>)"

text \<open>The disk after any number of crashes during recovery.\<close>

inductive crashed :: "uint \<Rightarrow> disk \<Rightarrow> disk \<Rightarrow> bool" where
  once: "crashed ds D D"
| again: "crashed ds D E \<Longrightarrow> initlog (reboot ds E) = Inr t \<Longrightarrow> crashed ds D (redo (take k (dwrites t)) E)"

text \<open>All writes of a transaction before its commit go to free slots of the log.\<close>

definition tx_inv :: "'z log_scheme \<Rightarrow> 'z log_scheme \<Rightarrow> bool" where
  "tx_inv s t \<longleftrightarrow> log_ok (memdisk s) t \<and> lstart t = lstart s \<and> lsize t = lsize s \<and> disksize t = disksize s \<and>
     (\<exists>ws. dwrites t = dwrites s @ ws \<and> memdisk t = redo ws (memdisk s) \<and>
        (\<forall>(b, x) \<in> set ws. length x = 512 \<and> (\<exists>k. k + 1 < nat (lsize s) \<and> b = slot (lstart s) k)))"

lemma tx_inv_keep:
  assumes "tx_inv s t" "log_ok (memdisk s) u" "lstart u = lstart t" "lsize u = lsize t" "disksize u = disksize t" "dwrites u = dwrites t"
    "memdisk u = memdisk t"
  shows "tx_inv s u"
  using assms by (simp add: tx_inv_def)

lemma tx_inv_step:
  assumes "tx_inv s t" "tx t u"
  shows "tx_inv s u"
  using assms(2)
proof cases
  case (lock b i)
  have ok: "log_ok (memdisk s) t" using assms(1) by (simp add: tx_inv_def)
  note r = log_ok_read [OF ok lock]
  show ?thesis by (rule tx_inv_keep [OF assms(1) r(1)]) (use r keeps_log [OF r(2)] keeps_fields [OF r(2)] in auto)
next
  case (change i b x)
  have ok: "log_ok (memdisk s) t" using assms(1) by (simp add: tx_inv_def)
  have "\<not> in_log (lstart t) (nat (lsize t)) b" using ok change(2) by (auto simp: log_ok_def owns_def held_def)
  note r = log_ok_data [OF ok change(2) this change(3)]
  show ?thesis unfolding change(1)
    by (rule tx_inv_keep [OF assms(1) r(1)]) (use keeps_log [OF r(2)] keeps_fields [OF r(2)] in \<open>auto simp: set_data_def\<close>)
next
  case (logw i b)
  have ok: "log_ok (memdisk s) t" and same: "lstart t = lstart s" "lsize t = lsize s" using assms(1) by (simp_all add: tx_inv_def)
  define k where "k = log_index t b"
  note k = log_write_ok(1) [OF ok logw] log_write_state(1,8-10,12,13) [OF ok logw(1,3), folded k_def]
  obtain ws where ws: "dwrites t = dwrites s @ ws" "memdisk t = redo ws (memdisk s)"
      "\<forall>(b, x) \<in> set ws. length x = 512 \<and> (\<exists>k. k + 1 < nat (lsize s) \<and> b = slot (lstart s) k)"
    using assms(1) by (auto simp: tx_inv_def)
  have "length (view t b) = 512" using ok by (intro length_view) (simp add: log_ok_def log_geom_def)
  then show ?thesis unfolding tx_inv_def
    using k ws same assms(1) by (intro conjI exI [of _ "ws @ [(slot (lstart t) k, view t b)]"]) (auto simp: redo_append tx_inv_def)
next
  case (unlock i b)
  have ok: "log_ok (memdisk s) t" using assms(1) by (simp add: tx_inv_def)
  note r = log_ok_relse [OF ok unlock]
  show ?thesis by (rule tx_inv_keep [OF assms(1) r(1)]) (use r keeps_log [OF r(2)] keeps_fields [OF r(2)] in auto)
next
  case aside
  have ok: "log_ok (memdisk s) t" using assms(1) by (simp add: tx_inv_def)
  show ?thesis by (rule tx_inv_keep [OF assms(1) log_ok_aside [OF ok aside(1-3)]]) (use aside in \<open>auto simp: log_same_def\<close>)
qed

lemma reboot_ok:
  assumes "\<And>b. length (D b) = 512"
  shows "cache_ok (reboot ds D)" "held (reboot ds D) = {}" "pinned (reboot ds D) = {}" "memdisk (reboot ds D) = D"
    "disksize (reboot ds D) = ds" "dwrites (reboot ds D) = []" "length (lh_sector (reboot ds D)) = LOGSIZE"
proof -
  let ?s = "boot_log\<lparr>disksize := ds, memdisk := D, dwrites := []\<rparr>"
  have b: "bufs boot_log i = zero_buf" for i by (simp add: boot_log_def boot_bio_def kern.defs bio.defs log.defs)
  have "\<not> busy (bufs ?s i) \<and> \<not> dirty (bufs ?s i) \<and> length (data (bufs ?s i)) = 512" for i by (simp add: b zero_buf_def)
  from cache_ok_binit [OF this] assms
  show "cache_ok (reboot ds D)" "held (reboot ds D) = {}" "pinned (reboot ds D) = {}" "memdisk (reboot ds D) = D"
    "disksize (reboot ds D) = ds" by (simp_all add: reboot_def)
  show "dwrites (reboot ds D) = []" "length (lh_sector (reboot ds D)) = LOGSIZE"
    unfolding reboot_def by (subst only_bufsD [OF only_bufs_binit], simp add: boot_log_def boot_bio_def kern.defs bio.defs log.defs)+
qed

lemma reboot_initlog:
  assumes "geom st m ds" "sound st m ds D"
  obtains t h where "initlog (reboot ds D) = Inr t" "log_ok (memdisk t) t" "lh_n t = 0" "lstart t = st" "lsize t = int m" "held t = {}"
    "disksize t = ds" "get32 h 0 = 0" "length h = 512" "dwrites t = committed st D @ [(st, h)]" "memdisk t = (settled st D)(st := h)"
proof -
  have "\<And>b. length (D b) = 512" using assms(2) by (simp add: sound_def)
  note r = reboot_ok [OF this]
  show thesis
    by (rule initlog_ok [of "reboot ds D" st m]) (use r assms that in simp_all)
qed

lemma crashed_settled:
  assumes "crashed ds D E" "geom st m ds" "sound st m ds D"
  shows "sound st m ds E \<and> agree st m (settled st E) (settled st D)"
  using assms
proof (induction rule: crashed.induct)
  case (again ds D E t k)
  then have E: "sound st m ds E" "agree st m (settled st E) (settled st D)" by simp_all
  obtain t' h where t: "initlog (reboot ds E) = Inr t'" "get32 h 0 = 0" "length h = 512" "dwrites t' = committed st E @ [(st, h)]"
    by (rule reboot_initlog [OF again.prems(1) E(1)])
  then have "dwrites t = committed st E @ [(st, h)]" using again.hyps(2) by simp
  then show ?case using finish_stopped [OF again.prems(1) E(1) t(2,3), of k] E(2) agree_trans by metis
qed (simp add: agree_def)

text \<open>Stopping before the commit.\<close>

lemma slots_stopped:
  assumes "geom st m ds" "sound st m ds D" "get32 (D st) 0 = 0"
    "\<forall>(b, x) \<in> set ws. length x = 512 \<and> (\<exists>k. k + 1 < m \<and> b = slot st k)"
  shows "sound st m ds (redo ws D)" "agree st m (settled st (redo ws D)) D"
proof -
  have out: "b \<notin> fst ` set ws" if "b = st \<or> \<not> in_log st m b" for b
    using that assms(4) slot_facts(1,2) [OF assms(1)] by fastforce
  have hd: "get32 (redo ws D st) 0 = 0" using redo_other [OF out] assms(3) by simp
  have "length (redo ws D b) = 512" for b using assms(2,4) by (intro length_redo) (auto simp: sound_def)
  then show "sound st m ds (redo ws D)"
    using sound_empty [where D = "redo ws D" and E = D, OF assms(1,2) hd] redo_other [OF out] head_facts(3) [OF assms(1)] by simp
  show "agree st m (settled st (redo ws D)) D"
    using empty_header(2) [where D = "redo ws D" and st = st] hd redo_other [OF out] by (simp add: agree_def)
qed

lemma tx_inv_run:
  assumes "log_ok (memdisk s) s" "begin_trans s = Inr t" "tx\<^sup>*\<^sup>* t u"
  shows "tx_inv s u"
  using assms(3)
proof induction
  case base
  have "t = s\<lparr>lbusy := True\<rparr>" using assms(2) by (simp add: begin_trans_def split: if_splits)
  then show ?case using assms(1) log_ok_aside [OF assms(1), of t] by (simp add: tx_inv_def log_same_def)
qed (rule tx_inv_step)

text \<open>
  C1 (safety).  Transactions are atomic.  Take a file system with an empty log, any transaction and its commit,
  and let the machine stop after any number of the sector writes of both.  Then recovery
  succeeds, and outside the log it leaves the disk from before the transaction or the
  disk with everything that the transaction wrote, also if the machine stops again, any number of times, while
  it recovers.  The commit itself succeeds, leaves the whole transaction on the disk and the log ready for the next one.
\<close>

theorem crash_atomic:
  assumes "log_ok (memdisk s) s" "sound (lstart s) (nat (lsize s)) (disksize s) (memdisk s)"
    and "begin_trans s = Inr t" "tx\<^sup>*\<^sup>* t u" "held u = {}"
  defines "same \<equiv> agree (lstart s) (nat (lsize s))"
  shows "\<exists>v ws. commit_trans u = Inr v \<and> dwrites v = dwrites s @ ws \<and>
     log_ok (memdisk v) v \<and> sound (lstart s) (nat (lsize s)) (disksize s) (memdisk v) \<and> same (memdisk v) (view u) \<and>
     (\<forall>k E. crashed (disksize s) (redo (take k ws) (memdisk s)) E \<longrightarrow>
        (\<exists>r. initlog (reboot (disksize s) E) = Inr r \<and> log_ok (memdisk r) r \<and>
          (same (memdisk r) (memdisk s) \<or> same (memdisk r) (view u))))"
proof -
  let ?st = "lstart s" and ?m = "nat (lsize s)" and ?ds = "disksize s" and ?D = "memdisk s"
  have geo: "geom ?st ?m ?ds" and emp: "get32 (?D ?st) 0 = 0" using assms(1) log_geomD(3) by (auto simp: log_ok_def)
  have inv: "tx_inv s u" by (rule tx_inv_run [OF assms(1,3,4)])
  then obtain ws where ws: "dwrites u = dwrites s @ ws" "memdisk u = redo ws ?D"
      "\<forall>(b, x) \<in> set ws. length x = 512 \<and> (\<exists>k. k + 1 < ?m \<and> b = slot ?st k)"
    and ok: "log_ok ?D u" and f: "lstart u = ?st" "lsize u = lsize s" "disksize u = ?ds"
    by (auto simp: tx_inv_def)
  have su: "sound ?st ?m ?ds (memdisk u)" unfolding ws(2) by (rule slots_stopped [OF geo assms(2) emp ws(3)])
  obtain v ws' where v: "commit_trans u = Inr v" "dwrites v = dwrites u @ ws'" "log_ok (memdisk v) v"
    "memdisk v = redo ws' (memdisk u)" "same (memdisk v) (view u)"
    "\<And>k D. D = redo (take k ws') (memdisk u) \<Longrightarrow> sound ?st ?m ?ds D \<and> (same (settled ?st D) ?D \<or> same (settled ?st D) (view u))"
    by (rule commit_ok [OF ok assms(5), unfolded f, OF su, folded same_def], rule that)
  have stop: "sound ?st ?m ?ds D \<and> (same (settled ?st D) ?D \<or> same (settled ?st D) (view u))"
    if D: "D = redo (take k (ws @ ws')) ?D" for k D
  proof (cases "k \<le> length ws")
    case True
    have "\<forall>(b, x) \<in> set (take k ws). length x = 512 \<and> (\<exists>k. k + 1 < ?m \<and> b = slot ?st k)" using ws(3) by (auto dest: in_set_takeD)
    then show ?thesis using slots_stopped [OF geo assms(2) emp] True D by (simp add: same_def)
  next
    case False
    then show ?thesis using D v(6) [OF refl, of "k - length ws"] ws(2) by (simp add: redo_append)
  qed
  have rec: "\<exists>r. initlog (reboot ?ds E) = Inr r \<and> log_ok (memdisk r) r \<and> (same (memdisk r) ?D \<or> same (memdisk r) (view u))"
    if "crashed ?ds (redo (take k (ws @ ws')) ?D) E" for k E
  proof -
    note D = stop [OF refl, of k]
    have E: "sound ?st ?m ?ds E" "same (settled ?st E) (settled ?st (redo (take k (ws @ ws')) ?D))"
      using crashed_settled [OF that geo] D by (auto simp: same_def)
    obtain r h where r: "initlog (reboot ?ds E) = Inr r" "log_ok (memdisk r) r" "get32 h 0 = 0" "length h = 512"
      "memdisk r = (settled ?st E)(?st := h)" by (rule reboot_initlog [OF geo E(1)])
    have "same (memdisk r) (settled ?st (redo (take k (ws @ ws')) ?D))"
      using agree_trans [OF erased(3) [OF geo E(1) r(3,4)]] E(2) unfolding r(5) same_def by blast
    then have "same (memdisk r) ?D \<or> same (memdisk r) (view u)" using D agree_trans unfolding same_def by blast
    then show ?thesis using r(1,2) by blast
  qed
  have "sound ?st ?m ?ds (memdisk v)" using v(6) [OF refl, of "length ws'"] by (simp add: v(4))
  then show ?thesis using v(1-3,5) ws(1) rec by (intro exI [of _ v] exI [of _ "ws @ ws'"]) simp
qed

text \<open>An empty file system of 1024 sectors, and a transaction that fills sector 30 with ones.\<close>

definition empty_disk :: disk where
  "empty_disk b = (if b = 1 then sb_bytes \<lparr>sb_size = 1024, sb_nblocks = 985, sb_ninodes = 200, sb_nlog = 10\<rparr> @ replicate 496 0
     else replicate 512 0)"

lemma empty_disk_sound: "geom 1014 10 1024" "sound 1014 10 1024 empty_disk"
proof -
  show "geom 1014 10 1024" by (simp add: geom_def NBUF_def)
  have "replicate 4 (0 :: uchar) = [0, 0, 0, 0]" by (simp add: numeral_eq_Suc)
  then have "get32 (empty_disk 1014) 0 = 0" by (simp add: empty_disk_def get32_def get_bytes_def of_le32_def)
  moreover have "sb_of (empty_disk 1) = \<lparr>sb_size = 1024, sb_nblocks = 985, sb_ninodes = 200, sb_nlog = 10\<rparr>"
    by (simp add: empty_disk_def sb_of_bytes)
  moreover have "length (empty_disk b) = 512" for b by (simp add: empty_disk_def sb_bytes_def)
  ultimately show "sound 1014 10 1024 empty_disk" by (simp add: sound_def committed_def)
qed

lemma fill_sector:
  assumes "log_ok d s" "lbusy s" "lh_n s = 0" "held s = {}" "lstart s = 1014" "lsize s = 10" "disksize s = 1024"
  obtains t where "tx\<^sup>*\<^sup>* s t" "held t = {}" "view t 30 = replicate 512 1"
proof -
  have ok: "cache_ok s" and p: "pinned s = {}" using assms(1,3) by (auto simp: log_ok_def log_geom_def logged_def)
  have nl: "\<not> in_log (lstart s) (nat (lsize s)) 30" by (simp add: in_log_def assms)
  have "30 < disksize s \<and> room s 30" using room_card [OF ok] p assms(4,7) by (simp add: NBUF_def)
  then obtain i t where t: "bread 1 30 s = Inr (i, t)" "owns t i 30" "held t = {30}" "pinned t = {}"
    using bread_law [OF ok, of 30] assms(4) p by auto
  note lt = log_ok_read [OF assms(1) nl t(1)]
  note kt = keeps_log [OF lt(2)]
  let ?u = "set_data i (replicate 512 1) t"
  have nl': "\<not> in_log (lstart t) (nat (lsize t)) 30" using nl kt by simp
  note lu = log_ok_data [OF lt(1) t(2) nl', of "replicate 512 1", simplified]
  have okt: "cache_ok t" using lt(1) by (simp add: log_ok_def log_geom_def)
  note u = set_data_law [OF okt t(2), of "replicate 512 1", simplified]
  note ku = keeps_log [OF lu(2)]
  have ou: "owns ?u i 30" using u t(2) by simp
  obtain v where v: "log_write i ?u = Inr v"
    using log_write_total [OF lu(1) ou] u t(3,4) ku kt assms(2,3,6) by (auto simp: NBUF_def)
  have one: "30 \<noteq> (1 :: uint)" by simp
  note lv = log_write_ok [OF lu(1) ou one v] and sv = log_write_state [OF lu(1) ou v]
  have "in_log (lstart ?u) (nat (lsize ?u)) (slot (lstart ?u) (log_index ?u 30))"
    by (rule slot_facts(1) [OF log_geomD(3) sv(1)]) (use lu(1) in \<open>simp add: log_ok_def\<close>)
  then have vv: "view v 30 = replicate 512 1" using sv(4) u nl' ku by auto
  obtain w where w: "brelse i v = Inr w" "held w = held v - {30}" "view w = view v"
    using brelse_law [OF sv(3,7)] sv(6) by auto
  have "tx s t" "tx t ?u" "tx ?u v" "tx v w"
    using tx.lock [OF nl t(1)] tx.change [OF t(2)] tx.logw [OF ou one v] tx.unlock [OF sv(7) lv(2) w(1)] by simp_all
  then have "tx\<^sup>*\<^sup>* s w" by (meson rtranclp.rtrancl_refl rtranclp.rtrancl_into_rtrancl)
  then show thesis using that w vv sv(5) u t(3) by simp
qed

theorem crash_atomic_witness:
  "\<exists>s0 s t u v ws r. initlog (reboot 1024 empty_disk) = Inr s0 \<and> s = s0\<lparr>lbusy := False\<rparr> \<and> log_ok (memdisk s) s \<and>
     sound 1014 10 1024 (memdisk s) \<and> begin_trans s = Inr t \<and> tx\<^sup>*\<^sup>* t u \<and> held u = {} \<and> commit_trans u = Inr v \<and>
     dwrites v = dwrites s @ ws \<and> memdisk v 30 = replicate 512 1 \<and>
     initlog (reboot 1024 (redo (take 2 ws) (memdisk s))) = Inr r \<and>
     (agree 1014 10 (memdisk r) (memdisk s) \<or> agree 1014 10 (memdisk r) (view u))"
proof -
  obtain s0 h where s0: "initlog (reboot 1024 empty_disk) = Inr s0" "log_ok (memdisk s0) s0" "lh_n s0 = 0" "lstart s0 = 1014"
    "lsize s0 = int 10" "held s0 = {}" "disksize s0 = 1024" "get32 h 0 = 0" "length h = 512" "memdisk s0 = (settled 1014 empty_disk)(1014 := h)"
    by (rule reboot_initlog [OF empty_disk_sound])
  define s where "s = s0\<lparr>lbusy := False\<rparr>"
  have s: "log_ok (memdisk s) s" "lstart s = 1014" "lsize s = 10" "disksize s = 1024" "lh_n s = 0"
    using log_ok_aside [OF s0(2), of s] s0 by (simp_all add: s_def log_same_def)
  have snd: "sound 1014 10 1024 (memdisk s)" using erased(1) [OF empty_disk_sound s0(8,9)] s0(10) by (simp add: s_def)
  define t where "t = s\<lparr>lbusy := True\<rparr>"
  have b: "begin_trans s = Inr t" by (simp add: begin_trans_def t_def s_def)
  have ht: "held t = held s0" by (rule cache_cong) (simp_all add: t_def s_def)
  have lt: "log_ok (memdisk s) t" by (rule log_ok_aside [OF s(1)]) (simp_all add: t_def log_same_def)
  obtain u where u: "tx\<^sup>*\<^sup>* t u" "held u = {}" "view u 30 = replicate 512 1"
    by (rule fill_sector [OF lt]) (use s s0(6) ht that in \<open>simp_all add: t_def\<close>)
  obtain v ws where v: "commit_trans u = Inr v" "dwrites v = dwrites s @ ws" "agree 1014 10 (memdisk v) (view u)"
    "\<forall>k E. crashed 1024 (redo (take k ws) (memdisk s)) E \<longrightarrow> (\<exists>r. initlog (reboot 1024 E) = Inr r \<and> log_ok (memdisk r) r \<and>
          (agree 1014 10 (memdisk r) (memdisk s) \<or> agree 1014 10 (memdisk r) (view u)))"
    using crash_atomic [OF s(1) _ b u(1,2)] snd unfolding s(2,3,4) by auto
  have "memdisk v 30 = replicate 512 1" using v(3) u(3) by (simp add: agree_def in_log_def)
  then show ?thesis using s0(1) s_def s(1) snd b u(1,2) v crashed.once [of 1024 "redo (take 2 ws) (memdisk s)"] by blast
qed

end
