(* ===== verification/Fs.thy ===== *)
theory Fs
  imports Log
begin

text \<open>
  \<open>fs.c\<close>: the block allocator, the inode cache, the contents of files, directories and paths.
  A pointer to an inode is its slot in \<open>icache\<close>, a name or path is the list of its characters
  without the terminating zero, and the bytes that \<open>readi\<close> stores at \<open>dst\<close> and that \<open>writei\<close> takes
  from \<open>src\<close> are passed as lists.  \<open>devsw\<close> is a table of functions; the routines that use it take
  it as an argument.
\<close>

subsection \<open>State\<close>

definition NINODE :: nat where "NINODE = 50"
definition NDEV :: nat where "NDEV = 10"

text \<open>\<open>struct inode\<close>, with the two bits of \<open>flags\<close> as fields.\<close>

record inode =
  idev :: uint
  inum :: uint
  iref :: int
  ibusy :: bool
  ivalid :: bool
  itype :: ushort
  imajor :: ushort
  iminor :: ushort
  inlink :: ushort
  isize :: uint
  iaddrs :: "uint list"

record fs = log +
  inodes :: "nat \<Rightarrow> inode"

definition upd_inode :: "nat \<Rightarrow> (inode \<Rightarrow> inode) \<Rightarrow> 'z fs_scheme \<Rightarrow> 'z fs_scheme" where
  "upd_inode ip f s = s\<lparr>inodes := (inodes s)(ip := f (inodes s ip))\<rparr>"

definition zero_inode :: inode where
  "zero_inode = \<lparr>idev = 0, inum = 0, iref = 0, ibusy = False, ivalid = False, itype = 0, imajor = 0, iminor = 0,
     inlink = 0, isize = 0, iaddrs = replicate 13 0\<rparr>"

definition boot_fs :: fs where
  "boot_fs = log.extend boot_log (fs.fields (\<lambda>_. zero_inode))"

text \<open>\<open>struct devsw\<close>: the functions of the devices, by major number.\<close>

record 's devsw =
  dev_read :: "nat \<Rightarrow> (nat \<Rightarrow> uint \<Rightarrow> 's \<Rightarrow> (int \<times> uchar list \<times> 's) outcome) option"
  dev_write :: "nat \<Rightarrow> (nat \<Rightarrow> uchar list \<Rightarrow> 's \<Rightarrow> (int \<times> 's) outcome) option"

subsection \<open>Blocks\<close>

definition bzero :: "uint \<Rightarrow> uint \<Rightarrow> 'z log_scheme \<Rightarrow> 'z log_scheme outcome" where
  "bzero dev bno s =
     ebind (bread dev bno s) (\<lambda>(bp, s).
       let s = set_data bp (replicate BSIZE 0) s
       in ebind (log_write bp s) (\<lambda>s. brelse bp s))"

definition bit_mask :: "nat \<Rightarrow> uchar" where
  "bit_mask bi = push_bit (bi mod 8) 1"

text \<open>The inner loop of \<open>balloc\<close>: the first clear bit of a bitmap block among the first \<open>n\<close>.\<close>

definition free_bit :: "uchar list \<Rightarrow> nat \<Rightarrow> nat option" where
  "free_bit d n = List.find (\<lambda>bi. d ! (bi div 8) AND bit_mask bi = 0) [0..<n]"

fun balloc_loop :: "uint \<Rightarrow> superblock \<Rightarrow> nat list \<Rightarrow> 'z log_scheme \<Rightarrow> (uint \<times> 'z log_scheme) outcome" where
  "balloc_loop dev sb [] s = Inl (Panic ''balloc: out of blocks'')"
| "balloc_loop dev sb (b # bs) s =
     ebind (bread dev (BBLOCK (of_nat b) (sb_ninodes sb)) s) (\<lambda>(bp, s).
       let d = data (bufs s bp)
       in case free_bit d (min (unat BPB) (unat (sb_size sb) - b)) of
            Some bi \<Rightarrow>
              let s = set_data bp (d[bi div 8 := d ! (bi div 8) OR bit_mask bi]) s
              in ebind (log_write bp s) (\<lambda>s.
                 ebind (brelse bp s) (\<lambda>s.
                 ebind (bzero dev (of_nat (b + bi)) s) (\<lambda>s.
                   Inr (of_nat (b + bi), s))))
          | None \<Rightarrow> ebind (brelse bp s) (balloc_loop dev sb bs))"

text \<open>The values that \<open>b\<close> takes in the outer loop.\<close>

definition bitmap_starts :: "superblock \<Rightarrow> nat list" where
  "bitmap_starts sb = map (\<lambda>k. k * unat BPB) [0..<(unat (sb_size sb) + unat BPB - 1) div unat BPB]"

definition balloc :: "uint \<Rightarrow> 'z log_scheme \<Rightarrow> (uint \<times> 'z log_scheme) outcome" where
  "balloc dev s = ebind (readsb dev s) (\<lambda>(sb, s). balloc_loop dev sb (bitmap_starts sb) s)"

definition bfree :: "uint \<Rightarrow> uint \<Rightarrow> 'z log_scheme \<Rightarrow> 'z log_scheme outcome" where
  "bfree dev b s =
     ebind (readsb dev s) (\<lambda>(sb, s).
     ebind (bread dev (BBLOCK b (sb_ninodes sb)) s) (\<lambda>(bp, s).
       let d = data (bufs s bp);
           bi = unat (b mod BPB)
       in if d ! (bi div 8) AND bit_mask bi = 0 then Inl (Panic ''freeing free block'')
          else let s = set_data bp (d[bi div 8 := d ! (bi div 8) AND NOT (bit_mask bi)]) s
               in ebind (log_write bp s) (\<lambda>s. brelse bp s)))"

subsection \<open>Inodes\<close>

definition iget :: "uint \<Rightarrow> uint \<Rightarrow> 'z fs_scheme \<Rightarrow> (nat \<times> 'z fs_scheme) outcome" where
  "iget dev i s =
     (case List.find (\<lambda>ip. iref (inodes s ip) > 0 \<and> idev (inodes s ip) = dev \<and> inum (inodes s ip) = i) [0..<NINODE] of
        Some ip \<Rightarrow> Inr (ip, upd_inode ip (\<lambda>n. n\<lparr>iref := iref n + 1\<rparr>) s)
      | None \<Rightarrow>
          (case List.find (\<lambda>ip. iref (inodes s ip) = 0) [0..<NINODE] of
             None \<Rightarrow> Inl (Panic ''iget: no inodes'')
           | Some ip \<Rightarrow>
               Inr (ip, upd_inode ip (\<lambda>n. n\<lparr>idev := dev, inum := i, iref := 1, ibusy := False, ivalid := False\<rparr>) s)))"

text \<open>The offset of an inode in its block.\<close>

definition dinode_off :: "uint \<Rightarrow> nat" where
  "dinode_off i = 64 * unat (i mod IPB)"

fun ialloc_loop :: "uint \<Rightarrow> ushort \<Rightarrow> nat list \<Rightarrow> 'z fs_scheme \<Rightarrow> (nat \<times> 'z fs_scheme) outcome" where
  "ialloc_loop dev ty [] s = Inl (Panic ''ialloc: no inodes'')"
| "ialloc_loop dev ty (i # is) s =
     ebind (bread dev (IBLOCK (of_nat i)) s) (\<lambda>(bp, s).
       let d = data (bufs s bp); off = dinode_off (of_nat i)
       in if dtype (dinode_of (get_bytes d off 64)) = 0
          then let s = set_data bp (put16 (put_bytes d off (replicate 64 0)) off ty) s
               in ebind (log_write bp s) (\<lambda>s.
                  ebind (brelse bp s) (\<lambda>s. iget dev (of_nat i) s))
          else ebind (brelse bp s) (ialloc_loop dev ty is))"

definition ialloc :: "uint \<Rightarrow> ushort \<Rightarrow> 'z fs_scheme \<Rightarrow> (nat \<times> 'z fs_scheme) outcome" where
  "ialloc dev ty s = ebind (readsb dev s) (\<lambda>(sb, s). ialloc_loop dev ty [1..<unat (sb_ninodes sb)] s)"

definition inode_dinode :: "inode \<Rightarrow> dinode" where
  "inode_dinode n = \<lparr>dtype = itype n, dmajor = imajor n, dminor = iminor n, dnlink = inlink n, dsize = isize n,
     daddrs = iaddrs n\<rparr>"

definition iupdate :: "nat \<Rightarrow> 'z fs_scheme \<Rightarrow> 'z fs_scheme outcome" where
  "iupdate ip s =
     (let n = inodes s ip
      in ebind (bread (idev n) (IBLOCK (inum n)) s) (\<lambda>(bp, s).
           let s = set_data bp (put_bytes (data (bufs s bp)) (dinode_off (inum n)) (dinode_bytes (inode_dinode n))) s
           in ebind (log_write bp s) (\<lambda>s. brelse bp s)))"

definition idup :: "nat \<Rightarrow> 'z fs_scheme \<Rightarrow> nat \<times> 'z fs_scheme" where
  "idup ip s = (ip, upd_inode ip (\<lambda>n. n\<lparr>iref := iref n + 1\<rparr>) s)"

definition ilock :: "nat \<Rightarrow> 'z fs_scheme \<Rightarrow> 'z fs_scheme outcome" where
  "ilock ip s =
     (if iref (inodes s ip) < 1 then Inl (Panic ''ilock'')
      else if ibusy (inodes s ip) then Inl (Sleep (ChInode ip))
      else let s = upd_inode ip (\<lambda>n. n\<lparr>ibusy := True\<rparr>) s
           in if ivalid (inodes s ip) then Inr s
              else let n = inodes s ip
                   in ebind (bread (idev n) (IBLOCK (inum n)) s) (\<lambda>(bp, s).
                        let d = dinode_of (get_bytes (data (bufs s bp)) (dinode_off (inum n)) 64);
                            s = upd_inode ip (\<lambda>n. n\<lparr>itype := dtype d, imajor := dmajor d, iminor := dminor d,
                                  inlink := dnlink d, isize := dsize d, iaddrs := daddrs d\<rparr>) s
                        in ebind (brelse bp s) (\<lambda>s.
                             let s = upd_inode ip (\<lambda>n. n\<lparr>ivalid := True\<rparr>) s
                             in if itype (inodes s ip) = 0 then Inl (Panic ''ilock: no type'') else Inr s)))"

definition iunlock :: "nat \<Rightarrow> 'z fs_scheme \<Rightarrow> 'z fs_scheme outcome" where
  "iunlock ip s =
     (if \<not> ibusy (inodes s ip) \<or> iref (inodes s ip) < 1 then Inl (Panic ''iunlock'')
      else Inr (wakeup (Some (ChInode ip)) (upd_inode ip (\<lambda>n. n\<lparr>ibusy := False\<rparr>) s)))"

definition itrunc_direct :: "nat \<Rightarrow> nat \<Rightarrow> 'z fs_scheme \<Rightarrow> 'z fs_scheme outcome" where
  "itrunc_direct ip i s =
     (let a = iaddrs (inodes s ip) ! i
      in if a = 0 then Inr s
         else ebind (bfree (idev (inodes s ip)) a s) (\<lambda>s.
                Inr (upd_inode ip (\<lambda>n. n\<lparr>iaddrs := (iaddrs n)[i := 0]\<rparr>) s)))"

definition itrunc :: "nat \<Rightarrow> 'z fs_scheme \<Rightarrow> 'z fs_scheme outcome" where
  "itrunc ip s =
     ebind (efold (itrunc_direct ip) [0..<NDIRECT] s) (\<lambda>s.
     ebind (let a = iaddrs (inodes s ip) ! NDIRECT; dev = idev (inodes s ip)
            in if a = 0 then Inr s
               else ebind (bread dev a s) (\<lambda>(bp, s).
                    ebind (efold (\<lambda>j s. let c = get32 (data (bufs s bp)) (4 * j)
                                        in if c = 0 then Inr s else bfree dev c s) [0..<NINDIRECT] s) (\<lambda>s.
                    ebind (brelse bp s) (\<lambda>s.
                    ebind (bfree dev a s) (\<lambda>s.
                      Inr (upd_inode ip (\<lambda>n. n\<lparr>iaddrs := (iaddrs n)[NDIRECT := 0]\<rparr>) s))))))
       (\<lambda>s. iupdate ip (upd_inode ip (\<lambda>n. n\<lparr>isize := 0\<rparr>) s)))"

definition iput :: "nat \<Rightarrow> 'z fs_scheme \<Rightarrow> 'z fs_scheme outcome" where
  "iput ip s =
     ebind (if iref (inodes s ip) = 1 \<and> ivalid (inodes s ip) \<and> inlink (inodes s ip) = 0
            then if ibusy (inodes s ip) then Inl (Panic ''iput busy'')
                 else ebind (itrunc ip (upd_inode ip (\<lambda>n. n\<lparr>ibusy := True\<rparr>) s)) (\<lambda>s.
                      ebind (iupdate ip (upd_inode ip (\<lambda>n. n\<lparr>itype := 0\<rparr>) s)) (\<lambda>s.
                        Inr (wakeup (Some (ChInode ip)) (upd_inode ip (\<lambda>n. n\<lparr>ibusy := False, ivalid := False\<rparr>) s))))
            else Inr s)
       (\<lambda>s. Inr (upd_inode ip (\<lambda>n. n\<lparr>iref := iref n - 1\<rparr>) s))"

definition iunlockput :: "nat \<Rightarrow> 'z fs_scheme \<Rightarrow> 'z fs_scheme outcome" where
  "iunlockput ip s = ebind (iunlock ip s) (iput ip)"

subsection \<open>Contents of an inode\<close>

definition bmap :: "nat \<Rightarrow> nat \<Rightarrow> 'z fs_scheme \<Rightarrow> (uint \<times> 'z fs_scheme) outcome" where
  "bmap ip bn s =
     (if bn < NDIRECT
      then let addr = iaddrs (inodes s ip) ! bn
           in if addr = 0
              then ebind (balloc (idev (inodes s ip)) s) (\<lambda>(addr, s).
                     Inr (addr, upd_inode ip (\<lambda>n. n\<lparr>iaddrs := (iaddrs n)[bn := addr]\<rparr>) s))
              else Inr (addr, s)
      else let bn = bn - NDIRECT
           in if bn < NINDIRECT
              then ebind (let addr = iaddrs (inodes s ip) ! NDIRECT
                          in if addr = 0
                             then ebind (balloc (idev (inodes s ip)) s) (\<lambda>(addr, s).
                                    Inr (addr, upd_inode ip (\<lambda>n. n\<lparr>iaddrs := (iaddrs n)[NDIRECT := addr]\<rparr>) s))
                             else Inr (addr, s)) (\<lambda>(addr, s).
                   ebind (bread (idev (inodes s ip)) addr s) (\<lambda>(bp, s).
                     let addr = get32 (data (bufs s bp)) (4 * bn)
                     in ebind (if addr = 0
                               then ebind (balloc (idev (inodes s ip)) s) (\<lambda>(addr, s).
                                    ebind (log_write bp (set_data bp (put32 (data (bufs s bp)) (4 * bn) addr) s)) (\<lambda>s.
                                      Inr (addr, s)))
                               else Inr (addr, s)) (\<lambda>(addr, s).
                        ebind (brelse bp s) (\<lambda>s. Inr (addr, s)))))
              else Inl (Panic ''bmap: out of range''))"

record stat =
  st_type :: ushort
  st_dev :: uint
  st_ino :: uint
  st_nlink :: ushort
  st_size :: uint

definition stati :: "nat \<Rightarrow> 'z fs_scheme \<Rightarrow> stat" where
  "stati ip s = (let n = inodes s ip
     in \<lparr>st_type = itype n, st_dev = idev n, st_ino = inum n, st_nlink = inlink n, st_size = isize n\<rparr>)"

text \<open>The loop of \<open>readi\<close>, with \<open>k\<close> for \<open>n - tot\<close>; the bytes are in the order they are stored.\<close>

function readi_loop :: "nat \<Rightarrow> nat \<Rightarrow> nat \<Rightarrow> 'z fs_scheme \<Rightarrow> (uchar list \<times> 'z fs_scheme) outcome" where
  "readi_loop ip off k s =
     (if k = 0 then Inr ([], s)
      else ebind (bmap ip (off div BSIZE) s) (\<lambda>(addr, s).
           ebind (bread (idev (inodes s ip)) addr s) (\<lambda>(bp, s).
             let m = min k (BSIZE - off mod BSIZE);
                 bs = get_bytes (data (bufs s bp)) (off mod BSIZE) m
             in ebind (brelse bp s) (\<lambda>s.
                ebind (readi_loop ip (off + m) (k - m) s) (\<lambda>(cs, s). Inr (bs @ cs, s))))))"
  by pat_completeness auto
termination
  by (relation "measure (\<lambda>(ip, off, k, s). k)") (auto simp: BSIZE_def)

definition readi :: "'z fs_scheme devsw \<Rightarrow> nat \<Rightarrow> uint \<Rightarrow> uint \<Rightarrow> 'z fs_scheme \<Rightarrow> (int \<times> uchar list \<times> 'z fs_scheme) outcome" where
  "readi dv ip off n s =
     (let d = inodes s ip
      in if itype d = T_DEV
         then if sint (imajor d) < 0 \<or> sint (imajor d) \<ge> int NDEV then Inr (- 1, [], s)
              else (case dev_read dv (unat (imajor d)) of None \<Rightarrow> Inr (- 1, [], s) | Some f \<Rightarrow> f ip n s)
         else if off > isize d \<or> off + n < off then Inr (- 1, [], s)
         else let n = (if off + n > isize d then isize d - off else n)
              in ebind (readi_loop ip (unat off) (unat n) s) (\<lambda>(bs, s). Inr (sint n, bs, s)))"

function writei_loop :: "nat \<Rightarrow> nat \<Rightarrow> uchar list \<Rightarrow> 'z fs_scheme \<Rightarrow> 'z fs_scheme outcome" where
  "writei_loop ip off src s =
     (if src = [] then Inr s
      else ebind (bmap ip (off div BSIZE) s) (\<lambda>(addr, s).
           ebind (bread (idev (inodes s ip)) addr s) (\<lambda>(bp, s).
             let m = min (length src) (BSIZE - off mod BSIZE);
                 s = set_data bp (put_bytes (data (bufs s bp)) (off mod BSIZE) (take m src)) s
             in ebind (log_write bp s) (\<lambda>s.
                ebind (brelse bp s) (\<lambda>s.
                  writei_loop ip (off + m) (drop m src) s)))))"
  by pat_completeness auto
termination
  by (relation "measure (\<lambda>(ip, off, src, s). length src)") (auto simp: BSIZE_def)

text \<open>\<open>src\<close> holds the \<open>n\<close> bytes to write.\<close>

definition writei :: "'z fs_scheme devsw \<Rightarrow> nat \<Rightarrow> uchar list \<Rightarrow> uint \<Rightarrow> uint \<Rightarrow> 'z fs_scheme \<Rightarrow> (int \<times> 'z fs_scheme) outcome" where
  "writei dv ip src off n s =
     (let d = inodes s ip
      in if itype d = T_DEV
         then if sint (imajor d) < 0 \<or> sint (imajor d) \<ge> int NDEV then Inr (- 1, s)
              else (case dev_write dv (unat (imajor d)) of None \<Rightarrow> Inr (- 1, s) | Some f \<Rightarrow> f ip src s)
         else if off > isize d \<or> off + n < off then Inr (- 1, s)
         else if off + n > of_nat (MAXFILE * BSIZE) then Inr (- 1, s)
         else ebind (writei_loop ip (unat off) src s) (\<lambda>s.
                if n > 0 \<and> off + n > isize (inodes s ip)
                then ebind (iupdate ip (upd_inode ip (\<lambda>d. d\<lparr>isize := off + n\<rparr>) s)) (\<lambda>s. Inr (sint n, s))
                else Inr (sint n, s)))"

subsection \<open>Directories\<close>

text \<open>\<open>strncmp\<close> on names: a list that ends early continues with the terminating zero.\<close>

fun namecmp_loop :: "nat \<Rightarrow> uchar list \<Rightarrow> uchar list \<Rightarrow> int" where
  "namecmp_loop 0 p q = 0"
| "namecmp_loop (Suc n) p q =
     (let a = (if p = [] then 0 else hd p); b = (if q = [] then 0 else hd q)
      in if a \<noteq> 0 \<and> a = b then namecmp_loop n (tl p) (tl q) else uint a - uint b)"

definition namecmp :: "uchar list \<Rightarrow> uchar list \<Rightarrow> int" where
  "namecmp p q = namecmp_loop DIRSIZ p q"

text \<open>The offsets of the entries of a directory.\<close>

definition dir_offs :: "uint \<Rightarrow> nat list" where
  "dir_offs n = map (\<lambda>k. 16 * k) [0..<(unat n + 15) div 16]"

fun dirlookup_loop :: "'z fs_scheme devsw \<Rightarrow> nat \<Rightarrow> uchar list \<Rightarrow> nat list \<Rightarrow> 'z fs_scheme \<Rightarrow>
    ((nat \<times> uint) option \<times> 'z fs_scheme) outcome" where
  "dirlookup_loop dv dp name [] s = Inr (None, s)"
| "dirlookup_loop dv dp name (off # offs) s =
     ebind (readi dv dp (of_nat off) 16 s) (\<lambda>(r, bs, s).
       if r \<noteq> 16 then Inl (Panic ''dirlink read'')
       else let de = dirent_of bs
            in if d_inum de = 0 then dirlookup_loop dv dp name offs s
               else if namecmp name (d_name de) = 0
               then ebind (iget (idev (inodes s dp)) (ucast (d_inum de)) s) (\<lambda>(ip, s). Inr (Some (ip, of_nat off), s))
               else dirlookup_loop dv dp name offs s)"

definition dirlookup :: "'z fs_scheme devsw \<Rightarrow> nat \<Rightarrow> uchar list \<Rightarrow> 'z fs_scheme \<Rightarrow>
    ((nat \<times> uint) option \<times> 'z fs_scheme) outcome" where
  "dirlookup dv dp name s =
     (if itype (inodes s dp) \<noteq> T_DIR then Inl (Panic ''dirlookup not DIR'')
      else dirlookup_loop dv dp name (dir_offs (isize (inodes s dp))) s)"

text \<open>The first free entry, or the end of the directory.\<close>

fun dirlink_loop :: "'z fs_scheme devsw \<Rightarrow> nat \<Rightarrow> nat list \<Rightarrow> nat \<Rightarrow> 'z fs_scheme \<Rightarrow> (nat \<times> 'z fs_scheme) outcome" where
  "dirlink_loop dv dp [] e s = Inr (e, s)"
| "dirlink_loop dv dp (off # offs) e s =
     ebind (readi dv dp (of_nat off) 16 s) (\<lambda>(r, bs, s).
       if r \<noteq> 16 then Inl (Panic ''dirlink read'')
       else if d_inum (dirent_of bs) = 0 then Inr (off, s) else dirlink_loop dv dp offs (off + 16) s)"

text \<open>\<open>strncpy\<close> into the name field.\<close>

definition dirent_name :: "uchar list \<Rightarrow> uchar list" where
  "dirent_name name = take DIRSIZ (name @ replicate DIRSIZ 0)"

definition dirlink :: "'z fs_scheme devsw \<Rightarrow> nat \<Rightarrow> uchar list \<Rightarrow> uint \<Rightarrow> 'z fs_scheme \<Rightarrow> (int \<times> 'z fs_scheme) outcome" where
  "dirlink dv dp name i s =
     ebind (dirlookup dv dp name s) (\<lambda>(r, s).
       case r of
         Some (ip, _) \<Rightarrow> ebind (iput ip s) (\<lambda>s. Inr (- 1, s))
       | None \<Rightarrow>
           ebind (dirlink_loop dv dp (dir_offs (isize (inodes s dp))) 0 s) (\<lambda>(off, s).
             let de = \<lparr>d_inum = ucast i, d_name = dirent_name name\<rparr>
             in ebind (writei dv dp (dirent_bytes de) (of_nat off) 16 s) (\<lambda>(r, s).
                  if r \<noteq> 16 then Inl (Panic ''dirlink'') else Inr (0, s))))"

subsection \<open>Paths\<close>

definition slash :: uchar where "slash = 47"

text \<open>
  \<open>skipelem\<close> returns the rest of the path and the element, cut to \<open>DIRSIZ\<close> characters, or nothing
  when no element is left.
\<close>

definition skipelem :: "uchar list \<Rightarrow> (uchar list \<times> uchar list) option" where
  "skipelem path =
     (let path = dropWhile (\<lambda>c. c = slash) path
      in if path = [] then None
         else Some (dropWhile (\<lambda>c. c = slash) (dropWhile (\<lambda>c. c \<noteq> slash) path),
                    take DIRSIZ (takeWhile (\<lambda>c. c \<noteq> slash) path)))"

lemma skipelem_shorter: "skipelem path = Some (rest, name) \<Longrightarrow> length rest < length path"
proof -
  assume sk: "skipelem path = Some (rest, name)"
  let ?p = "dropWhile (\<lambda>c. c = slash) path"
  have p: "?p \<noteq> []" "rest = dropWhile (\<lambda>c. c = slash) (dropWhile (\<lambda>c. c \<noteq> slash) ?p)"
    using sk by (auto simp: skipelem_def Let_def split: if_splits)
  then obtain c cs where c: "?p = c # cs" by (cases ?p) auto
  have "c \<noteq> slash" using hd_dropWhile [of "\<lambda>c. c = slash" path] p(1) c by simp
  then have e: "dropWhile (\<lambda>c. c \<noteq> slash) ?p = dropWhile (\<lambda>c. c \<noteq> slash) cs" unfolding c by simp
  have "length rest \<le> length (dropWhile (\<lambda>c. c \<noteq> slash) cs)" unfolding p(2) e by (rule length_dropWhile_le)
  also have "\<dots> \<le> length cs" by (rule length_dropWhile_le)
  finally have "length rest \<le> length cs" .
  moreover have "length (c # cs) \<le> length path" unfolding c [symmetric] by (rule length_dropWhile_le)
  ultimately show ?thesis by simp
qed

text \<open>The loop of \<open>namex\<close>; \<open>parent\<close> is the flag \<open>nameiparent\<close>.\<close>

function namex_loop :: "'z fs_scheme devsw \<Rightarrow> bool \<Rightarrow> uchar list \<Rightarrow> nat \<Rightarrow> 'z fs_scheme \<Rightarrow>
    ((nat \<times> uchar list) option \<times> 'z fs_scheme) outcome" where
  "namex_loop dv par path ip s =
     (case skipelem path of
        None \<Rightarrow> if par then ebind (iput ip s) (\<lambda>s. Inr (None, s)) else Inr (Some (ip, []), s)
      | Some (rest, name) \<Rightarrow>
          ebind (ilock ip s) (\<lambda>s.
            if itype (inodes s ip) \<noteq> T_DIR then ebind (iunlockput ip s) (\<lambda>s. Inr (None, s))
            else if par \<and> rest = [] then ebind (iunlock ip s) (\<lambda>s. Inr (Some (ip, name), s))
            else ebind (dirlookup dv ip name s) (\<lambda>(r, s).
                   ebind (iunlockput ip s) (\<lambda>s.
                     case r of
                       None \<Rightarrow> Inr (None, s)
                     | Some (nxt, _) \<Rightarrow> namex_loop dv par rest nxt s))))"
  by pat_completeness auto
termination
  by (relation "measure (\<lambda>(dv, par, path, ip, s). length path)") (auto simp: skipelem_shorter)

definition namex :: "'z fs_scheme devsw \<Rightarrow> uchar list \<Rightarrow> bool \<Rightarrow> 'z fs_scheme \<Rightarrow>
    ((nat \<times> uchar list) option \<times> 'z fs_scheme) outcome" where
  "namex dv path par s =
     ebind (if path \<noteq> [] \<and> hd path = slash then iget ROOTDEV ROOTINO s
            else (case curproc s of
                    None \<Rightarrow> Inl (Undef ''proc'')
                  | Some p \<Rightarrow> (case cwd (ptable s p) of None \<Rightarrow> Inl (Undef ''proc->cwd'') | Some d \<Rightarrow> Inr (idup d s))))
       (\<lambda>(ip, s). namex_loop dv par path ip s)"

definition namei :: "'z fs_scheme devsw \<Rightarrow> uchar list \<Rightarrow> 'z fs_scheme \<Rightarrow> (nat option \<times> 'z fs_scheme) outcome" where
  "namei dv path s = ebind (namex dv path False s) (\<lambda>(r, s). Inr (map_option fst r, s))"

definition nameiparent :: "'z fs_scheme devsw \<Rightarrow> uchar list \<Rightarrow> 'z fs_scheme \<Rightarrow>
    ((nat \<times> uchar list) option \<times> 'z fs_scheme) outcome" where
  "nameiparent dv path s = namex dv path True s"

end
