(* ===== verification/Blocks.thy ===== *)
theory Blocks
  imports Crash Fs
begin

text \<open>
  What a client of the log does with a block in a transaction, and the block allocator of \<open>fs.c\<close>:
  \<open>bzero\<close>, \<open>balloc\<close> and \<open>bfree\<close> against the bitmap as a set of blocks in use.
\<close>

subsection \<open>Changing a block in a transaction\<close>

text \<open>A sector that the client of the log may change now: it is free, and the log and the cache have room.\<close>

definition can_log :: "uint \<Rightarrow> 'z log_scheme \<Rightarrow> bool" where
  "can_log b s \<longleftrightarrow> lbusy s \<and> lh_n s < lsize s - 1 \<and> 1 < b \<and> b < disksize s \<and> \<not> in_log (lstart s) (nat (lsize s)) b \<and>
     b \<notin> held s \<and> card (insert b (held s \<union> pinned s)) < NBUF"

lemma keeps_inodes: "keeps s t \<Longrightarrow> inodes t = inodes s"
  by (auto simp: keeps_def)

lemma log_write_inodes:
  fixes s :: "'z fs_scheme"
  assumes "log_ok d s" "owns s i b" "log_write i s = Inr t"
  shows "inodes t = inodes s"
proof -
  obtain v where "t = upd_buf i (\<lambda>q. q\<lparr>dirty := True\<rparr>) (if int (log_index s b) = lh_n s then v\<lparr>lh_n := lh_n s + 1\<rparr> else v)"
    and "keeps (s\<lparr>lh_sector := (lh_sector s)[log_index s b := b]\<rparr>) v"
    by (rule log_copy [OF assms(1,2) log_write_state(1) [OF assms] assms(3) refl], rule that)
  then show ?thesis using keeps_inodes by (fastforce simp: upd_buf_def)
qed

lemma log_update:
  fixes s :: "'z fs_scheme"
  assumes "log_ok d s" "can_log b s" "length x = 512"
  obtains i u v t where "bread 1 b s = Inr (i, u)" "data (bufs u i) = view s b" "log_write i (set_data i x u) = Inr v" "brelse i v = Inr t"
    "log_ok d t" "view t b = x" "\<forall>c. c \<noteq> b \<longrightarrow> \<not> in_log (lstart s) (nat (lsize s)) c \<longrightarrow> view t c = view s c"
    "held t = held s" "b \<in> pinned t" "inodes t = inodes s" "lbusy t" "lh_n t \<le> lh_n s + 1"
    "lstart t = lstart s" "lsize t = lsize s" "disksize t = disksize s"
proof -
  have ok: "cache_ok s" using assms(1) by (simp add: log_ok_def log_geom_def)
  have B: "lbusy s" "lh_n s < lsize s - 1" "b \<noteq> 1" "b < disksize s" "\<not> in_log (lstart s) (nat (lsize s)) b" "b \<notin> held s"
    "card (insert b (held s \<union> pinned s)) < NBUF" using assms(2) by (auto simp: can_log_def)
  have "card (held s \<union> pinned s) < NBUF" by (rule le_less_trans [OF card_insert_le B(7)])
  then have av: "b < disksize s \<and> room s b" using room_card [OF ok] B(4) by blast
  obtain i u where u: "bread 1 b s = Inr (i, u)" "cache_ok u" "keeps s u" "view u = view s" "held u = insert b (held s)" "pinned u = pinned s" "owns u i b"
    using bread_law [OF ok B(6) av] by blast
  have lk: "data (bufs u i) = view s b" using cache.look [OF u(2,7)] u(4) by simp
  note lu = log_ok_read [OF assms(1) B(5) u(1)] and ku = keeps_log [OF u(3)]
  let ?w = "set_data i x u"
  have nl: "\<not> in_log (lstart u) (nat (lsize u)) b" using B(5) ku by simp
  note lw = log_ok_data [OF lu(1) u(7) nl assms(3)] and w = set_data_law [OF u(2,7) assms(3)]
  note kw = keeps_log [OF lw(2)]
  have ow: "owns ?w i b" using w u(7) by simp
  obtain v where v: "log_write i ?w = Inr v"
    using log_write_total [OF lw(1) ow] w u(5,6) kw ku B(1,2,7) by auto
  note lv = log_write_ok [OF lw(1) ow B(3) v] and sv = log_write_state [OF lw(1) ow v] and iv = log_write_inodes [OF lw(1) ow v]
  have slot: "in_log (lstart s) (nat (lsize s)) (slot (lstart ?w) (log_index ?w b))"
    using slot_facts(1) [OF log_geomD(3) sv(1)] lw(1) kw ku by (simp add: log_ok_def)
  obtain t where t: "brelse i v = Inr t" "cache_ok t" "keeps v t" "held t = held v - {b}" "view t = view v" "pinned t = pinned v"
    using brelse_law [OF sv(3,7)] sv(6) by auto
  note lt = log_ok_relse(1) [OF lv(1) sv(7) lv(2) t(1)]
  show thesis
  proof (rule that [OF u(1) lk v t(1) lt])
    show "view t b = x" using t(5) sv(4) w slot B(5) by auto
    show "\<forall>c. c \<noteq> b \<longrightarrow> \<not> in_log (lstart s) (nat (lsize s)) c \<longrightarrow> view t c = view s c"
      using t(5) sv(4) w slot u(4) by auto
    show "held t = held s" using t(4) sv(5) w u(5) B(6) by auto
    show "b \<in> pinned t" using t(6) sv(6) by simp
    show "inodes t = inodes s"
      using keeps_inodes [OF t(3)] iv keeps_inodes [OF lw(2)] keeps_inodes [OF u(3)] by simp
    show "lbusy t" "lh_n t \<le> lh_n s + 1" "lstart t = lstart s" "lsize t = lsize s" "disksize t = disksize s"
      using keeps_log [OF t(3)] keeps_fields(1) [OF t(3)] keeps_fields(1) [OF lw(2)] keeps_fields(1) [OF u(3)] sv(8-10,15,16) kw ku by simp_all
  qed
qed

subsection \<open>Inside a transaction\<close>

text \<open>A transaction that may still log \<open>n\<close> sectors, between two operations on blocks.\<close>

definition in_trans :: "disk \<Rightarrow> nat \<Rightarrow> 'z log_scheme \<Rightarrow> bool" where
  "in_trans d n s \<longleftrightarrow> log_ok d s \<and> lbusy s \<and> held s = {} \<and> lh_n s + int n < lsize s"

text \<open>A sector of the file system, outside the super block and the log.\<close>

definition fs_sector :: "'z log_scheme \<Rightarrow> uint \<Rightarrow> bool" where
  "fs_sector s b \<longleftrightarrow> 1 < b \<and> b < disksize s \<and> \<not> in_log (lstart s) (nat (lsize s)) b"

definition same_disk :: "'z log_scheme \<Rightarrow> 'z log_scheme \<Rightarrow> bool" where
  "same_disk s t \<longleftrightarrow> lstart t = lstart s \<and> lsize t = lsize s \<and> disksize t = disksize s"

lemma in_trans_pinned:
  assumes "in_trans d n s"
  shows "card (pinned s) \<le> nat (lh_n s)" "nat (lh_n s) + n < NBUF" "cache_ok s"
proof -
  have l: "log_ok d s" "lh_n s + int n < lsize s" using assms by (auto simp: in_trans_def)
  then have g: "log_geom s" by (simp add: log_ok_def)
  note G = log_geomD [OF g]
  show "cache_ok s" by (rule G(1))
  have "nat (lh_n s) + n < nat (lsize s)" using l(2) G(7) by linarith
  then show "nat (lh_n s) + n < NBUF" using G(3) by (simp add: geom_def)
  have "length (logged s) \<le> nat (lh_n s)" by (simp add: logged_def)
  then show "card (pinned s) \<le> nat (lh_n s)" using l(1) card_length [of "logged s"] by (simp add: log_ok_def)
qed

lemma in_trans_can_log:
  assumes "in_trans d (Suc n) s" "fs_sector s b"
  shows "can_log b s"
proof -
  have "card (insert b (pinned s)) \<le> Suc (card (pinned s))" by (rule card_insert_le_m1) simp_all
  then have "card (insert b (pinned s)) < NBUF" using in_trans_pinned(1,2) [OF assms(1)] by linarith
  then show ?thesis using assms by (simp add: in_trans_def fs_sector_def can_log_def)
qed

lemma trans_update:
  fixes s :: "'z fs_scheme"
  assumes "in_trans d (Suc n) s" "fs_sector s b" "length x = 512"
  obtains i u v t where "bread 1 b s = Inr (i, u)" "data (bufs u i) = view s b" "log_write i (set_data i x u) = Inr v" "brelse i v = Inr t"
    "in_trans d n t" "same_disk s t" "view t b = x" "\<forall>c. c \<noteq> b \<longrightarrow> \<not> in_log (lstart s) (nat (lsize s)) c \<longrightarrow> view t c = view s c"
proof -
  have l: "log_ok d s" "held s = {}" "lh_n s + int (Suc n) < lsize s" using assms(1) by (auto simp: in_trans_def)
  obtain i u v t where t: "bread 1 b s = Inr (i, u)" "data (bufs u i) = view s b" "log_write i (set_data i x u) = Inr v" "brelse i v = Inr t"
    "log_ok d t" "view t b = x" "\<forall>c. c \<noteq> b \<longrightarrow> \<not> in_log (lstart s) (nat (lsize s)) c \<longrightarrow> view t c = view s c"
    "held t = held s" "b \<in> pinned t" "inodes t = inodes s" "lbusy t" "lh_n t \<le> lh_n s + 1"
    "lstart t = lstart s" "lsize t = lsize s" "disksize t = disksize s"
    by (rule log_update [OF l(1) in_trans_can_log [OF assms(1,2)] assms(3)], rule that)
  then have "in_trans d n t" "same_disk s t" using l by (simp_all add: in_trans_def same_disk_def)
  then show thesis using that t(1-4,6,7) by blast
qed

lemma trans_peek:
  assumes "in_trans d n s" "b < disksize s"
  obtains i t u where "bread 1 b s = Inr (i, t)" "data (bufs t i) = view s b" "brelse i t = Inr u"
    "in_trans d n u" "same_disk s u" "view u = view s"
proof -
  note P = in_trans_pinned [OF assms(1)]
  have l: "log_ok d s" "held s = {}" "lh_n s + int n < lsize s" "lbusy s" using assms(1) by (auto simp: in_trans_def)
  have "room s b" using room_card [OF P(3)] P(1,2) l(2) by simp
  then obtain i t u where u: "bread 1 b s = Inr (i, t)" "data (bufs t i) = view s b" "brelse i t = Inr u" "cache_ok u" "keeps s u"
    "view u = view s" "memdisk u = memdisk s" "held u = held s" "pinned u = pinned s"
    using cache.peek [OF P(3), of b] l(2) assms(2) by (metis empty_iff)
  have "log_ok d u" by (rule log_okI [OF l(1) log_same_keeps [OF u(5)]]) (use u l in \<open>auto simp: log_ok_def\<close>)
  then have "in_trans d n u" "same_disk s u"
    using l u(8) keeps_log [OF u(5)] keeps_fields(1) [OF u(5)] by (simp_all add: in_trans_def same_disk_def)
  then show thesis using that u(1-3,6) by blast
qed

lemma same_disk_trans: "same_disk s t \<Longrightarrow> same_disk t u \<Longrightarrow> same_disk s u"
  and same_disk_fs: "same_disk s t \<Longrightarrow> fs_sector t = fs_sector s"
  by (auto simp: same_disk_def fs_sector_def)

subsection \<open>The bitmap\<close>

definition bit_set :: "uchar list \<Rightarrow> nat \<Rightarrow> bool" where
  "bit_set blk bi \<longleftrightarrow> bit (blk ! (bi div 8)) (bi mod 8)"

lemma bit_mask_exp: "bit_mask bi = 2 ^ (bi mod 8)"
  by (simp add: bit_mask_def push_bit_of_1)

lemma bit_mask_test: "blk ! (bi div 8) AND bit_mask bi = 0 \<longleftrightarrow> \<not> bit_set blk bi"
  by (simp add: bit_set_def bit_mask_exp and_exp_eq_0_iff_not_bit)

lemma byte_index: "i \<noteq> j \<Longrightarrow> i div 8 = j div 8 \<Longrightarrow> i mod 8 \<noteq> j mod (8 :: nat)"
  by (metis div_mult_mod_eq)

lemma bit_set_update:
  assumes "length blk = 512" "bi < 4096"
  shows "bit_set (blk[bi div 8 := blk ! (bi div 8) OR bit_mask bi]) bj \<longleftrightarrow> bj = bi \<or> bit_set blk bj"
    and "bit_set (blk[bi div 8 := blk ! (bi div 8) AND NOT (bit_mask bi)]) bj \<longleftrightarrow> bj \<noteq> bi \<and> bit_set blk bj"
proof -
  have l: "bi div 8 < length blk" using assms by simp
  have m: "bit (bit_mask bi) n \<longleftrightarrow> n = bi mod 8" if "n < 8" for n using that by (auto simp: bit_mask_exp bit_simps)
  show "bit_set (blk[bi div 8 := blk ! (bi div 8) OR bit_mask bi]) bj \<longleftrightarrow> bj = bi \<or> bit_set blk bj"
    using l m [of "bj mod 8"] byte_index [of bj bi] by (cases "bj = bi") (auto simp: bit_set_def nth_list_update bit_or_iff)
  show "bit_set (blk[bi div 8 := blk ! (bi div 8) AND NOT (bit_mask bi)]) bj \<longleftrightarrow> bj \<noteq> bi \<and> bit_set blk bj"
    using l m [of "bj mod 8"] byte_index [of bj bi] by (cases "bj = bi") (auto simp: bit_set_def nth_list_update bit_and_iff bit_not_iff)
qed

text \<open>The super block, the number of blocks, the bitmap block of a block, and whether the block is in use.\<close>

definition fs_sb :: "'z log_scheme \<Rightarrow> superblock" where
  "fs_sb s = sb_of (view s 1)"

definition fs_size :: "'z log_scheme \<Rightarrow> nat" where
  "fs_size s = unat (sb_size (fs_sb s))"

definition map_block :: "'z log_scheme \<Rightarrow> nat \<Rightarrow> uint" where
  "map_block s k = BBLOCK (of_nat k) (sb_ninodes (fs_sb s))"

definition in_use :: "'z log_scheme \<Rightarrow> nat \<Rightarrow> bool" where
  "in_use s k \<longleftrightarrow> bit_set (view s (map_block s k)) (k mod 4096)"

text \<open>
  The layout that \<open>mkfs\<close> gives to a file system: the bitmap blocks lie in the file system, and the super block,
  the bitmap and the log are marked as in use.
\<close>

definition fs_layout :: "'z log_scheme \<Rightarrow> bool" where
  "fs_layout s \<longleftrightarrow> fs_size s \<le> unat (disksize s) \<and>
     (\<forall>k < fs_size s. fs_sector s (map_block s k)) \<and>
     (\<forall>k < fs_size s. \<not> in_use s k \<longrightarrow> 1 < k \<and> \<not> in_log (lstart s) (nat (lsize s)) (of_nat k) \<and> (\<forall>j < fs_size s. map_block s j \<noteq> of_nat k))"

lemma BPB_4096: "BPB = 4096" "unat BPB = 4096"
  by (simp_all add: BPB_def BSIZE_def)

lemma size_bound: "k < fs_size s \<Longrightarrow> k < 2 ^ 32"
  using unsigned_less [of "sb_size (fs_sb s)", where 'a = nat] by (simp add: fs_size_def)

lemma of_nat_div_BPB:
  assumes "k < 2 ^ 32"
  shows "(of_nat k :: uint) div BPB = of_nat (k div 4096)" "unat ((of_nat k :: uint) mod BPB) = k mod 4096"
  using assms by (simp_all add: BPB_4096 word_unat_eq_iff unat_div unat_mod unat_of_nat)

lemma map_block_start:
  assumes "k < fs_size s"
  shows "map_block s k = BBLOCK (of_nat (k div 4096 * 4096)) (sb_ninodes (fs_sb s))"
proof -
  have k: "k < 2 ^ 32" by (rule size_bound [OF assms])
  have "k div 4096 * 4096 \<le> k" by simp
  then have "k div 4096 * 4096 < 2 ^ 32" using k by linarith
  then show ?thesis using of_nat_div_BPB(1) [OF k] of_nat_div_BPB(1) [of "k div 4096 * 4096"] by (simp add: map_block_def BBLOCK_def)
qed

text \<open>Everything about the file system is in the sectors outside the log.\<close>

lemma fs_view:
  assumes "view t = view s"
  shows "fs_sb t = fs_sb s" "fs_size t = fs_size s" "map_block t = map_block s" "in_use t = in_use s"
  using assms by (simp_all add: fs_sb_def fs_size_def map_block_def in_use_def fun_eq_iff)

lemma readsb_trans:
  assumes "in_trans d n s"
  obtains u where "readsb 1 s = Inr (fs_sb s, u)" "in_trans d n u" "same_disk s u" "view u = view s"
proof -
  have "geom (lstart s) (nat (lsize s)) (disksize s)" using assms by (simp add: in_trans_def log_ok_def log_geom_def)
  then have "1 < disksize s" by (simp add: geom_def word_less_nat_alt)
  then obtain i t u where "bread 1 1 s = Inr (i, t)" "data (bufs t i) = view s 1" "brelse i t = Inr u"
    "in_trans d n u" "same_disk s u" "view u = view s" by (rule trans_peek [OF assms])
  then show thesis using that by (simp add: readsb_def fs_sb_def)
qed

subsection \<open>Freeing\<close>

lemma bfree_frees:
  fixes s :: "'z fs_scheme"
  assumes "in_trans d (Suc n) s" "k < fs_size s" "fs_sector s (map_block s k)"
  shows "\<not> in_use s k \<Longrightarrow> bfree 1 (of_nat k) s = Inl (Panic ''freeing free block'')"
    and "in_use s k \<Longrightarrow> \<exists>t. bfree 1 (of_nat k) s = Inr t \<and> in_trans d n t \<and> same_disk s t \<and>
      (\<forall>bj. bit_set (view t (map_block s k)) bj \<longleftrightarrow> bj \<noteq> k mod 4096 \<and> bit_set (view s (map_block s k)) bj) \<and>
      (\<forall>c. c \<noteq> map_block s k \<longrightarrow> \<not> in_log (lstart s) (nat (lsize s)) c \<longrightarrow> view t c = view s c)"
proof -
  let ?b = "map_block s k" and ?x = "view s (map_block s k)"
  let ?y = "?x[k mod 4096 div 8 := ?x ! (k mod 4096 div 8) AND NOT (bit_mask (k mod 4096))]"
  obtain u where u: "readsb 1 s = Inr (fs_sb s, u)" "in_trans d (Suc n) u" "same_disk s u" "view u = view s"
    by (rule readsb_trans [OF assms(1)])
  have len: "length ?x = 512" by (rule length_view [OF in_trans_pinned(3) [OF assms(1)]])
  then have len': "length ?y = 512" by simp
  have fs: "fs_sector u ?b" using assms(3) same_disk_fs [OF u(3)] by simp
  have bi: "unat ((of_nat k :: uint) mod BPB) = k mod 4096" by (rule of_nat_div_BPB(2) [OF size_bound [OF assms(2)]])
  obtain i v w t where t: "bread 1 ?b u = Inr (i, v)" "data (bufs v i) = view u ?b" "log_write i (set_data i ?y v) = Inr w" "brelse i w = Inr t"
    "in_trans d n t" "same_disk u t" "view t ?b = ?y" "\<forall>c. c \<noteq> ?b \<longrightarrow> \<not> in_log (lstart u) (nat (lsize u)) c \<longrightarrow> view t c = view u c"
    by (rule trans_update [OF u(2) fs len'], rule that)
  have run: "bfree 1 (of_nat k) s = (if \<not> in_use s k then Inl (Panic ''freeing free block'') else Inr t)"
    using u(1,4) t(1-4) by (simp add: bfree_def bi map_block_def Let_def bit_mask_test in_use_def)
  show "bfree 1 (of_nat k) s = Inl (Panic ''freeing free block'')" if "\<not> in_use s k" using that run by simp
  assume "in_use s k"
  moreover have "bit_set (view t ?b) bj \<longleftrightarrow> bj \<noteq> k mod 4096 \<and> bit_set ?x bj" for bj
    unfolding t(7) by (rule bit_set_update(2) [OF len]) simp
  ultimately show "\<exists>t. bfree 1 (of_nat k) s = Inr t \<and> in_trans d n t \<and> same_disk s t \<and>
      (\<forall>bj. bit_set (view t (map_block s k)) bj \<longleftrightarrow> bj \<noteq> k mod 4096 \<and> bit_set (view s (map_block s k)) bj) \<and>
      (\<forall>c. c \<noteq> map_block s k \<longrightarrow> \<not> in_log (lstart s) (nat (lsize s)) c \<longrightarrow> view t c = view s c)"
    using run t(5,8) same_disk_trans [OF u(3) t(6)] u(3,4) by (auto simp: same_disk_def)
qed

subsection \<open>Allocating\<close>

lemma free_bit_first:
  assumes "bi < n" "\<not> bit_set blk bi" "\<forall>bj < bi. bit_set blk bj"
  shows "free_bit blk n = Some bi"
  unfolding free_bit_def bit_mask_test find_Some_iff using assms by (intro exI [of _ bi]) simp

lemma free_bit_none: "\<forall>bj < n. bit_set blk bj \<Longrightarrow> free_bit blk n = None"
  by (auto simp: free_bit_def bit_mask_test find_None_iff)

text \<open>The blocks of one bitmap block.\<close>

lemma in_use_block:
  assumes "m * 4096 + bj < fs_size s" "bj < 4096"
  shows "in_use s (m * 4096 + bj) \<longleftrightarrow> bit_set (view s (BBLOCK (of_nat (m * 4096)) (sb_ninodes (fs_sb s)))) bj"
    and "map_block s (m * 4096 + bj) = BBLOCK (of_nat (m * 4096)) (sb_ninodes (fs_sb s))"
proof -
  have d: "(m * 4096 + bj) div 4096 = m" "(m * 4096 + bj) mod 4096 = bj" using assms(2) by simp_all
  show "map_block s (m * 4096 + bj) = BBLOCK (of_nat (m * 4096)) (sb_ninodes (fs_sb s))"
    using map_block_start [OF assms(1)] unfolding d(1) .
  then show "in_use s (m * 4096 + bj) \<longleftrightarrow> bit_set (view s (BBLOCK (of_nat (m * 4096)) (sb_ninodes (fs_sb s)))) bj"
    unfolding in_use_def d(2) by simp
qed

lemma balloc_skip:
  assumes "in_trans d n s" "\<forall>bj < 4096. m * 4096 + bj < fs_size s \<longrightarrow> in_use s (m * 4096 + bj)"
    "m * 4096 < fs_size s" "fs_sector s (map_block s (m * 4096))"
  obtains u where "balloc_loop 1 (fs_sb s) (m * 4096 # bs) s = balloc_loop 1 (fs_sb s) bs u" "in_trans d n u" "same_disk s u" "view u = view s"
proof -
  let ?b = "BBLOCK (of_nat (m * 4096)) (sb_ninodes (fs_sb s))"
  have b: "map_block s (m * 4096) = ?b" by (simp add: map_block_def)
  have "?b < disksize s" using assms(4) unfolding b by (simp add: fs_sector_def)
  then obtain i t u where u: "bread 1 ?b s = Inr (i, t)" "data (bufs t i) = view s ?b" "brelse i t = Inr u"
    "in_trans d n u" "same_disk s u" "view u = view s" by (rule trans_peek [OF assms(1)])
  have "free_bit (view s ?b) (min (unat BPB) (unat (sb_size (fs_sb s)) - m * 4096)) = None"
    by (rule free_bit_none) (use assms(2) in_use_block(1) [of m _ s] in \<open>auto simp: BPB_4096(2) fs_size_def less_diff_conv add.commute\<close>)
  then have "balloc_loop 1 (fs_sb s) (m * 4096 # bs) s = balloc_loop 1 (fs_sb s) bs u" using u(1-3) by simp
  then show thesis using that u(4-6) by blast
qed

lemma balloc_found:
  fixes s :: "'z fs_scheme"
  assumes "in_trans d (Suc (Suc n)) s" "fs_layout s" "m * 4096 + bi < fs_size s" "bi < 4096" "\<not> in_use s (m * 4096 + bi)"
    "\<forall>bj < bi. in_use s (m * 4096 + bj)"
  defines "k \<equiv> m * 4096 + bi"
  shows "\<exists>t. balloc_loop 1 (fs_sb s) (m * 4096 # bs) s = Inr (of_nat k, t) \<and> in_trans d n t \<and> same_disk s t \<and>
    view t (of_nat k) = replicate BSIZE 0 \<and>
    (\<forall>bj. bit_set (view t (map_block s k)) bj \<longleftrightarrow> bj = bi \<or> bit_set (view s (map_block s k)) bj) \<and>
    (\<forall>c. c \<noteq> map_block s k \<longrightarrow> c \<noteq> of_nat k \<longrightarrow> \<not> in_log (lstart s) (nat (lsize s)) c \<longrightarrow> view t c = view s c)"
proof -
  define b where "b = BBLOCK (of_nat (m * 4096)) (sb_ninodes (fs_sb s))"
  note ub = in_use_block [where s = s and m = m, folded b_def]
  have mb: "map_block s k = b" using ub(2) [OF assms(3,4)] by (simp add: k_def)
  have L: "fs_sector s b" "1 < k" "\<not> in_log (lstart s) (nat (lsize s)) (of_nat k)" "b \<noteq> of_nat k" "k < unat (disksize s)"
    using assms(2,3,5) mb unfolding fs_layout_def k_def by auto
  have k32: "k < 2 ^ 32" using size_bound assms(3) by (simp add: k_def)
  have fk: "fs_sector s (of_nat k)" using L k32 by (simp add: fs_sector_def word_less_nat_alt unat_of_nat)
  define x where "x = view s b"
  let ?y = "x[bi div 8 := x ! (bi div 8) OR bit_mask bi]"
  have len: "length x = 512" unfolding x_def by (rule length_view [OF in_trans_pinned(3) [OF assms(1)]])
  then have len': "length ?y = 512" by simp
  obtain i u v w where w: "bread 1 b s = Inr (i, u)" "data (bufs u i) = view s b" "log_write i (set_data i ?y u) = Inr v" "brelse i v = Inr w"
    "in_trans d (Suc n) w" "same_disk s w" "view w b = ?y" "\<forall>c. c \<noteq> b \<longrightarrow> \<not> in_log (lstart s) (nat (lsize s)) c \<longrightarrow> view w c = view s c"
    by (rule trans_update [OF assms(1) L(1) len'], rule that)
  have z: "length (replicate BSIZE (0 :: uchar)) = 512" by (simp add: BSIZE_def)
  have fw: "fs_sector w (of_nat k)" using fk same_disk_fs [OF w(6)] by simp
  obtain i' u' v' t where t: "bread 1 (of_nat k) w = Inr (i', u')" "log_write i' (set_data i' (replicate BSIZE 0) u') = Inr v'" "brelse i' v' = Inr t"
    "in_trans d n t" "same_disk w t" "view t (of_nat k) = replicate BSIZE 0" "\<forall>c. c \<noteq> of_nat k \<longrightarrow> \<not> in_log (lstart w) (nat (lsize w)) c \<longrightarrow> view t c = view w c"
    by (rule trans_update [OF w(5) fw z], rule that)
  have "free_bit x (min (unat BPB) (unat (sb_size (fs_sb s)) - m * 4096)) = Some bi"
    by (rule free_bit_first) (use assms(3-6) ub(1) in \<open>auto simp: BPB_4096(2) fs_size_def x_def\<close>)
  moreover have kk: "of_nat m * 4096 + of_nat bi = (of_nat k :: uint)" by (simp add: k_def)
  ultimately have run: "balloc_loop 1 (fs_sb s) (m * 4096 # bs) s = Inr (of_nat k, t)"
    using w(1-4) t(1-3) unfolding balloc_loop.simps b_def [symmetric] k_def [symmetric] by (simp add: x_def bzero_def kk)
  have "b \<noteq> of_nat k \<Longrightarrow> view t b = ?y" using t(7) w(6,7) L(1) by (simp add: same_disk_def fs_sector_def)
  then have "bit_set (view t b) bj \<longleftrightarrow> bj = bi \<or> bit_set (view s b) bj" for bj
    using bit_set_update(1) [OF len assms(4)] L(4) by (simp add: x_def)
  moreover have "view t c = view s c" if "c \<noteq> b" "c \<noteq> of_nat k" "\<not> in_log (lstart s) (nat (lsize s)) c" for c
    using that t(7) w(6,8) by (simp add: same_disk_def)
  ultimately show ?thesis using run t(4,6) same_disk_trans [OF w(6) t(5)] unfolding mb by blast
qed

lemma fs_layout_cong: "same_disk s u \<Longrightarrow> view u = view s \<Longrightarrow> fs_layout u = fs_layout s"
  by (simp add: fs_layout_def fs_view [of u s] same_disk_fs) (simp add: same_disk_def)

lemma balloc_loop_first:
  fixes s :: "'z fs_scheme"
  assumes "in_trans d (Suc (Suc n)) s" "fs_layout s" "k < fs_size s" "\<not> in_use s k" "\<forall>j < k. in_use s j"
    "m \<le> k div 4096" "k div 4096 < M"
  shows "\<exists>t. balloc_loop 1 (fs_sb s) (map (\<lambda>q. q * 4096) [m..<M]) s = Inr (of_nat k, t) \<and> in_trans d n t \<and> same_disk s t \<and>
    view t (of_nat k) = replicate BSIZE 0 \<and>
    (\<forall>bj. bit_set (view t (map_block s k)) bj \<longleftrightarrow> bj = k mod 4096 \<or> bit_set (view s (map_block s k)) bj) \<and>
    (\<forall>c. c \<noteq> map_block s k \<longrightarrow> c \<noteq> of_nat k \<longrightarrow> \<not> in_log (lstart s) (nat (lsize s)) c \<longrightarrow> view t c = view s c)"
  using assms
proof (induction "k div 4096 - m" arbitrary: m s)
  case 0
  then have m: "m = k div 4096" "[m..<M] = m # [Suc m..<M]" by (simp_all add: upt_rec)
  have k: "m * 4096 + k mod 4096 = k" using m(1) by simp
  then have "\<forall>bj < k mod 4096. in_use s (m * 4096 + bj)" using "0.prems"(5) by (metis nat_add_left_cancel_less)
  then show ?case
    using balloc_found [OF "0.prems"(1,2), of m "k mod 4096" "map (\<lambda>q. q * 4096) [Suc m..<M]"] "0.prems"(3,4) unfolding k m(2) by simp
next
  case (Suc q)
  have m: "m < k div 4096" "[m..<M] = m # [Suc m..<M]" using Suc.hyps(2) Suc.prems(7) by (simp_all add: upt_rec)
  then have le: "m * 4096 + 4096 \<le> k" by (metis Suc_leI add.commute div_times_less_eq_dividend le_trans mult_Suc mult_le_mono1)
  then have used: "\<forall>bj < 4096. m * 4096 + bj < fs_size s \<longrightarrow> in_use s (m * 4096 + bj)" using Suc.prems(5) by simp
  have lt: "m * 4096 < fs_size s" using le Suc.prems(3) by linarith
  then have fs: "fs_sector s (map_block s (m * 4096))" using Suc.prems(2) by (simp add: fs_layout_def)
  obtain u where u: "balloc_loop 1 (fs_sb s) (m * 4096 # map (\<lambda>q. q * 4096) [Suc m..<M]) s = balloc_loop 1 (fs_sb s) (map (\<lambda>q. q * 4096) [Suc m..<M]) u"
    "in_trans d (Suc (Suc n)) u" "same_disk s u" "view u = view s"
    by (rule balloc_skip [OF Suc.prems(1) used lt fs, of "map (\<lambda>q. q * 4096) [Suc m..<M]"], rule that)
  note V = fs_view [OF u(4)]
  have "fs_layout u" using fs_layout_cong [OF u(3,4)] Suc.prems(2) by simp
  moreover have "q = k div 4096 - Suc m" using Suc.hyps(2) by simp
  ultimately have "\<exists>t. balloc_loop 1 (fs_sb u) (map (\<lambda>q. q * 4096) [Suc m..<M]) u = Inr (of_nat k, t) \<and> in_trans d n t \<and> same_disk u t \<and>
      view t (of_nat k) = replicate BSIZE 0 \<and>
      (\<forall>bj. bit_set (view t (map_block u k)) bj \<longleftrightarrow> bj = k mod 4096 \<or> bit_set (view u (map_block u k)) bj) \<and>
      (\<forall>c. c \<noteq> map_block u k \<longrightarrow> c \<noteq> of_nat k \<longrightarrow> \<not> in_log (lstart u) (nat (lsize u)) c \<longrightarrow> view t c = view u c)"
    by (intro Suc.hyps(1) [OF _ u(2)]) (use Suc.prems(3-5,7) m(1) V in simp_all)
  then
  obtain t where "balloc_loop 1 (fs_sb s) (map (\<lambda>q. q * 4096) [Suc m..<M]) u = Inr (of_nat k, t)" "in_trans d n t" "same_disk u t"
    "view t (of_nat k) = replicate BSIZE 0"
    "\<forall>bj. bit_set (view t (map_block s k)) bj \<longleftrightarrow> bj = k mod 4096 \<or> bit_set (view s (map_block s k)) bj"
    "\<forall>c. c \<noteq> map_block s k \<longrightarrow> c \<noteq> of_nat k \<longrightarrow> \<not> in_log (lstart u) (nat (lsize u)) c \<longrightarrow> view t c = view s c"
    unfolding V u(4) by auto
  then show ?case using u(1,3) same_disk_trans [OF u(3)] unfolding m(2) by (auto simp: same_disk_def)
qed

lemma balloc_loop_full:
  assumes "in_trans d n s" "fs_layout s" "\<forall>j < fs_size s. in_use s j" "\<forall>q \<in> set qs. q * 4096 < fs_size s"
  shows "balloc_loop 1 (fs_sb s) (map (\<lambda>q. q * 4096) qs) s = Inl (Panic ''balloc: out of blocks'')"
  using assms
proof (induction qs arbitrary: s)
  case (Cons q qs)
  have lt: "q * 4096 < fs_size s" using Cons.prems(4) by simp
  then have fs: "fs_sector s (map_block s (q * 4096))" using Cons.prems(2) by (simp add: fs_layout_def)
  have used: "\<forall>bj < 4096. q * 4096 + bj < fs_size s \<longrightarrow> in_use s (q * 4096 + bj)" using Cons.prems(3) by simp
  obtain u where u: "balloc_loop 1 (fs_sb s) (q * 4096 # map (\<lambda>q. q * 4096) qs) s = balloc_loop 1 (fs_sb s) (map (\<lambda>q. q * 4096) qs) u"
    "in_trans d n u" "same_disk s u" "view u = view s"
    by (rule balloc_skip [OF Cons.prems(1) used lt fs, of "map (\<lambda>q. q * 4096) qs"], rule that)
  show ?case
    using Cons.IH [OF u(2)] u(1) Cons.prems(2-4) fs_layout_cong [OF u(3,4)] fs_view [OF u(4)] by simp
qed simp

text \<open>Two blocks with the same bit of the same bitmap block are the same block.\<close>

lemma map_block_inj:
  assumes "map_block s j = map_block s k" "j mod 4096 = k mod 4096" "j < fs_size s" "k < fs_size s"
  shows "j = k"
proof -
  have b: "j < 2 ^ 32" "k < 2 ^ 32" using size_bound assms(3,4) by blast+
  have "(of_nat (j div 4096) :: uint) = of_nat (k div 4096)"
    using assms(1) of_nat_div_BPB(1) [OF b(1)] of_nat_div_BPB(1) [OF b(2)] by (simp add: map_block_def BBLOCK_def)
  then have "unat (of_nat (j div 4096) :: uint) = unat (of_nat (k div 4096) :: uint)" by simp
  then have "j div 4096 = k div 4096" using b by (simp add: unat_of_nat)
  then show ?thesis using assms(2) by (metis div_mult_mod_eq)
qed

text \<open>One changed bit changes the use of one block.\<close>

lemma in_use_changed:
  assumes "fs_layout s" "k < fs_size s" "log_geom s"
    "\<forall>bj. bit_set (view t (map_block s k)) bj \<longleftrightarrow> (if bj = k mod 4096 then v else bit_set (view s (map_block s k)) bj)"
    "\<forall>c. c \<noteq> map_block s k \<longrightarrow> c \<notin> X \<longrightarrow> \<not> in_log (lstart s) (nat (lsize s)) c \<longrightarrow> view t c = view s c"
    "1 \<notin> X" "\<forall>j < fs_size s. map_block s j \<notin> X" "j < fs_size s"
  shows "fs_sb t = fs_sb s" "in_use t j \<longleftrightarrow> (if j = k then v else in_use s j)"
proof -
  have L: "fs_sector s (map_block s k)" "fs_sector s (map_block s j)" using assms(1,2,8) by (simp_all add: fs_layout_def)
  have "\<not> in_log (lstart s) (nat (lsize s)) 1" by (rule head_facts(3) [OF log_geomD(3) [OF assms(3)]])
  then show sb: "fs_sb t = fs_sb s" using assms(5,6) L(1) by (auto simp: fs_sb_def fs_sector_def)
  then have mb: "map_block t j = map_block s j" by (simp add: map_block_def)
  show "in_use t j \<longleftrightarrow> (if j = k then v else in_use s j)"
  proof (cases "map_block s j = map_block s k")
    case True
    then show ?thesis using map_block_inj [OF True _ assms(8,2)] assms(4) unfolding in_use_def mb by auto
  next
    case False
    then have "view t (map_block s j) = view s (map_block s j)" using assms(5,7,8) L(2) by (simp add: fs_sector_def)
    then show ?thesis using False unfolding in_use_def mb by auto
  qed
qed

lemma bitmap_starts_4096: "bitmap_starts (fs_sb s) = map (\<lambda>q. q * 4096) [0..<(fs_size s + 4095) div 4096]"
  by (simp add: bitmap_starts_def BPB_4096(2) fs_size_def add.commute)

lemma balloc_first:
  fixes s :: "'z fs_scheme"
  assumes "in_trans d (Suc (Suc n)) s" "fs_layout s" "k < fs_size s" "\<not> in_use s k" "\<forall>j < k. in_use s j"
  shows "\<exists>t. balloc 1 s = Inr (of_nat k, t) \<and> log_ok d t \<and> view t (of_nat k) = replicate BSIZE 0 \<and>
    (\<forall>j < fs_size s. in_use t j \<longleftrightarrow> j = k \<or> in_use s j) \<and>
    (\<forall>c. c \<noteq> map_block s k \<longrightarrow> c \<noteq> of_nat k \<longrightarrow> \<not> in_log (lstart s) (nat (lsize s)) c \<longrightarrow> view t c = view s c)"
proof -
  obtain u where u: "readsb 1 s = Inr (fs_sb s, u)" "in_trans d (Suc (Suc n)) u" "same_disk s u" "view u = view s"
    by (rule readsb_trans [OF assms(1)])
  note V = fs_view [OF u(4)] and lu = fs_layout_cong [OF u(3,4), THEN iffD2, OF assms(2)]
  have "k div 4096 < (fs_size s + 4095) div 4096" using assms(3) by simp
  then obtain t where t: "balloc_loop 1 (fs_sb s) (bitmap_starts (fs_sb s)) u = Inr (of_nat k, t)" "in_trans d n t"
    "view t (of_nat k) = replicate BSIZE 0"
    "\<forall>bj. bit_set (view t (map_block s k)) bj \<longleftrightarrow> bj = k mod 4096 \<or> bit_set (view s (map_block s k)) bj"
    "\<forall>c. c \<noteq> map_block s k \<longrightarrow> c \<noteq> of_nat k \<longrightarrow> \<not> in_log (lstart s) (nat (lsize s)) c \<longrightarrow> view t c = view s c"
    using balloc_loop_first [OF u(2) lu, of k 0 "(fs_size s + 4095) div 4096"] assms(3-5) u(3)
    unfolding V u(4) bitmap_starts_4096 same_disk_def by auto
  have L: "1 < k" "\<forall>j < fs_size s. map_block s j \<noteq> of_nat k" using assms(2-4) by (auto simp: fs_layout_def)
  then have "unat (of_nat k :: uint) \<noteq> 1" using size_bound [OF assms(3)] by (simp add: unat_of_nat)
  then have "1 \<notin> {of_nat k :: uint}" by auto
  moreover have "log_geom s" using assms(1) by (simp add: in_trans_def log_ok_def)
  ultimately have "\<forall>j < fs_size s. in_use t j \<longleftrightarrow> j = k \<or> in_use s j"
    using in_use_changed(2) [OF assms(2,3), of t True "{of_nat k}"] t(4,5) L(2) by auto
  then show ?thesis using u(1) t(1-3,5) by (auto simp: balloc_def in_trans_def)
qed

lemma balloc_full:
  assumes "in_trans d n s" "fs_layout s" "\<forall>j < fs_size s. in_use s j"
  shows "balloc 1 s = Inl (Panic ''balloc: out of blocks'')"
proof -
  obtain u where u: "readsb 1 s = Inr (fs_sb s, u)" "in_trans d n u" "same_disk s u" "view u = view s"
    by (rule readsb_trans [OF assms(1)])
  note V = fs_view [OF u(4)] and lu = fs_layout_cong [OF u(3,4), THEN iffD2, OF assms(2)]
  have "\<forall>q \<in> set [0..<(fs_size s + 4095) div 4096]. q * 4096 < fs_size s" by auto
  then have "balloc_loop 1 (fs_sb s) (bitmap_starts (fs_sb s)) u = Inl (Panic ''balloc: out of blocks'')"
    using balloc_loop_full [OF u(2) lu] assms(3) unfolding V bitmap_starts_4096 by simp
  then show ?thesis using u(1) by (simp add: balloc_def)
qed

text \<open>
  C38 (functional).  The block allocator keeps the bitmap as the set of blocks in use.  In a transaction with room for two more sectors
  and on a file system whose metadata is marked as in use: when block \<open>k\<close> is the lowest free one,
  \<open>balloc\<close> returns it, marks it and nothing else as in use, fills it with zeros and changes no other
  block; when no block is free it panics; \<open>bfree\<close> of a block in use takes its mark and nothing else away; and \<open>bfree\<close>
  of a free block panics.
\<close>

theorem balloc_bfree:
  fixes s :: "'z fs_scheme"
  assumes "in_trans d 2 s" "fs_layout s" "k < fs_size s"
  shows "(\<not> in_use s k \<and> (\<forall>j < k. in_use s j) \<longrightarrow>
       (\<exists>t. balloc 1 s = Inr (of_nat k, t) \<and> log_ok d t \<and> view t (of_nat k) = replicate BSIZE 0 \<and>
          (\<forall>j < fs_size s. in_use t j \<longleftrightarrow> j = k \<or> in_use s j) \<and>
          (\<forall>c. c \<noteq> map_block s k \<longrightarrow> c \<noteq> of_nat k \<longrightarrow> \<not> in_log (lstart s) (nat (lsize s)) c \<longrightarrow> view t c = view s c))) \<and>
     ((\<forall>j < fs_size s. in_use s j) \<longrightarrow> balloc 1 s = Inl (Panic ''balloc: out of blocks'')) \<and>
     (in_use s k \<longrightarrow>
       (\<exists>t. bfree 1 (of_nat k) s = Inr t \<and> log_ok d t \<and> (\<forall>j < fs_size s. in_use t j \<longleftrightarrow> j \<noteq> k \<and> in_use s j) \<and>
          (\<forall>c. c \<noteq> map_block s k \<longrightarrow> \<not> in_log (lstart s) (nat (lsize s)) c \<longrightarrow> view t c = view s c))) \<and>
     (\<not> in_use s k \<longrightarrow> bfree 1 (of_nat k) s = Inl (Panic ''freeing free block''))"
proof (intro conjI impI)
  have tr: "in_trans d (Suc (Suc 0)) s" using assms(1) by (simp add: numeral_2_eq_2)
  have fs: "fs_sector s (map_block s k)" using assms(2,3) by (simp add: fs_layout_def)
  have g: "log_geom s" using assms(1) by (simp add: in_trans_def log_ok_def)
  note F = bfree_frees [OF tr assms(3) fs]
  show "bfree 1 (of_nat k) s = Inl (Panic ''freeing free block'')" if "\<not> in_use s k" using F(1) that .
  show "balloc 1 s = Inl (Panic ''balloc: out of blocks'')" if "\<forall>j < fs_size s. in_use s j" by (rule balloc_full [OF tr assms(2) that])
  show "\<exists>t. balloc 1 s = Inr (of_nat k, t) \<and> log_ok d t \<and> view t (of_nat k) = replicate BSIZE 0 \<and>
      (\<forall>j < fs_size s. in_use t j \<longleftrightarrow> j = k \<or> in_use s j) \<and>
      (\<forall>c. c \<noteq> map_block s k \<longrightarrow> c \<noteq> of_nat k \<longrightarrow> \<not> in_log (lstart s) (nat (lsize s)) c \<longrightarrow> view t c = view s c)"
    if "\<not> in_use s k \<and> (\<forall>j < k. in_use s j)" using balloc_first [OF tr assms(2,3)] that by blast
  assume "in_use s k"
  then obtain t where t: "bfree 1 (of_nat k) s = Inr t" "in_trans d (Suc 0) t"
    "\<forall>bj. bit_set (view t (map_block s k)) bj \<longleftrightarrow> bj \<noteq> k mod 4096 \<and> bit_set (view s (map_block s k)) bj"
    "\<forall>c. c \<noteq> map_block s k \<longrightarrow> \<not> in_log (lstart s) (nat (lsize s)) c \<longrightarrow> view t c = view s c"
    using F(2) by blast
  then have "\<forall>j < fs_size s. in_use t j \<longleftrightarrow> j \<noteq> k \<and> in_use s j"
    using in_use_changed(2) [OF assms(2,3) g, of t False "{}"] by auto
  then show "\<exists>t. bfree 1 (of_nat k) s = Inr t \<and> log_ok d t \<and> (\<forall>j < fs_size s. in_use t j \<longleftrightarrow> j \<noteq> k \<and> in_use s j) \<and>
      (\<forall>c. c \<noteq> map_block s k \<longrightarrow> \<not> in_log (lstart s) (nat (lsize s)) c \<longrightarrow> view t c = view s c)"
    using t(1,2,4) by (auto simp: in_trans_def)
qed

subsection \<open>A file system\<close>

text \<open>1024 blocks with the bitmap in block 28; the blocks before 32 and from 1008 on are in use.\<close>

definition small_disk :: disk where
  "small_disk b =
     (if b = 1 then sb_bytes \<lparr>sb_size = 1024, sb_nblocks = 985, sb_ninodes = 200, sb_nlog = 10\<rparr> @ replicate 496 0
      else if b = 28 then replicate 4 255 @ replicate 122 0 @ replicate 2 255 @ replicate 384 0
      else replicate 512 0)"

definition with_inodes :: "log \<Rightarrow> (nat \<Rightarrow> inode) \<Rightarrow> fs" where
  "with_inodes s is' = log.extend s (fs.fields is')"

lemma with_inodes_simps [simp]:
  "inodes (with_inodes s f) = f" "bufs (with_inodes s f) = bufs s" "disksize (with_inodes s f) = disksize s"
  "memdisk (with_inodes s f) = memdisk s" "lstart (with_inodes s f) = lstart s" "lsize (with_inodes s f) = lsize s"
  "ldev (with_inodes s f) = ldev s" "lbusy (with_inodes s f) = lbusy s" "lh_n (with_inodes s f) = lh_n s"
  "lh_sector (with_inodes s f) = lh_sector s"
  by (simp_all add: with_inodes_def log.defs fs.defs)

lemma with_inodes_cache:
  "cache_ok (with_inodes s f) = cache_ok s" "view (with_inodes s f) = view s" "held (with_inodes s f) = held s" "pinned (with_inodes s f) = pinned s"
  by (rule cache_cong; simp)+

lemma with_inodes_log: "log_ok d (with_inodes s f) = log_ok d s"
  by (simp only: log_ok_def log_geom_def logged_def with_inodes_simps with_inodes_cache)

lemma small_disk_sound: "sound 1014 10 1024 small_disk" "settled 1014 small_disk = small_disk"
proof -
  have "replicate 4 (0 :: uchar) = [0, 0, 0, 0]" by (simp add: numeral_eq_Suc)
  then have z: "get32 (small_disk 1014) 0 = 0" by (simp add: small_disk_def get32_def get_bytes_def of_le32_def)
  moreover have "sb_of (small_disk 1) = \<lparr>sb_size = 1024, sb_nblocks = 985, sb_ninodes = 200, sb_nlog = 10\<rparr>"
    by (simp add: small_disk_def sb_of_bytes)
  moreover have "length (small_disk b) = 512" for b by (simp add: small_disk_def sb_bytes_def)
  ultimately show "sound 1014 10 1024 small_disk" by (simp add: sound_def committed_def)
  show "settled 1014 small_disk = small_disk" by (simp add: settled_def committed_def z)
qed

lemma small_disk_bits: "k < 1024 \<Longrightarrow> bit_set (small_disk 28) k \<longleftrightarrow> k < 32 \<or> 1008 \<le> k"
proof -
  assume k: "k < 1024"
  have "n \<in> {0, 1, 2, 3, 4, 5, 6, 7}" if "n < 8" for n :: nat using that by auto
  then have b: "bit (255 :: uchar) (k mod 8)" using mod_less_divisor [of 8 k] by fastforce
  show ?thesis
    using k b by (auto simp: bit_set_def small_disk_def nth_append div_less_iff_less_mult less_diff_conv)
qed

text \<open>The machine after start-up, in a transaction.\<close>

lemma small_fs:
  obtains s :: fs where "in_trans (memdisk s) 8 s" "view s = small_disk(1014 := view s 1014)" "lstart s = 1014" "lsize s = 10" "disksize s = 1024"
    "inodes s = f"
proof -
  have g: "geom 1014 10 1024" by (simp add: geom_def NBUF_def)
  obtain s0 h where s0: "initlog (reboot 1024 small_disk) = Inr s0" "log_ok (memdisk s0) s0" "lh_n s0 = 0" "lstart s0 = 1014"
    "lsize s0 = int 10" "held s0 = {}" "disksize s0 = 1024" "get32 h 0 = 0" "length h = 512" "memdisk s0 = (settled 1014 small_disk)(1014 := h)"
    by (rule reboot_initlog [OF g small_disk_sound(1)])
  define s1 where "s1 = s0\<lparr>lbusy := True\<rparr>"
  have l1: "log_ok (memdisk s1) s1" using log_ok_aside [OF s0(2), of s1] by (simp add: s1_def log_same_def)
  have h1: "held s1 = {}" using s0(6) cache_cong(3) [of s1 s0] by (simp add: s1_def)
  have p1: "pinned s1 = {}" and c1: "cache_ok s1" using l1 s0(3) by (simp_all add: log_ok_def log_geom_def logged_def s1_def)
  have v1: "view s1 = memdisk s1" using view_unpinned [OF c1] h1 p1 by (simp add: fun_eq_iff)
  show thesis
  proof (rule that [of "with_inodes s1 f"])
    show "in_trans (memdisk (with_inodes s1 f)) 8 (with_inodes s1 f)"
      using l1 h1 s0(3,5) by (simp add: in_trans_def with_inodes_cache with_inodes_log) (simp add: s1_def)
    show "view (with_inodes s1 f) = small_disk(1014 := view (with_inodes s1 f) 1014)"
      unfolding with_inodes_cache v1 using s0(10) small_disk_sound(2) by (simp add: s1_def)
  qed (use s0 in \<open>simp_all add: s1_def\<close>)
qed

lemma balloc_bfree_witness:
  "\<exists>(s :: fs) t. fs_layout s \<and> balloc 1 s = Inr (32, t) \<and> view t 32 = replicate BSIZE 0 \<and> in_use t 32 \<and> \<not> in_use t 33
     \<and> bfree 1 500 s = Inl (Panic ''freeing free block'')"
proof -
  obtain s :: fs where s: "in_trans (memdisk s) 8 s" "view s = small_disk(1014 := view s 1014)" "lstart s = 1014" "lsize s = 10" "disksize s = 1024"
    by (rule small_fs [of "\<lambda>_. zero_inode"], rule that)
  have "sb_of (small_disk 1) = \<lparr>sb_size = 1024, sb_nblocks = 985, sb_ninodes = 200, sb_nlog = 10\<rparr>"
    by (simp add: small_disk_def sb_of_bytes)
  moreover have "view s 1 = small_disk 1" by (subst s(2)) simp
  ultimately have sb: "fs_size s = 1024" "sb_ninodes (fs_sb s) = 200" by (simp_all add: fs_size_def fs_sb_def)
  have mb: "map_block s k = 28" if "k < 1024" for k
    using that of_nat_div_BPB(1) [of k] by (simp add: map_block_def BBLOCK_def sb IPB_def BSIZE_def)
  have "view s 28 = small_disk 28" by (subst s(2)) simp
  then have use: "in_use s k \<longleftrightarrow> k < 32 \<or> 1008 \<le> k" if "k < 1024" for k
    using that small_disk_bits [OF that] by (simp add: in_use_def mb)
  have n28: "(28 :: uint) \<noteq> of_nat k" if "32 \<le> k" "k < 1024" for k
  proof
    assume "(28 :: uint) = of_nat k"
    then have "unat (28 :: uint) = unat (of_nat k :: uint)" by simp
    then show False using that by (simp add: unat_of_nat)
  qed
  have lay: "fs_layout s"
    unfolding fs_layout_def sb(1) using use mb n28 by (auto simp: s fs_sector_def in_log_def unat_of_nat)
  have tr: "in_trans (memdisk s) 2 s" using s(1) by (simp add: in_trans_def)
  have k: "32 < fs_size s" "500 < fs_size s" "\<not> in_use s 32 \<and> (\<forall>j < 32. in_use s j)" "\<not> in_use s 500" by (simp_all add: sb use)
  obtain t where "balloc 1 s = Inr (of_nat 32, t)" "view t (of_nat 32) = replicate BSIZE 0" "\<forall>j < fs_size s. in_use t j \<longleftrightarrow> j = 32 \<or> in_use s j"
    using balloc_bfree [OF tr lay k(1)] k(3) by blast
  moreover have "bfree 1 (of_nat 500) s = Inl (Panic ''freeing free block'')" using balloc_bfree [OF tr lay k(2)] k(4) by blast
  ultimately show ?thesis using lay by (intro exI [of _ s] exI [of _ t]) (simp add: sb use)
qed

end
