(* ===== verification/Inode.thy ===== *)
theory Inode
  imports Blocks
begin

text \<open>
  The way of an inode of \<open>fs.c\<close> from the inode cache to its block and back: \<open>iupdate\<close> inside a
  transaction and \<open>ilock\<close> afterwards, through the log and the buffer cache.
\<close>

subsection \<open>An inode in its block\<close>

lemma get_bytes_sub: "a + m \<le> n \<Longrightarrow> get_bytes (get_bytes d off n) a m = get_bytes d (off + a) m"
  by (simp add: get_bytes_def drop_take min_def add.commute)

lemma inode_block: "1 < IBLOCK i" "dinode_off i + 64 \<le> 512"
proof -
  have i: "unat (i div IPB) = unat i div 8" "unat (i mod IPB) = unat i mod 8" "unat i < 2 ^ 32"
    using unsigned_less [of i] by (simp_all add: IPB_def BSIZE_def unat_div unat_mod)
  then have "unat (i div IPB) + 2 < 2 ^ 32" by simp
  then show "1 < IBLOCK i" by (simp add: IBLOCK_def word_less_nat_alt unat_word_ariths)
  show "dinode_off i + 64 \<le> 512" using i(2) by (simp add: dinode_off_def)
qed

text \<open>The fields of an inode at their places in the 64 bytes from \<open>off\<close>.\<close>

definition inode_at :: "uchar list \<Rightarrow> nat \<Rightarrow> inode \<Rightarrow> bool" where
  "inode_at blk off n \<longleftrightarrow> get16 blk off = itype n \<and> get16 blk (off + 2) = imajor n \<and> get16 blk (off + 4) = iminor n \<and>
     get16 blk (off + 6) = inlink n \<and> get32 blk (off + 8) = isize n \<and> (\<forall>i < 13. get32 blk (off + 12 + 4 * i) = iaddrs n ! i)"

lemma inode_at_put:
  assumes "length blk = 512" "off + 64 \<le> 512" "length (iaddrs n) = NDIRECT + 1"
  shows "inode_at (put_bytes blk off (dinode_bytes (inode_dinode n))) off n"
proof -
  let ?d = "dinode_bytes (inode_dinode n)" and ?b = "put_bytes blk off (dinode_bytes (inode_dinode n))"
  have len: "length ?d = 64" using assms(3) by (simp add: inode_dinode_def)
  then have "get_bytes ?b off 64 = ?d" using assms(1,2) by simp
  then have g: "get_bytes ?b (off + a) m = get_bytes ?d a m" if "a + m \<le> 64" for a m
    using get_bytes_sub [OF that, of ?b off] by simp
  have "get32 ?b (off + 12 + 4 * i) = iaddrs n ! i" if "i < 13" for i
    using g [of "12 + 4 * i" 4] that assms(3)
    by (simp add: get32_def dinode_bytes_def inode_dinode_def get_bytes_concat_le32 NDIRECT_def add.assoc)
  then show ?thesis
    using g [of 0 2] g [of 2 2] g [of 4 2] g [of 6 2] g [of 8 4]
    by (simp add: inode_at_def get16_def get32_def dinode_bytes_def inode_dinode_def)
qed

lemma dinode_of_at:
  assumes "inode_at blk off n" "length (iaddrs n) = NDIRECT + 1"
  shows "dinode_of (get_bytes blk off 64) = inode_dinode n"
proof -
  have g: "get_bytes (get_bytes blk off 64) a m = get_bytes blk (off + a) m" if "a + m \<le> 64" for a m
    by (rule get_bytes_sub [OF that])
  have "map (\<lambda>i. get32 (get_bytes blk off 64) (12 + 4 * i)) [0..<NDIRECT + 1] = iaddrs n"
  proof (rule nth_equalityI)
    fix i assume "i < length (map (\<lambda>i. get32 (get_bytes blk off 64) (12 + 4 * i)) [0..<NDIRECT + 1])"
    then have "i < 13" by (simp add: NDIRECT_def)
    then show "map (\<lambda>i. get32 (get_bytes blk off 64) (12 + 4 * i)) [0..<NDIRECT + 1] ! i = iaddrs n ! i"
      using assms(1) g [of "12 + 4 * i" 4] by (simp add: inode_at_def get32_def NDIRECT_def add.assoc del: upt_Suc)
  qed (use assms(2) in simp)
  then show ?thesis
    using assms(1) g [of 0 2] g [of 2 2] g [of 4 2] g [of 6 2] g [of 8 4]
    by (simp add: dinode_of_def inode_at_def inode_dinode_def get16_def get32_def)
qed

text \<open>The entry that \<open>iget\<close> hands out for an inode that is not in the cache.\<close>

definition fresh_inode :: "uint \<Rightarrow> inode \<Rightarrow> bool" where
  "fresh_inode i e \<longleftrightarrow> idev e = 1 \<and> inum e = i \<and> 1 \<le> iref e \<and> \<not> ibusy e \<and> \<not> ivalid e"

lemma ilock_reads:
  fixes t :: "'z fs_scheme"
  assumes "cache_ok t" "b \<in> pinned t" "b \<notin> held t" "fresh_inode i (inodes t jp)" "b = IBLOCK i"
    "inode_at (view t b) (dinode_off i) n" "length (iaddrs n) = NDIRECT + 1" "itype n \<noteq> 0"
  shows "\<exists>u. ilock jp t = Inr u \<and> inode_dinode (inodes u jp) = inode_dinode n \<and> ivalid (inodes u jp) \<and> ibusy (inodes u jp) \<and>
    inum (inodes u jp) = i \<and> view u = view t"
proof -
  have e: "idev (inodes t jp) = 1" "inum (inodes t jp) = i" "\<not> iref (inodes t jp) < 1" "\<not> ibusy (inodes t jp)" "\<not> ivalid (inodes t jp)"
    using assms(4) by (simp_all add: fresh_inode_def)
  let ?t = "upd_inode jp (\<lambda>n. n\<lparr>ibusy := True\<rparr>) t"
  have ct: "cache_ok ?t = cache_ok t" "view ?t = view t" "held ?t = held t" "pinned ?t = pinned t"
    by (rule cache_cong; simp add: upd_inode_def)+
  obtain k v where v: "bread 1 b ?t = Inr (k, v)" "cache_ok v" "keeps ?t v" "view v = view ?t" "pinned v = pinned ?t" "owns v k b"
    using bread_law [of ?t b] avail_pinned [of ?t b] assms(1-3) ct by blast
  have lk: "data (bufs v k) = view t b" using cache.look [OF v(2,6)] v(4) ct(2) by simp
  define w where "w = upd_inode jp (\<lambda>x. x\<lparr>itype := itype n, imajor := imajor n, iminor := iminor n, inlink := inlink n,
    isize := isize n, iaddrs := iaddrs n\<rparr>) v"
  have cw: "cache_ok w = cache_ok v" "view w = view v" "pinned w = pinned v" "owns w = owns v"
    unfolding w_def by (rule cache_cong; simp add: upd_inode_def)+
  obtain x where x: "brelse k w = Inr x" "keeps w x" "view x = view w"
    using brelse_law [of w k b] cw v ct(4) assms(2) by auto
  have d: "dinode_of (get_bytes (view t b) (dinode_off i) 64) = inode_dinode n" by (rule dinode_of_at [OF assms(6,7)])
  have ix: "inodes x = inodes w" "inodes v = inodes ?t" using keeps_inodes x(2) v(3) by blast+
  let ?u = "upd_inode jp (\<lambda>n. n\<lparr>ivalid := True\<rparr>) x"
  have vu: "view ?u = view x" by (rule cache_cong) (simp_all add: upd_inode_def)
  have "ilock jp t = Inr ?u"
    using e v(1) lk d x(1) ix assms(5,8) by (simp add: ilock_def Let_def upd_inode_def w_def inode_dinode_def)
  moreover have "inode_dinode (inodes ?u jp) = inode_dinode n \<and> ivalid (inodes ?u jp) \<and> ibusy (inodes ?u jp) \<and> inum (inodes ?u jp) = i"
    using ix e by (simp add: upd_inode_def w_def inode_dinode_def)
  ultimately show ?thesis using vu x(3) cw(2) v(4) ct(2) by auto
qed

lemma iupdate_writes:
  fixes s :: "'z fs_scheme"
  assumes "log_ok d s" "idev (inodes s ip) = 1" "length (iaddrs (inodes s ip)) = NDIRECT + 1" "can_log (IBLOCK (inum (inodes s ip))) s"
  obtains t where "iupdate ip s = Inr t" "log_ok d t" "inodes t = inodes s" "held t = held s" "IBLOCK (inum (inodes s ip)) \<in> pinned t"
    "view t (IBLOCK (inum (inodes s ip))) = put_bytes (view s (IBLOCK (inum (inodes s ip)))) (dinode_off (inum (inodes s ip)))
       (dinode_bytes (inode_dinode (inodes s ip)))"
    "\<forall>c. c \<noteq> IBLOCK (inum (inodes s ip)) \<longrightarrow> \<not> in_log (lstart s) (nat (lsize s)) c \<longrightarrow> view t c = view s c"
proof -
  let ?n = "inodes s ip"
  let ?x = "put_bytes (view s (IBLOCK (inum ?n))) (dinode_off (inum ?n)) (dinode_bytes (inode_dinode ?n))"
  have ok: "cache_ok s" using assms(1) by (simp add: log_ok_def log_geom_def)
  have "length (dinode_bytes (inode_dinode ?n)) = 64" using assms(3) by (simp add: inode_dinode_def)
  then have len: "length ?x = 512" using length_view [OF ok] inode_block(2) [of "inum ?n"] by simp
  obtain i u v t where t: "bread 1 (IBLOCK (inum ?n)) s = Inr (i, u)" "data (bufs u i) = view s (IBLOCK (inum ?n))"
    "log_write i (set_data i ?x u) = Inr v" "brelse i v = Inr t" "log_ok d t" "view t (IBLOCK (inum ?n)) = ?x"
    "\<forall>c. c \<noteq> IBLOCK (inum ?n) \<longrightarrow> \<not> in_log (lstart s) (nat (lsize s)) c \<longrightarrow> view t c = view s c"
    "held t = held s" "IBLOCK (inum ?n) \<in> pinned t" "inodes t = inodes s" "lbusy t" "lh_n t \<le> lh_n s + 1"
    "lstart t = lstart s" "lsize t = lsize s" "disksize t = disksize s"
    by (rule log_update [OF assms(1,4) len], rule that)
  then have "iupdate ip s = Inr t" using assms(2) by (simp add: iupdate_def Let_def)
  then show thesis using that t(5-10) by blast
qed

lemma put_bytes_other:
  assumes "off + length xs \<le> length d" "x < off \<or> off + length xs \<le> x"
  shows "put_bytes d off xs ! x = d ! x"
proof -
  have "length (take off d) = off" using assms(1) by simp
  then show ?thesis using assms by (auto simp: put_bytes_def nth_append simp del: length_take)
qed

text \<open>
  C32 (roundtrip).  An inode survives its way to the disk block and back.  In a transaction with room for one more
  sector, \<open>iupdate\<close> succeeds and puts every field at its place in the inode's 64 bytes of the inode's
  block; the other inodes of the block and all other blocks keep their contents.  Then \<open>ilock\<close> of
  an entry that \<open>iget\<close> has just handed out for the inode reads the same fields back, whatever the
  entry held before.
\<close>

theorem inode_roundtrip:
  fixes s :: "'z fs_scheme"
  assumes "log_ok d s" "idev (inodes s ip) = 1" "length (iaddrs (inodes s ip)) = NDIRECT + 1" "can_log (IBLOCK (inum (inodes s ip))) s"
  shows "\<exists>t. iupdate ip s = Inr t \<and> log_ok d t \<and> inodes t = inodes s \<and>
     (let n = inodes s ip; b = IBLOCK (inum n); off = dinode_off (inum n)
      in inode_at (view t b) off n \<and>
         (\<forall>x. x < off \<or> off + 64 \<le> x \<longrightarrow> view t b ! x = view s b ! x) \<and>
         (\<forall>c. c \<noteq> b \<longrightarrow> \<not> in_log (lstart s) (nat (lsize s)) c \<longrightarrow> view t c = view s c) \<and>
         (\<forall>jp e. itype n \<noteq> 0 \<longrightarrow> fresh_inode (inum n) e \<longrightarrow>
            (\<exists>u. ilock jp (upd_inode jp (\<lambda>_. e) t) = Inr u \<and> inode_dinode (inodes u jp) = inode_dinode n \<and>
               ivalid (inodes u jp) \<and> ibusy (inodes u jp) \<and> inum (inodes u jp) = inum n \<and> view u = view t)))"
proof -
  define n where "n = inodes s ip"
  define b where "b = IBLOCK (inum n)"
  define off where "off = dinode_off (inum n)"
  have ok: "cache_ok s" using assms(1) by (simp add: log_ok_def log_geom_def)
  have blk: "length (view s b) = 512" "off + 64 \<le> 512" using length_view [OF ok] inode_block(2) by (simp_all add: off_def)
  have an: "length (iaddrs n) = NDIRECT + 1" using assms(3) by (simp add: n_def)
  have dl: "length (dinode_bytes (inode_dinode n)) = 64" using an by (simp add: inode_dinode_def)
  obtain t where t: "iupdate ip s = Inr t" "log_ok d t" "inodes t = inodes s" "held t = held s" "b \<in> pinned t"
    "view t b = put_bytes (view s b) off (dinode_bytes (inode_dinode n))"
    "\<forall>c. c \<noteq> b \<longrightarrow> \<not> in_log (lstart s) (nat (lsize s)) c \<longrightarrow> view t c = view s c"
    by (rule iupdate_writes [OF assms, folded n_def, folded b_def off_def], rule that)
  have at: "inode_at (view t b) off n" unfolding t(6) by (rule inode_at_put [OF blk an])
  have "view t b ! x = view s b ! x" if "x < off \<or> off + 64 \<le> x" for x
    unfolding t(6) by (rule put_bytes_other) (use blk dl that in simp_all)
  moreover have "\<exists>u. ilock jp (upd_inode jp (\<lambda>_. e) t) = Inr u \<and> inode_dinode (inodes u jp) = inode_dinode n \<and>
      ivalid (inodes u jp) \<and> ibusy (inodes u jp) \<and> inum (inodes u jp) = inum n \<and> view u = view t"
    if "itype n \<noteq> 0" "fresh_inode (inum n) e" for jp e
  proof -
    let ?t = "upd_inode jp (\<lambda>_. e) t"
    have ct: "cache_ok ?t = cache_ok t" "view ?t = view t" "held ?t = held t" "pinned ?t = pinned t"
      by (rule cache_cong; simp add: upd_inode_def)+
    have "cache_ok t" "b \<notin> held s" using t(2) assms(4) by (simp_all add: log_ok_def log_geom_def can_log_def b_def n_def)
    then show ?thesis
      using ilock_reads [of ?t b "inum n" jp n] ct t(4,5) that at an by (simp add: b_def off_def upd_inode_def)
  qed
  ultimately show ?thesis
    unfolding Let_def n_def [symmetric] b_def [symmetric] off_def [symmetric] using t(1-3,7) at by blast
qed

text \<open>A file system on the empty disk in a transaction, with inode 9 in the cache.\<close>

definition a_file :: inode where
  "a_file = zero_inode\<lparr>idev := 1, inum := 9, iref := 1, ibusy := True, ivalid := True, itype := T_FILE, inlink := 1, isize := 100\<rparr>"

lemma inode_roundtrip_witness:
  "\<exists>(s :: fs) t u. log_ok (memdisk s) s \<and> inodes s 0 = a_file \<and> iupdate 0 s = Inr t
     \<and> ilock 5 (upd_inode 5 (\<lambda>_. zero_inode\<lparr>idev := 1, inum := 9, iref := 1\<rparr>) t) = Inr u
     \<and> itype (inodes u 5) = T_FILE \<and> isize (inodes u 5) = 100 \<and> inum (inodes u 5) = 9"
proof -
  obtain s :: fs where s: "in_trans (memdisk s) 8 s" "view s = small_disk(1014 := view s 1014)" "lstart s = 1014" "lsize s = 10" "disksize s = 1024"
    "inodes s = (\<lambda>_. a_file)" by (rule small_fs [of "\<lambda>_. a_file"], rule that)
  have ls: "log_ok (memdisk s) s" using s(1) by (simp add: in_trans_def)
  have "IBLOCK 9 = 3" by (simp add: IBLOCK_def IPB_def BSIZE_def)
  moreover have "can_log 3 s" by (rule in_trans_can_log [of _ 7]) (use s in \<open>simp_all add: fs_sector_def in_log_def\<close>)
  ultimately have "can_log (IBLOCK (inum (inodes s 0))) s" by (simp add: s(6) a_file_def)
  moreover have "idev (inodes s 0) = 1" "length (iaddrs (inodes s 0)) = NDIRECT + 1"
    by (simp_all add: s(6) a_file_def zero_inode_def NDIRECT_def)
  moreover have fr: "fresh_inode (inum a_file) (zero_inode\<lparr>idev := 1, inum := 9, iref := 1\<rparr>)" "itype a_file \<noteq> 0" "inodes s 0 = a_file"
    by (simp_all add: fresh_inode_def a_file_def zero_inode_def T_FILE_def s(6))
  ultimately obtain t u where "iupdate 0 s = Inr t"
    "ilock 5 (upd_inode 5 (\<lambda>_. zero_inode\<lparr>idev := 1, inum := 9, iref := 1\<rparr>) t) = Inr u"
    "inode_dinode (inodes u 5) = inode_dinode a_file" "inum (inodes u 5) = inum a_file"
    using inode_roundtrip [OF ls, of 0] unfolding Let_def fr(3) by blast
  moreover from this have "itype (inodes u 5) = T_FILE" "isize (inodes u 5) = 100" "inum (inodes u 5) = 9"
    by (simp_all add: inode_dinode_def a_file_def)
  ultimately show ?thesis using ls fr(3) by blast
qed

end
