(* ===== verification/Pipe.thy ===== *)
theory Pipe
  imports Fs
begin

text \<open>
  \<open>pipe.c\<close>, apart from \<open>pipealloc\<close>, which needs the file table.  \<open>pipes\<close> gives the \<open>struct pipe\<close> at the
  address of its page.  \<open>pipewrite\<close> may sleep in the middle of its work: its model returns
  \<open>Block\<close> with the bytes that are left, and the call goes on from there when it is woken.
\<close>

subsection \<open>State\<close>

definition PIPESIZE :: nat where "PIPESIZE = 512"

record pipe =
  pdata :: "uchar list"
  nread :: uint
  nwrite :: uint
  readopen :: bool
  writeopen :: bool

record pipes = fs +
  pipes :: "uint \<Rightarrow> pipe"

datatype ('k, 'a) call = Ret 'a | Block chan 'k

definition upd_pipe :: "uint \<Rightarrow> (pipe \<Rightarrow> pipe) \<Rightarrow> 'z pipes_scheme \<Rightarrow> 'z pipes_scheme" where
  "upd_pipe p f s = s\<lparr>pipes := (pipes s)(p := f (pipes s p))\<rparr>"

text \<open>\<open>proc->killed\<close>.\<close>

definition proc_killed :: "'z kern_scheme \<Rightarrow> bool" where
  "proc_killed s = (case curproc s of None \<Rightarrow> False | Some p \<Rightarrow> killed (ptable s p))"

subsection \<open>Routines\<close>

definition pipeclose :: "uint \<Rightarrow> bool \<Rightarrow> 'z pipes_scheme \<Rightarrow> 'z pipes_scheme outcome" where
  "pipeclose p writable s =
     (let s = (if writable then wakeup (Some (ChPipeRead p)) (upd_pipe p (\<lambda>q. q\<lparr>writeopen := False\<rparr>) s)
               else wakeup (Some (ChPipeWrite p)) (upd_pipe p (\<lambda>q. q\<lparr>readopen := False\<rparr>) s))
      in if \<not> readopen (pipes s p) \<and> \<not> writeopen (pipes s p) then kfree p s else Inr s)"

definition pipe_full :: "pipe \<Rightarrow> bool" where
  "pipe_full q \<longleftrightarrow> nwrite q = nread q + of_nat PIPESIZE"

definition pipe_put :: "uchar \<Rightarrow> pipe \<Rightarrow> pipe" where
  "pipe_put b q = q\<lparr>pdata := (pdata q)[unat (nwrite q) mod PIPESIZE := b], nwrite := nwrite q + 1\<rparr>"

definition pipe_get :: "pipe \<Rightarrow> uchar \<times> pipe" where
  "pipe_get q = (pdata q ! (unat (nread q) mod PIPESIZE), q\<lparr>nread := nread q + 1\<rparr>)"

fun pipewrite_loop :: "uint \<Rightarrow> int \<Rightarrow> uchar list \<Rightarrow> 'z pipes_scheme \<Rightarrow> (uchar list, int) call \<times> 'z pipes_scheme" where
  "pipewrite_loop p n [] s = (Ret n, wakeup (Some (ChPipeRead p)) s)"
| "pipewrite_loop p n (b # bs) s =
     (if pipe_full (pipes s p)
      then if \<not> readopen (pipes s p) \<or> proc_killed s then (Ret (- 1), s)
           else (Block (ChPipeWrite p) (b # bs), wakeup (Some (ChPipeRead p)) s)
      else pipewrite_loop p n bs (upd_pipe p (pipe_put b) s))"

definition pipewrite :: "uint \<Rightarrow> uchar list \<Rightarrow> 'z pipes_scheme \<Rightarrow> (uchar list, int) call \<times> 'z pipes_scheme" where
  "pipewrite p bs s = pipewrite_loop p (int (length bs)) bs s"

fun piperead_loop :: "nat \<Rightarrow> pipe \<Rightarrow> uchar list \<times> pipe" where
  "piperead_loop 0 q = ([], q)"
| "piperead_loop (Suc n) q =
     (if nread q = nwrite q then ([], q)
      else let (b, q) = pipe_get q; (bs, q) = piperead_loop n q in (b # bs, q))"

definition piperead :: "uint \<Rightarrow> int \<Rightarrow> 'z pipes_scheme \<Rightarrow> (unit, int \<times> uchar list) call \<times> 'z pipes_scheme" where
  "piperead p n s =
     (if nread (pipes s p) = nwrite (pipes s p) \<and> writeopen (pipes s p)
      then if proc_killed s then (Ret (- 1, []), s) else (Block (ChPipeRead p) (), s)
      else let (bs, q) = piperead_loop (nat n) (pipes s p)
           in (Ret (int (length bs), bs), wakeup (Some (ChPipeWrite p)) (upd_pipe p (\<lambda>_. q) s)))"

subsection \<open>The bytes in a pipe\<close>

text \<open>
  The counters run freely and wrap around at \<open>2 ^ 32\<close>, a multiple of \<open>PIPESIZE\<close>; the bytes between
  them are the contents of the pipe.
\<close>

definition pipe_len :: "pipe \<Rightarrow> nat" where
  "pipe_len q = unat (nwrite q - nread q)"

definition pipe_bytes :: "pipe \<Rightarrow> uchar list" where
  "pipe_bytes q = map (\<lambda>k. pdata q ! (unat (nread q + of_nat k) mod PIPESIZE)) [0..<pipe_len q]"

definition pipe_ok :: "pipe \<Rightarrow> bool" where
  "pipe_ok q \<longleftrightarrow> length (pdata q) = PIPESIZE \<and> pipe_len q \<le> PIPESIZE"

text \<open>A bounded queue of bytes, the contract of a pipe.\<close>

locale byte_queue =
  fixes ok :: "'q \<Rightarrow> bool"
    and bytes :: "'q \<Rightarrow> uchar list"
    and full empty :: "'q \<Rightarrow> bool"
    and put :: "uchar \<Rightarrow> 'q \<Rightarrow> 'q"
    and get :: "'q \<Rightarrow> uchar \<times> 'q"
    and cap :: nat
  assumes full: "ok q \<Longrightarrow> full q \<longleftrightarrow> length (bytes q) = cap"
    and empty: "ok q \<Longrightarrow> empty q \<longleftrightarrow> bytes q = []"
    and put: "ok q \<Longrightarrow> \<not> full q \<Longrightarrow> ok (put b q) \<and> bytes (put b q) = bytes q @ [b]"
    and get: "ok q \<Longrightarrow> \<not> empty q \<Longrightarrow> ok (snd (get q)) \<and> bytes q = fst (get q) # bytes (snd (get q))"
begin

text \<open>Any sequence of puts (\<open>Some b\<close>) and gets (\<open>None\<close>), each done only when it is possible.\<close>

fun play :: "uchar option list \<Rightarrow> 'q \<Rightarrow> uchar list \<times> uchar list \<times> 'q" where
  "play [] q = ([], [], q)"
| "play (Some b # ops) q =
     (if full q then play ops q else let (ins, outs, q) = play ops (put b q) in (b # ins, outs, q))"
| "play (None # ops) q =
     (if empty q then play ops q else let (c, q) = get q; (ins, outs, q) = play ops q in (ins, c # outs, q))"

lemma play_fifo:
  assumes "ok q" "play ops q = (ins, outs, r)"
  shows "ok r \<and> bytes q @ ins = outs @ bytes r"
  using assms
proof (induction ops q arbitrary: ins outs r rule: play.induct)
  case (2 b ops q)
  show ?case
  proof (cases "full q")
    case False
    obtain ins' outs' r' where p: "play ops (put b q) = (ins', outs', r')" by (cases "play ops (put b q)") auto
    with 2(4) False have "ins = b # ins'" "outs = outs'" "r = r'" by auto
    with 2(2) [OF False _ p] put [OF 2(3) False, of b] show ?thesis by auto
  qed (use 2 in auto)
next
  case (3 ops q)
  show ?case
  proof (cases "empty q")
    case False
    obtain c q' where g: "get q = (c, q')" by (cases "get q")
    obtain ins' outs' r' where p: "play ops q' = (ins', outs', r')" by (cases "play ops q'") auto
    with 3(4) False g have "ins = ins'" "outs = c # outs'" "r = r'" by auto
    with 3(2) [OF False g [symmetric] refl _ p] get [OF 3(3) False] g show ?thesis by auto
  qed (use 3 in auto)
qed auto

end

subsection \<open>A pipe is a queue\<close>

lemma pipe_index:
  "unat (w + of_nat k :: uint) mod PIPESIZE = (unat w + k) mod PIPESIZE"
proof -
  have "unat (w + of_nat k) = (unat w + k) mod 2 ^ 32" by (simp add: unat_word_ariths unat_of_nat mod_simps)
  then show ?thesis by (simp add: PIPESIZE_def mod_mod_cancel)
qed

lemma pipe_full_len: "pipe_full q \<longleftrightarrow> pipe_len q = PIPESIZE"
proof -
  have "pipe_full q \<longleftrightarrow> nwrite q - nread q = of_nat PIPESIZE" by (auto simp: pipe_full_def algebra_simps)
  also have "\<dots> \<longleftrightarrow> pipe_len q = unat (of_nat PIPESIZE :: uint)" unfolding pipe_len_def by (rule word_unat_eq_iff)
  finally show ?thesis by (simp add: PIPESIZE_def)
qed

lemma pipe_empty_len: "nread q = nwrite q \<longleftrightarrow> pipe_len q = 0"
  unfolding pipe_len_def unat_eq_zero by auto

lemma length_pipe_bytes [simp]: "length (pipe_bytes q) = pipe_len q"
  by (simp add: pipe_bytes_def)

lemma pipe_bytes_nth: "k < pipe_len q \<Longrightarrow> pipe_bytes q ! k = pdata q ! ((unat (nread q) + k) mod PIPESIZE)"
  by (simp add: pipe_bytes_def pipe_index)

lemma mod_apart:
  assumes "k < n" "n < m"
  shows "(a + k) mod m \<noteq> (a + n) mod (m :: nat)"
proof
  assume "(a + k) mod m = (a + n) mod m"
  then have "m dvd (a + n) - (a + k)" using assms(1) mod_eq_dvd_iff_nat [of "a + k" "a + n" m] by simp
  then show False using nat_dvd_not_less [of "n - k" m] assms by simp
qed

lemma pipe_put_queue:
  assumes "pipe_ok q" "\<not> pipe_full q"
  shows "pipe_ok (pipe_put b q)" "pipe_bytes (pipe_put b q) = pipe_bytes q @ [b]"
proof -
  let ?n = "pipe_len q"
  have n: "?n < PIPESIZE" using assms by (simp add: pipe_ok_def pipe_full_len)
  have "nwrite (pipe_put b q) - nread (pipe_put b q) = (nwrite q - nread q) + 1" by (simp add: pipe_put_def)
  moreover have "unat ((nwrite q - nread q) + 1) = ?n + 1"
    using n unfolding pipe_len_def PIPESIZE_def by (subst unat_word_ariths) simp
  ultimately have len: "pipe_len (pipe_put b q) = ?n + 1" by (simp add: pipe_len_def)
  then show "pipe_ok (pipe_put b q)" using assms n by (simp add: pipe_ok_def pipe_put_def)
  have "nwrite q = nread q + of_nat ?n" by (simp add: pipe_len_def)
  then have w: "unat (nwrite q) mod PIPESIZE = (unat (nread q) + ?n) mod PIPESIZE" by (metis pipe_index)
  show "pipe_bytes (pipe_put b q) = pipe_bytes q @ [b]"
  proof (rule nth_equalityI)
    fix k assume "k < length (pipe_bytes (pipe_put b q))"
    then have k: "k < ?n + 1" by (simp add: len)
    have "pipe_bytes (pipe_put b q) ! k = (pdata q)[(unat (nread q) + ?n) mod PIPESIZE := b] ! ((unat (nread q) + k) mod PIPESIZE)"
      using pipe_bytes_nth [of k "pipe_put b q"] k len by (simp add: pipe_put_def w)
    also have "\<dots> = (pipe_bytes q @ [b]) ! k"
    proof (cases "k = ?n")
      case True
      then show ?thesis using assms(1) by (simp add: nth_append pipe_ok_def PIPESIZE_def)
    next
      case False
      with k have "k < ?n" by simp
      with mod_apart [OF this n, of "unat (nread q)"] show ?thesis by (simp add: nth_append pipe_bytes_nth)
    qed
    finally show "pipe_bytes (pipe_put b q) ! k = (pipe_bytes q @ [b]) ! k" .
  qed (simp add: len)
qed

lemma pipe_get_queue:
  assumes "pipe_ok q" "nread q \<noteq> nwrite q"
  shows "pipe_ok (snd (pipe_get q)) \<and> pipe_bytes q = fst (pipe_get q) # pipe_bytes (snd (pipe_get q))"
proof -
  let ?r = "snd (pipe_get q)"
  have pos: "0 < pipe_len q" using assms(2) by (simp add: pipe_empty_len)
  have "nwrite ?r - nread ?r = (nwrite q - nread q) - 1" by (simp add: pipe_get_def)
  moreover have "unat ((nwrite q - nread q) - 1) = pipe_len q - 1"
    using assms(2) unat_minus_one [of "nwrite q - nread q"] by (simp add: pipe_len_def)
  ultimately have len: "pipe_len ?r = pipe_len q - 1" by (simp add: pipe_len_def)
  have "pipe_bytes q = fst (pipe_get q) # pipe_bytes ?r"
  proof (rule nth_equalityI)
    show "length (pipe_bytes q) = length (fst (pipe_get q) # pipe_bytes ?r)" using len pos by simp
    fix k assume k: "k < length (pipe_bytes q)"
    show "pipe_bytes q ! k = (fst (pipe_get q) # pipe_bytes ?r) ! k"
    proof (cases k)
      case 0
      then show ?thesis using pos by (simp add: pipe_bytes_nth pipe_get_def)
    next
      case (Suc j)
      have "unat (nread ?r + of_nat j) mod PIPESIZE = unat (nread q + of_nat (Suc j)) mod PIPESIZE"
        by (simp add: pipe_get_def algebra_simps)
      then have "(unat (nread ?r) + j) mod PIPESIZE = (unat (nread q) + Suc j) mod PIPESIZE" by (simp only: pipe_index)
      then show ?thesis using Suc k len by (simp add: pipe_bytes_nth) (simp add: pipe_get_def)
    qed
  qed
  moreover have "pdata ?r = pdata q" by (simp add: pipe_get_def)
  then have "pipe_ok ?r" using assms(1) len by (auto simp: pipe_ok_def)
  ultimately show ?thesis by simp
qed

interpretation pq: byte_queue pipe_ok pipe_bytes pipe_full "\<lambda>q. nread q = nwrite q" pipe_put pipe_get PIPESIZE
proof (unfold_locales, goal_cases)
  case (1 q) show ?case by (simp add: pipe_full_len)
next
  case (2 q) show ?case by (simp add: pipe_empty_len flip: length_0_conv)
next
  case (3 q b) then show ?case using pipe_put_queue by blast
next
  case (4 q) then show ?case using pipe_get_queue by blast
qed

subsection \<open>Calls on a pipe\<close>

lemma upd_pipe_simps [simp]:
  "pipes (upd_pipe p f s) = (pipes s)(p := f (pipes s p))" "ptable (upd_pipe p f s) = ptable s"
  "curproc (upd_pipe p f s) = curproc s"
  by (simp_all add: upd_pipe_def)

lemma wakeup_pipes [simp]: "pipes (wakeup ch s) = pipes s" "curproc (wakeup ch s) = curproc s"
  by (simp_all add: wakeup_eq)

lemma piperead_loop_queue:
  assumes "pipe_ok q" "piperead_loop n q = (bs, r)"
  shows "pipe_ok r \<and> pipe_bytes q = bs @ pipe_bytes r \<and> length bs = min n (pipe_len q) \<and>
    writeopen r = writeopen q \<and> readopen r = readopen q"
  using assms
proof (induction n q arbitrary: bs r rule: piperead_loop.induct)
  case (2 n q)
  show ?case
  proof (cases "nread q = nwrite q")
    case False
    obtain b q1 where g: "pipe_get q = (b, q1)" by (cases "pipe_get q")
    obtain cs q2 where l: "piperead_loop n q1 = (cs, q2)" by (cases "piperead_loop n q1")
    have r: "bs = b # cs" "r = q2" using 2(3) False g l by auto
    have q1: "pipe_ok q1" "pipe_bytes q = b # pipe_bytes q1" using pq.get [OF 2(2) False] g by auto
    then have "pipe_len q = Suc (pipe_len q1)" by (metis length_Cons length_pipe_bytes)
    moreover have "writeopen q1 = writeopen q" "readopen q1 = readopen q" using g by (auto simp: pipe_get_def)
    ultimately show ?thesis using 2(1) [OF False g [symmetric] refl q1(1) l] q1(2) r by simp
  qed (use 2 in \<open>auto simp: pipe_empty_len\<close>)
qed auto

lemma pipewrite_loop_queue:
  assumes "pipe_ok (pipes s p)" "pipewrite_loop p n bs s = (r, t)"
  obtains d rest where "bs = d @ rest" "pipe_ok (pipes t p)" "pipe_bytes (pipes t p) = pipe_bytes (pipes s p) @ d"
    "r = Ret n \<and> rest = [] \<or> rest \<noteq> [] \<and> pipe_full (pipes t p) \<and> (r = Ret (- 1) \<or> r = Block (ChPipeWrite p) rest)"
    "\<And>p'. p' \<noteq> p \<Longrightarrow> pipes t p' = pipes s p'" "readopen (pipes t p) = readopen (pipes s p)" "writeopen (pipes t p) = writeopen (pipes s p)"
  using assms
proof (induction p n bs s arbitrary: thesis rule: pipewrite_loop.induct)
  case (1 p n s)
  then show ?case by (intro "1.prems"(1) [of "[]" "[]"]) auto
next
  case (2 p n b bs s)
  show ?case
  proof (cases "pipe_full (pipes s p)")
    case True
    with 2(4) show ?thesis by (intro "2.prems"(1) [of "[]" "b # bs"]) (use 2(3) in \<open>auto split: if_splits\<close>)
  next
    case False
    let ?u = "upd_pipe p (pipe_put b) s"
    have u: "pipe_ok (pipes ?u p)" "pipe_bytes (pipes ?u p) = pipe_bytes (pipes s p) @ [b]"
      using pipe_put_queue [OF 2(3) False] by simp_all
    have l: "pipewrite_loop p n bs ?u = (r, t)" using 2(4) False by simp
    from 2(1) [OF False _ u(1) l]
    obtain d rest where "bs = d @ rest" "pipe_ok (pipes t p)" "pipe_bytes (pipes t p) = pipe_bytes (pipes ?u p) @ d"
      "r = Ret n \<and> rest = [] \<or> rest \<noteq> [] \<and> pipe_full (pipes t p) \<and> (r = Ret (- 1) \<or> r = Block (ChPipeWrite p) rest)"
      "\<And>p'. p' \<noteq> p \<Longrightarrow> pipes t p' = pipes ?u p'" "readopen (pipes t p) = readopen (pipes ?u p)" "writeopen (pipes t p) = writeopen (pipes ?u p)"
      by metis
    then show ?thesis by (intro "2.prems"(1) [of "b # d" rest]) (use u in \<open>auto simp: pipe_put_def\<close>)
  qed
qed

subsection \<open>All uses of a pipe\<close>

text \<open>
  Any interleaving of calls on pipe \<open>p\<close>, by any number of processes: \<open>ins\<close> are the bytes that were put in
  and \<open>outs\<close> those that were read.  A call that blocked is resumed as a new call with the bytes that
  were left.  Anything else that happens does not touch the data or the counters.
\<close>

inductive pipe_hist :: "uint \<Rightarrow> 'z pipes_scheme \<Rightarrow> uchar list \<Rightarrow> uchar list \<Rightarrow> 'z pipes_scheme \<Rightarrow> bool" for p s0 where
  hist_start: "pipe_hist p s0 [] [] s0"
| hist_write: "pipe_hist p s0 ins outs s \<Longrightarrow> pipewrite_loop p n bs s = (r, t) \<Longrightarrow>
    pipe_hist p s0 (ins @ take (pipe_len (pipes t p) - pipe_len (pipes s p)) bs) outs t"
| hist_read: "pipe_hist p s0 ins outs s \<Longrightarrow> piperead p n s = (Ret (k, bs), t) \<Longrightarrow> pipe_hist p s0 ins (outs @ bs) t"
| hist_wait: "pipe_hist p s0 ins outs s \<Longrightarrow> piperead p n s = (Block ch u, t) \<Longrightarrow> pipe_hist p s0 ins outs t"
| hist_other: "pipe_hist p s0 ins outs s \<Longrightarrow> pdata (pipes t p) = pdata (pipes s p) \<Longrightarrow>
    nread (pipes t p) = nread (pipes s p) \<Longrightarrow> nwrite (pipes t p) = nwrite (pipes s p) \<Longrightarrow> pipe_hist p s0 ins outs t"

lemma pipe_same:
  assumes "pdata q = pdata r" "nread q = nread r" "nwrite q = nwrite r"
  shows "pipe_ok q = pipe_ok r" "pipe_bytes q = pipe_bytes r"
  using assms by (simp_all add: pipe_ok_def pipe_len_def pipe_bytes_def)

lemma pipe_hist_queue:
  assumes "pipe_hist p s0 ins outs s" "pipe_ok (pipes s0 p)"
  shows "pipe_ok (pipes s p) \<and> pipe_bytes (pipes s0 p) @ ins = outs @ pipe_bytes (pipes s p)"
  using assms
proof (induction rule: pipe_hist.induct)
  case (hist_write ins outs s n bs r t)
  then have ok: "pipe_ok (pipes s p)" by simp
  from pipewrite_loop_queue [OF ok hist_write.hyps(2)] obtain d rest where w: "bs = d @ rest" "pipe_ok (pipes t p)"
    "pipe_bytes (pipes t p) = pipe_bytes (pipes s p) @ d" by metis
  then have "pipe_len (pipes t p) - pipe_len (pipes s p) = length d" by (metis add_diff_cancel_left' length_append length_pipe_bytes)
  with w hist_write show ?case by simp
next
  case (hist_read ins outs s n k bs t)
  show ?case
  proof (cases "nread (pipes s p) = nwrite (pipes s p) \<and> writeopen (pipes s p)")
    case True
    with hist_read show ?thesis by (auto simp: piperead_def split: if_splits)
  next
    case False
    obtain cs q where l: "piperead_loop (nat n) (pipes s p) = (cs, q)" by (cases "piperead_loop (nat n) (pipes s p)")
    then have "cs = bs" "pipes t p = q" using hist_read.hyps(2) False by (auto simp: piperead_def)
    with piperead_loop_queue [OF _ l] hist_read show ?thesis by simp
  qed
next
  case (hist_wait ins outs s n ch u t)
  then have "t = s" by (auto simp: piperead_def Let_def split: if_splits prod.splits)
  with hist_wait show ?case by simp
next
  case (hist_other ins outs s t)
  with pipe_same [of "pipes t p" "pipes s p"] show ?case by simp
qed simp

text \<open>
  C29 (refinement).  A pipe is a bounded first-in first-out queue.  Over any interleaving of writers and readers,
  blocked and resumed at any point, and across the wrap-around of the counters at \<open>2 ^ 32\<close>, the bytes
  read are the bytes written, in order, without loss or repetition, followed by at most 512
  bytes still in the pipe.
\<close>

theorem pipe_fifo:
  assumes "pipe_hist p s0 ins outs s" "length (pdata (pipes s0 p)) = PIPESIZE" "nread (pipes s0 p) = nwrite (pipes s0 p)"
  shows "ins = outs @ pipe_bytes (pipes s p) \<and> length (pipe_bytes (pipes s p)) \<le> PIPESIZE"
proof -
  have "pipe_len (pipes s0 p) = 0" using assms(3) pipe_empty_len by blast
  then have "pipe_ok (pipes s0 p)" "pipe_bytes (pipes s0 p) = []" using assms(2) by (simp_all add: pipe_ok_def pipe_bytes_def)
  with pipe_hist_queue [OF assms(1)] show ?thesis by (simp add: pipe_ok_def)
qed

definition zero_pipe :: pipe where
  "zero_pipe = \<lparr>pdata = replicate PIPESIZE 0, nread = 0, nwrite = 0, readopen = True, writeopen = True\<rparr>"

definition boot_pipes :: pipes where
  "boot_pipes = fs.extend boot_fs (pipes.fields (\<lambda>_. zero_pipe))"

lemma boot_pipes_simps [simp]: "pipes boot_pipes = (\<lambda>_. zero_pipe)"
  by (simp add: boot_pipes_def fs.defs pipes.defs)

lemma pipe_fifo_witness:
  "\<exists>t u. pipewrite 0 [1, 2, 3] boot_pipes = (Ret 3, t) \<and> piperead 0 2 t = (Ret (2, [1, 2]), u) \<and> pipe_bytes (pipes u 0) = [3]"
proof -
  let ?q = "pipe_put 3 (pipe_put 2 (pipe_put 1 zero_pipe))"
  obtain t where t: "pipewrite 0 [1, 2, 3] boot_pipes = (Ret 3, t)" "pipes t 0 = ?q"
    by (simp add: pipewrite_def pipe_full_def zero_pipe_def PIPESIZE_def pipe_put_def)
  have nat_2: "nat 2 = Suc (Suc 0)" by simp
  obtain u where u: "piperead 0 2 t = (Ret (2, [1, 2]), u)"
    unfolding piperead_def t(2) nat_2 by (simp add: pipe_get_def pipe_put_def zero_pipe_def PIPESIZE_def nth_list_update)
  have w: "pipewrite_loop 0 3 [1, 2, 3] boot_pipes = (Ret 3, t)" using t(1) by (simp add: pipewrite_def)
  have "pipe_len (pipes t 0) = 3" "pipe_len zero_pipe = 0"
    unfolding t(2) by (simp_all add: pipe_len_def pipe_put_def zero_pipe_def)
  then have "pipe_hist 0 boot_pipes [1, 2, 3] [1, 2] u"
    using hist_read [OF hist_write [OF hist_start w] u] by simp
  from pipe_fifo [OF this] have "pipe_bytes (pipes u 0) = [3]" by (simp add: zero_pipe_def)
  with t(1) u show ?thesis by blast
qed

subsection \<open>Wakeups\<close>

definition asleep_on :: "chan \<Rightarrow> 'z kern_scheme \<Rightarrow> bool" where
  "asleep_on ch s \<longleftrightarrow> (\<exists>q < NPROC. state (ptable s q) = SLEEPING \<and> pchan (ptable s q) = Some ch)"

lemma wakeup_none_asleep [simp]: "\<not> asleep_on ch (wakeup (Some ch) s)"
  by (auto simp: asleep_on_def wakeup_eq)

text \<open>
  The part of \<open>sleep\<close> that marks the current process.  The caller holds the pipe's lock until \<open>sleep\<close> has
  taken \<open>ptable.lock\<close>, so the test that made it sleep and the mark are one step for all other calls on
  the pipe.
\<close>

definition go_sleep :: "chan \<Rightarrow> 'z kern_scheme \<Rightarrow> 'z kern_scheme outcome" where
  "go_sleep ch s =
     (case curproc s of None \<Rightarrow> Inl (Panic ''sleep'')
      | Some q \<Rightarrow> Inr (upd_proc q (\<lambda>x. x\<lparr>pchan := Some ch, state := SLEEPING\<rparr>) s))"

text \<open>
  Processes that use pipe \<open>p\<close>: any of them writes, reads or closes an end; a call that blocks puts its
  process to sleep; and any other step of the kernel (a switch to another process, \<open>kill\<close>, a call on
  another file) leaves the pipe alone and puts nobody to sleep on it.  The flag says that a writer has
  left the pipe with an error since the readers were last woken.
\<close>

inductive pipe_sys :: "uint \<Rightarrow> 'z pipes_scheme \<Rightarrow> bool \<Rightarrow> 'z pipes_scheme \<Rightarrow> bool" for p s0 where
  use_start: "pipe_sys p s0 False s0"
| use_write: "pipe_sys p s0 k s \<Longrightarrow> pipewrite_loop p n bs s = (Ret r, t) \<Longrightarrow> pipe_sys p s0 (r = - 1) t"
| use_write_wait: "pipe_sys p s0 k s \<Longrightarrow> pipewrite_loop p n bs s = (Block ch rest, t) \<Longrightarrow> go_sleep ch t = Inr u \<Longrightarrow>
    pipe_sys p s0 False u"
| use_read: "pipe_sys p s0 k s \<Longrightarrow> piperead p m s = (Ret r', t) \<Longrightarrow> pipe_sys p s0 k t"
| use_read_wait: "pipe_sys p s0 k s \<Longrightarrow> piperead p m s = (Block ch x, t) \<Longrightarrow> go_sleep ch t = Inr u \<Longrightarrow> pipe_sys p s0 k u"
| use_close: "pipe_sys p s0 k s \<Longrightarrow> pipeclose p writable s = Inr t \<Longrightarrow> pipe_sys p s0 (k \<and> \<not> writable) t"
| use_other: "pipe_sys p s0 k s \<Longrightarrow> pipes t p = pipes s p \<Longrightarrow>
    (\<And>ch. ch \<in> {ChPipeRead p, ChPipeWrite p} \<Longrightarrow> asleep_on ch t \<Longrightarrow> asleep_on ch s) \<Longrightarrow> pipe_sys p s0 k t"

text \<open>What it means that somebody sleeps.\<close>

definition sleepers_ok :: "uint \<Rightarrow> bool \<Rightarrow> 'z pipes_scheme \<Rightarrow> bool" where
  "sleepers_ok p k s \<longleftrightarrow> pipe_ok (pipes s p) \<and>
     (asleep_on (ChPipeRead p) s \<longrightarrow> readopen (pipes s p) \<longrightarrow> \<not> k \<longrightarrow> pipe_len (pipes s p) = 0 \<and> writeopen (pipes s p)) \<and>
     (asleep_on (ChPipeWrite p) s \<longrightarrow> pipe_full (pipes s p) \<and> readopen (pipes s p))"

lemma asleep_cong: "ptable t = ptable s \<Longrightarrow> asleep_on ch t = asleep_on ch s"
  by (simp add: asleep_on_def)

lemma wakeup_asleep: "asleep_on ch' (wakeup ch s) \<Longrightarrow> asleep_on ch' s"
  by (auto simp: asleep_on_def wakeup_eq split: if_splits)

lemma asleep_upd_pipe [simp]: "asleep_on ch (upd_pipe p f s) = asleep_on ch s"
  by (simp add: asleep_on_def)

lemma go_sleep_asleep:
  assumes "go_sleep ch s = Inr t"
  shows "pipes t = pipes s" "asleep_on ch' t \<Longrightarrow> ch' = ch \<or> asleep_on ch' s"
  using assms by (auto simp: go_sleep_def upd_proc_def asleep_on_def split: option.split_asm if_split_asm)

lemma pipewrite_loop_asleep: "pipewrite_loop p n bs s = (r, t) \<Longrightarrow> asleep_on ch t \<Longrightarrow> asleep_on ch s"
  by (induction p n bs s rule: pipewrite_loop.induct) (auto split: if_splits dest: wakeup_asleep)

lemma pipewrite_loop_ends:
  "pipewrite_loop p n bs s = (r, t) \<Longrightarrow> (r = Ret (- 1) \<or> \<not> asleep_on (ChPipeRead p) t) \<and> (\<forall>ch rest. r = Block ch rest \<longrightarrow> readopen (pipes s p))"
  by (induction p n bs s rule: pipewrite_loop.induct) (auto simp: pipe_put_def split: if_splits)

lemma pipewrite_loop_sleepers:
  assumes "sleepers_ok p k s" "pipewrite_loop p n bs s = (r, t)"
  shows "sleepers_ok p (r = Ret (- 1)) t" "r = Block ch rest \<Longrightarrow> ch = ChPipeWrite p \<and> pipe_full (pipes t p) \<and> readopen (pipes t p)"
proof -
  have ok: "pipe_ok (pipes s p)" using assms(1) by (simp add: sleepers_ok_def)
  from pipewrite_loop_queue [OF ok assms(2)] obtain d rest' where
    w: "bs = d @ rest'" "pipe_ok (pipes t p)" "pipe_bytes (pipes t p) = pipe_bytes (pipes s p) @ d"
      "r = Ret n \<and> rest' = [] \<or> rest' \<noteq> [] \<and> pipe_full (pipes t p) \<and> (r = Ret (- 1) \<or> r = Block (ChPipeWrite p) rest')"
      "readopen (pipes t p) = readopen (pipes s p)" "writeopen (pipes t p) = writeopen (pipes s p)" by metis
  have len: "pipe_len (pipes t p) = pipe_len (pipes s p) + length d" using w(3) by (metis length_append length_pipe_bytes)
  have "pipe_full (pipes t p) \<and> readopen (pipes t p)" if "asleep_on (ChPipeWrite p) t"
    using pipewrite_loop_asleep [OF assms(2) that] assms(1) len w(2,5) by (auto simp: sleepers_ok_def pipe_ok_def pipe_full_len)
  then show "sleepers_ok p (r = Ret (- 1)) t"
    using w(2) pipewrite_loop_ends [OF assms(2)] by (auto simp: sleepers_ok_def)
  show "ch = ChPipeWrite p \<and> pipe_full (pipes t p) \<and> readopen (pipes t p)" if "r = Block ch rest"
    using that w(4,5) pipewrite_loop_ends [OF assms(2)] by auto
qed

lemma piperead_sleepers:
  assumes "sleepers_ok p k s" "piperead p m s = (r, t)"
  shows "sleepers_ok p k t" "r = Block ch u \<Longrightarrow> ch = ChPipeRead p \<and> pipe_len (pipes t p) = 0 \<and> writeopen (pipes t p)"
proof -
  have ok: "pipe_ok (pipes s p)" using assms(1) by (simp add: sleepers_ok_def)
  obtain cs q where l: "piperead_loop (nat m) (pipes s p) = (cs, q)" by (cases "piperead_loop (nat m) (pipes s p)")
  note q = piperead_loop_queue [OF ok l]
  then have "pipe_len (pipes s p) = length cs + pipe_len q" by (metis length_append length_pipe_bytes)
  moreover have "asleep_on (ChPipeRead p) s" if "asleep_on (ChPipeRead p) (wakeup (Some (ChPipeWrite p)) (upd_pipe p (\<lambda>_. q) s))"
    using wakeup_asleep [OF that] by simp
  ultimately show "sleepers_ok p k t"
    using assms l q by (auto simp: piperead_def sleepers_ok_def split: if_split_asm)
  show "ch = ChPipeRead p \<and> pipe_len (pipes t p) = 0 \<and> writeopen (pipes t p)" if "r = Block ch u"
    using that assms(2) l by (auto simp: piperead_def pipe_empty_len split: if_split_asm)
qed

lemma pipeclose_sleepers:
  assumes "sleepers_ok p k s" "pipeclose p writable s = Inr t"
  shows "sleepers_ok p (k \<and> \<not> writable) t"
proof -
  define u where "u = (if writable then wakeup (Some (ChPipeRead p)) (upd_pipe p (\<lambda>q. q\<lparr>writeopen := False\<rparr>) s)
    else wakeup (Some (ChPipeWrite p)) (upd_pipe p (\<lambda>q. q\<lparr>readopen := False\<rparr>) s))"
  have t: "pipes t = pipes u" "ptable t = ptable u"
    using assms(2) by (auto simp: pipeclose_def u_def [symmetric] kfree_Inr_iff Let_def split: if_split_asm)
  have "asleep_on ch u \<Longrightarrow> asleep_on ch s" for ch by (auto simp: u_def dest: wakeup_asleep split: if_split_asm)
  then have "sleepers_ok p (k \<and> \<not> writable) u"
    using assms(1) by (auto simp: sleepers_ok_def u_def pipe_ok_def pipe_len_def pipe_full_def)
  then show ?thesis using t asleep_cong [OF t(2)] by (simp add: sleepers_ok_def)
qed

lemma pipe_sys_sleepers:
  assumes "pipe_sys p s0 k s" "sleepers_ok p False s0"
  shows "sleepers_ok p k s"
  using assms
proof (induction rule: pipe_sys.induct)
  case (use_write k s n bs r t)
  then show ?case using pipewrite_loop_sleepers(1) [of p k s n bs "Ret r" t] by simp
next
  case (use_write_wait k s n bs ch rest t u)
  note w = pipewrite_loop_sleepers [OF use_write_wait.IH [OF use_write_wait.prems] use_write_wait.hyps(2)]
  then show ?case using go_sleep_asleep [OF use_write_wait.hyps(3)] by (auto simp: sleepers_ok_def)
next
  case (use_read k s m r' t)
  then show ?case using piperead_sleepers(1) by blast
next
  case (use_read_wait k s m ch x t u)
  note w = piperead_sleepers [OF use_read_wait.IH [OF use_read_wait.prems] use_read_wait.hyps(2)]
  then show ?case using go_sleep_asleep [OF use_read_wait.hyps(3)] by (auto simp: sleepers_ok_def)
next
  case (use_close k s writable t)
  then show ?case using pipeclose_sleepers by blast
qed (auto simp: sleepers_ok_def)

text \<open>
  C30 (invariant).  No wakeup is lost on a pipe.  Whatever the processes that share a pipe do, in any order: while
  a writer sleeps on the pipe it is full and its read end is open; while a reader sleeps, its read end being open, the
  pipe is empty and its write end is open, unless a writer has left with an error since the readers were last woken; and
  apart from that case a reader and a writer never both sleep.
\<close>

theorem pipe_no_lost_wakeup:
  assumes "pipe_sys p s0 k s" "pipe_ok (pipes s0 p)" "\<not> asleep_on (ChPipeRead p) s0" "\<not> asleep_on (ChPipeWrite p) s0"
  shows "(asleep_on (ChPipeWrite p) s \<longrightarrow> length (pipe_bytes (pipes s p)) = PIPESIZE \<and> readopen (pipes s p)) \<and>
     (asleep_on (ChPipeRead p) s \<and> readopen (pipes s p) \<and> \<not> k \<longrightarrow>
        pipe_bytes (pipes s p) = [] \<and> writeopen (pipes s p) \<and> \<not> asleep_on (ChPipeWrite p) s)"
proof -
  have "sleepers_ok p k s" using pipe_sys_sleepers [OF assms(1)] assms(2-4) by (simp add: sleepers_ok_def)
  moreover have "pipe_bytes q = [] \<longleftrightarrow> pipe_len q = 0" for q by (simp flip: length_0_conv)
  ultimately show ?thesis by (auto simp: sleepers_ok_def pipe_full_len PIPESIZE_def)
qed

text \<open>Process 0 waits for data; then process 1 writes a byte.\<close>

definition two_procs :: pipes where
  "two_procs = boot_pipes\<lparr>curproc := Some 0, ptable := (\<lambda>_. zero_proc)\<rparr>"

lemma pipe_no_lost_wakeup_witness:
  "\<exists>s t. piperead 0 8 two_procs = (Block (ChPipeRead 0) (), two_procs) \<and> go_sleep (ChPipeRead 0) two_procs = Inr s
     \<and> asleep_on (ChPipeRead 0) s \<and> \<not> asleep_on (ChPipeWrite 0) s
     \<and> pipewrite 0 [7] (s\<lparr>curproc := Some 1\<rparr>) = (Ret 1, t) \<and> pipe_bytes (pipes t 0) \<noteq> [] \<and> \<not> asleep_on (ChPipeRead 0) t"
proof -
  have ini: "pipe_ok (pipes two_procs 0)" "\<not> asleep_on ch two_procs" for ch
    by (simp_all add: two_procs_def pipe_ok_def pipe_len_def zero_pipe_def asleep_on_def zero_proc_def)
  have r: "piperead 0 8 two_procs = (Block (ChPipeRead 0) (), two_procs)"
    by (simp add: piperead_def two_procs_def zero_pipe_def proc_killed_def zero_proc_def)
  obtain s where s: "go_sleep (ChPipeRead 0) two_procs = Inr s" by (simp add: go_sleep_def two_procs_def)
  have as: "asleep_on (ChPipeRead 0) s" unfolding asleep_on_def
    by (rule exI [of _ 0]) (use s in \<open>auto simp: go_sleep_def two_procs_def upd_proc_def NPROC_def\<close>)
  have q: "pipes s 0 = zero_pipe" using go_sleep_asleep(1) [OF s] by (simp add: two_procs_def)
  have h1: "pipe_sys 0 two_procs False s" by (rule use_read_wait [OF use_start r s])
  have "pipe_sys 0 two_procs False (s\<lparr>curproc := Some 1\<rparr>)" by (rule use_other [OF h1]) (simp_all add: asleep_on_def)
  moreover obtain t where t: "pipewrite_loop 0 1 [7] (s\<lparr>curproc := Some 1\<rparr>) = (Ret 1, t)" "pipes t 0 = pipe_put 7 zero_pipe"
    using q by (simp add: pipe_full_def zero_pipe_def PIPESIZE_def)
  ultimately have h2: "pipe_sys 0 two_procs False t" using use_write [of 0 two_procs False _ 1 "[7]" 1 t] by simp
  have b: "pipe_bytes (pipes t 0) \<noteq> []" "readopen (pipes t 0)"
    using t(2) by (simp_all add: pipe_bytes_def pipe_len_def pipe_put_def zero_pipe_def)
  have "\<not> asleep_on (ChPipeWrite 0) s"
    using pipe_no_lost_wakeup [OF h1 ini(1) ini(2) ini(2)] as q by (simp add: zero_pipe_def)
  moreover have "\<not> asleep_on (ChPipeRead 0) t" using pipe_no_lost_wakeup [OF h2 ini(1) ini(2) ini(2)] b by blast
  ultimately show ?thesis using r s as t(1) b(1) by (auto simp: pipewrite_def)
qed

lemma pipewrite_loop_killed:
  assumes "pipe_ok (pipes s p)" "proc_killed s" "pipe_len (pipes s p) + length bs > PIPESIZE"
  shows "\<exists>t. pipewrite_loop p n bs s = (Ret (- 1), t) \<and> ptable t = ptable s \<and> pipe_full (pipes t p)"
  using assms
proof (induction p n bs s rule: pipewrite_loop.induct)
  case (2 p n b bs s)
  show ?case
  proof (cases "pipe_full (pipes s p)")
    case False
    have "pipe_bytes (pipes (upd_pipe p (pipe_put b) s) p) = pipe_bytes (pipes s p) @ [b]"
      using pipe_put_queue [OF 2(2) False] by simp
    then have "pipe_len (pipes (upd_pipe p (pipe_put b) s) p) = pipe_len (pipes s p) + 1" by (metis length_append_singleton length_pipe_bytes Suc_eq_plus1)
    moreover have "proc_killed (upd_pipe p (pipe_put b) s) = proc_killed s" by (simp add: proc_killed_def split: option.split)
    ultimately show ?thesis using 2 False pipe_put_queue(1) [OF 2(2) False] by auto
  qed (use 2 in auto)
qed (simp add: pipe_ok_def)

text \<open>
  C31 (error).  The exception: a killed writer that fills the pipe returns \<open>-1\<close> without waking the readers.  A reader that
  slept on the empty pipe keeps sleeping although the pipe is full, until some other process
  writes or closes the pipe.
\<close>

theorem killed_writer_leaves_reader_asleep:
  assumes "pipe_ok (pipes s p)" "proc_killed s" "PIPESIZE < length bs" "asleep_on (ChPipeRead p) s"
  shows "\<exists>t. pipewrite p bs s = (Ret (- 1), t) \<and> asleep_on (ChPipeRead p) t \<and> length (pipe_bytes (pipes t p)) = PIPESIZE"
  using pipewrite_loop_killed [OF assms(1,2), of bs "int (length bs)"] assms(3,4)
  by (auto simp: pipewrite_def asleep_on_def pipe_full_len)

definition asleep_pipes :: pipes where
  "asleep_pipes = boot_pipes\<lparr>curproc := Some 0,
     ptable := (\<lambda>_. zero_proc)(0 := zero_proc\<lparr>killed := True\<rparr>, 1 := zero_proc\<lparr>state := SLEEPING, pchan := Some (ChPipeRead 0)\<rparr>)\<rparr>"

lemma killed_writer_leaves_reader_asleep_witness:
  "\<exists>t. pipewrite 0 (replicate 600 5) asleep_pipes = (Ret (- 1), t) \<and> asleep_on (ChPipeRead 0) t"
proof -
  have "pipe_ok (pipes asleep_pipes 0)" by (simp add: asleep_pipes_def pipe_ok_def pipe_len_def zero_pipe_def)
  moreover have "proc_killed asleep_pipes" by (simp add: asleep_pipes_def proc_killed_def)
  moreover have "asleep_on (ChPipeRead 0) asleep_pipes"
    unfolding asleep_on_def by (rule exI [of _ 1]) (simp add: asleep_pipes_def NPROC_def)
  ultimately show ?thesis
    using killed_writer_leaves_reader_asleep [of asleep_pipes 0 "replicate 600 5"] by (auto simp: PIPESIZE_def)
qed

end
