(* ===== verification/File.thy ===== *)
theory File
  imports Pipe
begin

text \<open>
  \<open>file.c\<close> and \<open>pipealloc\<close> of \<open>pipe.c\<close>: the table of open files with its reference counts.  A call that has to
  wait in a pipe is the outcome \<open>Sleep\<close>.
\<close>

subsection \<open>State\<close>

definition NFILE :: nat where "NFILE = 100"

text \<open>The modes of \<open>open\<close>, \<open>fcntl.h\<close>.\<close>

definition O_RDONLY :: uint where "O_RDONLY = 0"
definition O_WRONLY :: uint where "O_WRONLY = 1"
definition O_RDWR :: uint where "O_RDWR = 2"
definition O_CREATE :: uint where "O_CREATE = 0x200"

datatype fdtype = FD_NONE | FD_PIPE | FD_INODE

record file_s =
  ftype :: fdtype
  fref :: int
  freadable :: bool
  fwritable :: bool
  fpipe :: uint
  fip :: nat
  foff :: uint

record files = pipes +
  ftable :: "nat \<Rightarrow> file_s"

definition upd_file :: "nat \<Rightarrow> (file_s \<Rightarrow> file_s) \<Rightarrow> 'z files_scheme \<Rightarrow> 'z files_scheme" where
  "upd_file f g s = s\<lparr>ftable := (ftable s)(f := g (ftable s f))\<rparr>"

text \<open>The outcome of a call on a pipe.\<close>

fun of_call :: "('k, 'a) call \<times> 's \<Rightarrow> ('a \<times> 's) outcome" where
  "of_call (Ret r, s) = Inr (r, s)"
| "of_call (Block ch k, s) = Inl (Sleep ch)"

subsection \<open>Routines\<close>

definition filealloc :: "'z files_scheme \<Rightarrow> nat option \<times> 'z files_scheme" where
  "filealloc s =
     (case List.find (\<lambda>f. fref (ftable s f) = 0) [0..<NFILE] of
        Some f \<Rightarrow> (Some f, upd_file f (\<lambda>q. q\<lparr>fref := 1\<rparr>) s)
      | None \<Rightarrow> (None, s))"

definition filedup :: "nat \<Rightarrow> 'z files_scheme \<Rightarrow> 'z files_scheme outcome" where
  "filedup f s =
     (if fref (ftable s f) < 1 then Inl (Panic ''filedup'')
      else Inr (upd_file f (\<lambda>q. q\<lparr>fref := fref q + 1\<rparr>) s))"

definition fileclose :: "nat \<Rightarrow> 'z files_scheme \<Rightarrow> 'z files_scheme outcome" where
  "fileclose f s =
     (if fref (ftable s f) < 1 then Inl (Panic ''fileclose'')
      else let s = upd_file f (\<lambda>q. q\<lparr>fref := fref q - 1\<rparr>) s
           in if fref (ftable s f) > 0 then Inr s
              else let ff = ftable s f;
                       s = upd_file f (\<lambda>q. q\<lparr>fref := 0, ftype := FD_NONE\<rparr>) s
                   in if ftype ff = FD_PIPE then pipeclose (fpipe ff) (fwritable ff) s
                      else if ftype ff = FD_INODE
                      then ebind (begin_trans s) (\<lambda>s.
                           ebind (iput (fip ff) s) commit_trans)
                      else Inr s)"

definition filestat :: "nat \<Rightarrow> 'z files_scheme \<Rightarrow> (stat option \<times> 'z files_scheme) outcome" where
  "filestat f s =
     (let q = ftable s f
      in if ftype q = FD_INODE
         then ebind (ilock (fip q) s) (\<lambda>s.
              ebind (iunlock (fip q) s) (\<lambda>s'. Inr (Some (stati (fip q) s), s')))
         else Inr (None, s))"

definition fileread :: "'z files_scheme devsw \<Rightarrow> nat \<Rightarrow> int \<Rightarrow> 'z files_scheme \<Rightarrow> (int \<times> uchar list \<times> 'z files_scheme) outcome" where
  "fileread dv f n s =
     (let q = ftable s f
      in if \<not> freadable q then Inr (- 1, [], s)
         else if ftype q = FD_PIPE then ebind (of_call (piperead (fpipe q) n s)) (\<lambda>((r, bs), s). Inr (r, bs, s))
         else if ftype q = FD_INODE
         then ebind (ilock (fip q) s) (\<lambda>s.
              ebind (readi dv (fip q) (foff q) (of_int n) s) (\<lambda>(r, bs, s).
                let s = (if r > 0 then upd_file f (\<lambda>q. q\<lparr>foff := foff q + of_int r\<rparr>) s else s)
                in ebind (iunlock (fip q) s) (\<lambda>s. Inr (r, bs, s))))
         else Inl (Panic ''fileread''))"

text \<open>The largest write of one transaction, in bytes.\<close>

definition filewrite_max :: nat where
  "filewrite_max = ((LOGSIZE - 1 - 1 - 2) div 2) * 512"

text \<open>The loop of \<open>filewrite\<close>; the result is the number of bytes left when it stops.\<close>

function filewrite_loop :: "'z files_scheme devsw \<Rightarrow> nat \<Rightarrow> uchar list \<Rightarrow> 'z files_scheme \<Rightarrow> (nat \<times> 'z files_scheme) outcome" where
  "filewrite_loop dv f src s =
     (if src = [] then Inr (0, s)
      else let n1 = min (length src) filewrite_max; ip = fip (ftable s f)
           in ebind (begin_trans s) (\<lambda>s.
              ebind (ilock ip s) (\<lambda>s.
              ebind (writei dv ip (take n1 src) (foff (ftable s f)) (of_nat n1) s) (\<lambda>(r, s).
                let s = (if r > 0 then upd_file f (\<lambda>q. q\<lparr>foff := foff q + of_int r\<rparr>) s else s)
                in ebind (iunlock ip s) (\<lambda>s.
                   ebind (commit_trans s) (\<lambda>s.
                     if r < 0 then Inr (length src, s)
                     else if r \<noteq> int n1 then Inl (Panic ''short filewrite'')
                     else filewrite_loop dv f (drop n1 src) s))))))"
  by pat_completeness auto
termination
  by (relation "measure (\<lambda>(dv, f, src, s). length src)") (auto simp: filewrite_max_def LOGSIZE_def)

declare filewrite_loop.simps [simp del]

text \<open>\<open>src\<close> holds the \<open>n\<close> bytes to write, and is empty for a negative \<open>n\<close>.\<close>

definition filewrite :: "'z files_scheme devsw \<Rightarrow> nat \<Rightarrow> uchar list \<Rightarrow> int \<Rightarrow> 'z files_scheme \<Rightarrow> (int \<times> 'z files_scheme) outcome" where
  "filewrite dv f src n s =
     (let q = ftable s f
      in if \<not> fwritable q then Inr (- 1, s)
         else if ftype q = FD_PIPE then of_call (pipewrite_loop (fpipe q) n src s)
         else if ftype q = FD_INODE
         then ebind (filewrite_loop dv f src s) (\<lambda>(left, s). Inr (if left = 0 \<and> n \<ge> 0 then n else - 1, s))
         else Inl (Panic ''filewrite''))"

definition pipealloc_bad :: "uint \<Rightarrow> nat option \<Rightarrow> nat option \<Rightarrow> 'z files_scheme \<Rightarrow> 'z files_scheme outcome" where
  "pipealloc_bad p f0 f1 s =
     ebind (if p \<noteq> 0 then kfree p s else Inr s) (\<lambda>s.
     ebind (case f0 of None \<Rightarrow> Inr s | Some f \<Rightarrow> fileclose f s) (\<lambda>s.
       case f1 of None \<Rightarrow> Inr s | Some f \<Rightarrow> fileclose f s))"

definition pipealloc :: "'z files_scheme \<Rightarrow> ((nat \<times> nat) option \<times> 'z files_scheme) outcome" where
  "pipealloc s =
     (let (f0, s) = filealloc s
      in case f0 of
           None \<Rightarrow> ebind (pipealloc_bad 0 None None s) (\<lambda>s. Inr (None, s))
         | Some r \<Rightarrow>
             let (f1, s) = filealloc s
             in case f1 of
                  None \<Rightarrow> ebind (pipealloc_bad 0 (Some r) None s) (\<lambda>s. Inr (None, s))
                | Some w \<Rightarrow>
                    let (p, s) = kalloc s
                    in if p = 0 then ebind (pipealloc_bad 0 (Some r) (Some w) s) (\<lambda>s. Inr (None, s))
                       else let s = upd_pipe p (\<lambda>q. q\<lparr>readopen := True, writeopen := True, nwrite := 0, nread := 0\<rparr>) s;
                                s = upd_file r (\<lambda>q. q\<lparr>ftype := FD_PIPE, freadable := True, fwritable := False, fpipe := p\<rparr>) s;
                                s = upd_file w (\<lambda>q. q\<lparr>ftype := FD_PIPE, freadable := False, fwritable := True, fpipe := p\<rparr>) s
                            in Inr (Some (r, w), s))"

end
