(* ===== verification/Console.thy ===== *)
theory Console
  imports File
begin

text \<open>
  \<open>console.c\<close> and \<open>procdump\<close> of \<open>proc.c\<close>: formatted output, the screen, the line editor behind the keyboard and
  serial interrupts, and the console device.  \<open>uart\<close> collects the bytes sent to the serial port;
  the cursor registers of the display are \<open>crtpos\<close>.
\<close>

subsection \<open>State\<close>

definition INPUT_BUF :: nat where "INPUT_BUF = 128"
definition BACKSPACE :: nat where "BACKSPACE = 0x100"
definition CONSOLE :: nat where "CONSOLE = 1"

text \<open>\<open>C('x')\<close>, control characters.\<close>

definition ctrl :: "char \<Rightarrow> uchar" where
  "ctrl x = of_nat (of_char x) - 64"

definition chr :: "char \<Rightarrow> uchar" where
  "chr x = of_nat (of_char x)"

definition newline :: uchar where "newline = 10"

record cons = files +
  crt :: "nat \<Rightarrow> ushort"
  crtpos :: nat
  uart :: "uchar list"
  panicked :: bool
  inbuf :: "uchar list"
  in_r :: uint
  in_w :: uint
  in_e :: uint

subsection \<open>Output\<close>

text \<open>The screen: a cell is a character with an attribute byte.\<close>

definition cgaputc :: "nat \<Rightarrow> 'z cons_scheme \<Rightarrow> 'z cons_scheme" where
  "cgaputc c s =
     (let pos = crtpos s;
          (pos, m) = (if c = 10 then (pos + (80 - pos mod 80), crt s)
                      else if c = BACKSPACE then (if pos > 0 then pos - 1 else pos, crt s)
                      else (pos + 1, (crt s)(pos := (of_nat c AND 0xff) OR 0x0700)));
          (pos, m) = (if pos div 80 \<ge> 24
                      then let m = (\<lambda>i. if i < 23 * 80 then m (i + 80) else m i);
                               pos = pos - 80
                           in (pos, \<lambda>i. if pos \<le> i \<and> i < 24 * 80 then 0 else m i)
                      else (pos, m))
      in s\<lparr>crtpos := pos, crt := m(pos := 0x20 OR 0x0700)\<rparr>)"

text \<open>After a panic every CPU that prints stops for good.\<close>

definition consputc :: "nat \<Rightarrow> 'z cons_scheme \<Rightarrow> 'z cons_scheme outcome" where
  "consputc c s =
     (if panicked s then Inl (Panic ''panicked'')
      else let s = (if c = BACKSPACE then s\<lparr>uart := uart s @ [8, 32, 8]\<rparr> else s\<lparr>uart := uart s @ [of_nat c]\<rparr>)
           in Inr (cgaputc c s))"

definition digit :: "nat \<Rightarrow> uchar" where
  "digit d = map chr ''0123456789abcdef'' ! d"

text \<open>The digits of \<open>x\<close>, the last one first; \<open>base\<close> is 10 or 16.\<close>

function digits_rev :: "nat \<Rightarrow> nat \<Rightarrow> uchar list" where
  "digits_rev base x =
     digit (x mod base) # (if x div base = 0 \<or> base < 2 then [] else digits_rev base (x div base))"
  by pat_completeness auto
termination
  by (relation "measure (\<lambda>(base, x). x)") (auto intro!: div_less_dividend gr0I simp: not_less)

declare digits_rev.simps [simp del]

definition printint_text :: "uint \<Rightarrow> nat \<Rightarrow> bool \<Rightarrow> uchar list" where
  "printint_text xx base sg =
     (let neg = sg \<and> sint xx < 0;
          x = (if neg then - xx else xx)
      in (if neg then [chr CHR ''-''] else []) @ rev (digits_rev base (unat x)))"

definition putcs :: "uchar list \<Rightarrow> 'z cons_scheme \<Rightarrow> 'z cons_scheme outcome" where
  "putcs cs s = efold (\<lambda>c. consputc (unat c)) cs s"

definition printint :: "uint \<Rightarrow> nat \<Rightarrow> bool \<Rightarrow> 'z cons_scheme \<Rightarrow> 'z cons_scheme outcome" where
  "printint xx base sg s = putcs (printint_text xx base sg) s"

text \<open>An argument of \<open>cprintf\<close>: a word, or a string (\<open>None\<close> is the null pointer).\<close>

datatype carg = AWord uint | AStr "uchar list option"

fun cprintf_loop :: "uchar list \<Rightarrow> carg list \<Rightarrow> 'z cons_scheme \<Rightarrow> 'z cons_scheme outcome" where
  "cprintf_loop [] args s = Inr s"
| "cprintf_loop [c] args s = (if c = chr CHR ''%'' then Inr s else consputc (unat c) s)"
| "cprintf_loop (c # d # fmt) args s =
     (if c \<noteq> chr CHR ''%'' then ebind (consputc (unat c) s) (cprintf_loop (d # fmt) args)
      else if d = chr CHR ''d''
      then (case args of AWord w # args \<Rightarrow> ebind (printint w 10 True s) (cprintf_loop fmt args)
            | _ \<Rightarrow> Inl (Undef ''cprintf''))
      else if d = chr CHR ''x'' \<or> d = chr CHR ''p''
      then (case args of AWord w # args \<Rightarrow> ebind (printint w 16 False s) (cprintf_loop fmt args)
            | _ \<Rightarrow> Inl (Undef ''cprintf''))
      else if d = chr CHR ''s''
      then (case args of
              AStr None # args \<Rightarrow> ebind (putcs (map chr ''(null)'') s) (cprintf_loop fmt args)
            | AStr (Some cs) # args \<Rightarrow> ebind (putcs cs s) (cprintf_loop fmt args)
            | _ \<Rightarrow> Inl (Undef ''cprintf''))
      else if d = chr CHR ''%'' then ebind (consputc (unat d) s) (cprintf_loop fmt args)
      else ebind (consputc (unat c) s) (\<lambda>s. ebind (consputc (unat d) s) (cprintf_loop fmt args)))"

definition cprintf :: "string \<Rightarrow> carg list \<Rightarrow> 'z cons_scheme \<Rightarrow> 'z cons_scheme outcome" where
  "cprintf fmt args s = cprintf_loop (map chr fmt) args s"

fun state_name :: "procstate \<Rightarrow> string" where
  "state_name UNUSED = ''unused''"
| "state_name EMBRYO = ''embryo''"
| "state_name SLEEPING = ''sleep ''"
| "state_name RUNNABLE = ''runble''"
| "state_name RUNNING = ''run   ''"
| "state_name ZOMBIE = ''zombie''"

text \<open>\<open>ebp\<close> is the fourth word of the saved context.\<close>

definition procdump_line :: "nat \<Rightarrow> 'z cons_scheme \<Rightarrow> 'z cons_scheme outcome" where
  "procdump_line p s =
     (let q = ptable s p
      in if state q = UNUSED then Inr s
         else ebind (cprintf ''%d %s %s'' [AWord (of_int (pid q)), AStr (Some (map chr (state_name (state q)))),
                       AStr (Some (takeWhile (\<lambda>c. c \<noteq> 0) (pname q)))] s) (\<lambda>s.
              ebind (if state q = SLEEPING
                     then efold (\<lambda>a. cprintf '' %p'' [AWord a])
                            (takeWhile (\<lambda>a. a \<noteq> 0) (getcallerpcs (mem s) (load32 (mem s) (pcontext q + 12) + 8))) s
                     else Inr s) (\<lambda>s.
                putcs [newline] s)))"

definition procdump :: "'z cons_scheme \<Rightarrow> 'z cons_scheme outcome" where
  "procdump s = efold procdump_line [0..<NPROC] s"

text \<open>\<open>panic\<close> prints its message and the call stack, given as \<open>pcs\<close>, and freezes the machine.\<close>

definition panic :: "nat \<Rightarrow> string \<Rightarrow> uint list \<Rightarrow> 'z cons_scheme \<Rightarrow> 'z cons_scheme outcome" where
  "panic cpuid msg callers s =
     ebind (cprintf ''cpu%d: panic: '' [AWord (of_nat cpuid)] s) (\<lambda>s.
     ebind (cprintf msg [] s) (\<lambda>s.
     ebind (putcs [newline] s) (\<lambda>s.
     ebind (efold (\<lambda>a. cprintf '' %p'' [AWord a]) (take 10 callers) s) (\<lambda>s.
       Inr (s\<lparr>panicked := True\<rparr>)))))"

subsection \<open>Input\<close>

definition in_at :: "'z cons_scheme \<Rightarrow> uint \<Rightarrow> uchar" where
  "in_at s i = inbuf s ! (unat i mod INPUT_BUF)"

text \<open>Kill line: \<open>k\<close> bounds the characters between \<open>w\<close> and \<open>e\<close>.\<close>

fun kill_line :: "nat \<Rightarrow> 'z cons_scheme \<Rightarrow> 'z cons_scheme outcome" where
  "kill_line 0 s = Inr s"
| "kill_line (Suc k) s =
     (if in_e s \<noteq> in_w s \<and> in_at s (in_e s - 1) \<noteq> newline
      then ebind (consputc BACKSPACE (s\<lparr>in_e := in_e s - 1\<rparr>)) (kill_line k)
      else Inr s)"

definition consoleintr_char :: "uchar \<Rightarrow> 'z cons_scheme \<Rightarrow> 'z cons_scheme outcome" where
  "consoleintr_char c s =
     (if c = ctrl CHR ''P'' then procdump s
      else if c = ctrl CHR ''U'' then kill_line (unat (in_e s - in_w s)) s
      else if c = ctrl CHR ''H'' \<or> c = 0x7f
      then (if in_e s \<noteq> in_w s then consputc BACKSPACE (s\<lparr>in_e := in_e s - 1\<rparr>) else Inr s)
      else if c \<noteq> 0 \<and> in_e s - in_r s < of_nat INPUT_BUF
      then let c = (if c = 13 then newline else c);
               s = s\<lparr>inbuf := (inbuf s)[unat (in_e s) mod INPUT_BUF := c], in_e := in_e s + 1\<rparr>
           in ebind (consputc (unat c) s) (\<lambda>s.
                if c = newline \<or> c = ctrl CHR ''D'' \<or> in_e s = in_r s + of_nat INPUT_BUF
                then Inr (wakeup (Some ChInput) (s\<lparr>in_w := in_e s\<rparr>))
                else Inr s)
      else Inr s)"

text \<open>The characters that \<open>getc\<close> returns before it has no more.\<close>

definition consoleintr :: "uchar list \<Rightarrow> 'z cons_scheme \<Rightarrow> 'z cons_scheme outcome" where
  "consoleintr cs s = efold consoleintr_char cs s"

text \<open>
  The loop of \<open>consoleread\<close>, with \<open>n\<close> bytes still wanted and \<open>got\<close> the bytes stored so far, newest
  first; when no line is available it blocks with both.
\<close>

fun consoleread_loop :: "nat \<Rightarrow> uchar list \<Rightarrow> 'z cons_scheme \<Rightarrow> (nat \<times> uchar list, uchar list option) call \<times> 'z cons_scheme" where
  "consoleread_loop 0 got s = (Ret (Some (rev got)), s)"
| "consoleread_loop (Suc n) got s =
     (if in_r s = in_w s
      then if proc_killed s then (Ret None, s) else (Block ChInput (Suc n, got), s)
      else let c = in_at s (in_r s)
           in if c = ctrl CHR ''D''
              then (Ret (Some (rev got)), if got \<noteq> [] then s else s\<lparr>in_r := in_r s + 1\<rparr>)
              else if c = newline then (Ret (Some (rev (c # got))), s\<lparr>in_r := in_r s + 1\<rparr>)
              else consoleread_loop n (c # got) (s\<lparr>in_r := in_r s + 1\<rparr>))"

definition consoleread :: "nat \<Rightarrow> uint \<Rightarrow> 'z cons_scheme \<Rightarrow> (int \<times> uchar list \<times> 'z cons_scheme) outcome" where
  "consoleread ip n s =
     ebind (iunlock ip s) (\<lambda>s.
     ebind (of_call (consoleread_loop (nat (sint n)) [] s)) (\<lambda>(r, s).
     ebind (ilock ip s) (\<lambda>s.
       case r of None \<Rightarrow> Inr (- 1, [], s) | Some bs \<Rightarrow> Inr (int (length bs), bs, s))))"

definition consolewrite :: "nat \<Rightarrow> uchar list \<Rightarrow> 'z cons_scheme \<Rightarrow> (int \<times> 'z cons_scheme) outcome" where
  "consolewrite ip src s =
     ebind (iunlock ip s) (\<lambda>s.
     ebind (putcs src s) (\<lambda>s.
     ebind (ilock ip s) (\<lambda>s. Inr (int (length src), s))))"

text \<open>\<open>devsw\<close> after \<open>consoleinit\<close>, which also enables the keyboard's interrupt.\<close>

definition console_devsw :: "'z cons_scheme devsw" where
  "console_devsw = \<lparr>dev_read = (\<lambda>_. None)(CONSOLE := Some consoleread), dev_write = (\<lambda>_. None)(CONSOLE := Some consolewrite)\<rparr>"

end
