(* ===== verification/Vm.thy ===== *)
theory Vm
  imports Proctab
begin

text \<open>
  \<open>vm.c\<close>: page tables.  A page directory and its page tables are pages of kernel memory, read and
  written word by word as the code does; an address of the model is a kernel virtual address, and
  \<open>p2v\<close> and \<open>v2p\<close> convert to the physical addresses in the entries.  \<open>uaddr\<close> is what the paging
  hardware does with a user address.
\<close>

subsection \<open>Segments\<close>

definition SEG_KCODE :: nat where "SEG_KCODE = 1"
definition SEG_KDATA :: nat where "SEG_KDATA = 2"
definition SEG_KCPU :: nat where "SEG_KCPU = 3"
definition SEG_UCODE :: nat where "SEG_UCODE = 4"
definition SEG_UDATA :: nat where "SEG_UDATA = 5"
definition SEG_TSS :: nat where "SEG_TSS = 6"
definition DPL_USER :: uint where "DPL_USER = 3"
definition STA_X :: uint where "STA_X = 8"
definition STA_W :: uint where "STA_W = 2"
definition STA_R :: uint where "STA_R = 2"
definition STS_T32A :: uint where "STS_T32A = 9"

definition seginit :: "'z kern_scheme \<Rightarrow> 'z kern_scheme" where
  "seginit s =
     (let h = hw s;
          g = (gdt h)(SEG_KCODE := SEG (STA_X OR STA_R) 0 0xffffffff 0,
                      SEG_KDATA := SEG STA_W 0 0xffffffff 0,
                      SEG_UCODE := SEG (STA_X OR STA_R) 0 0xffffffff DPL_USER,
                      SEG_UDATA := SEG STA_W 0 0xffffffff DPL_USER,
                      SEG_KCPU := SEG STA_W (cpu_addr h) 8 0)
      in s\<lparr>hw := h\<lparr>gdt := g\<rparr>, curproc := None\<rparr>)"

subsection \<open>Walking a page directory\<close>

definition pde_at :: "uint \<Rightarrow> uint \<Rightarrow> uint" where
  "pde_at pd va = pd + 4 * PDX va"

text \<open>A result of 0 is the null pointer.\<close>

definition walkpgdir :: "uint \<Rightarrow> uint \<Rightarrow> bool \<Rightarrow> 'z mach_scheme \<Rightarrow> uint \<times> 'z mach_scheme" where
  "walkpgdir pd va alloc s =
     (let pde = load32 (mem s) (pde_at pd va)
      in if pde AND PTE_P \<noteq> 0 then (p2v (PTE_ADDR pde) + 4 * PTX va, s)
         else if \<not> alloc then (0, s)
         else let (pgtab, s) = kalloc s
              in if pgtab = 0 then (0, s)
                 else let s = s\<lparr>mem := memset pgtab 0 PGSIZE (mem s)\<rparr>;
                          s = poke (pde_at pd va) (v2p pgtab OR PTE_P OR PTE_W OR PTE_U) s
                      in (pgtab + 4 * PTX va, s))"

definition wpgdir :: "uint \<Rightarrow> uint \<Rightarrow> bool \<Rightarrow> 'z mach_scheme \<Rightarrow> uint \<times> 'z mach_scheme" where
  "wpgdir pd va alloc s = walkpgdir pd va alloc s"

definition mappage_step :: "uint \<Rightarrow> uint \<Rightarrow> uint \<Rightarrow> uint \<Rightarrow> 'z mach_scheme \<Rightarrow> (bool \<times> 'z mach_scheme) outcome" where
  "mappage_step pd a pa perm s =
     (let (pte, s) = walkpgdir pd a True s
      in if pte = 0 then Inr (False, s)
         else if load32 (mem s) pte AND PTE_P \<noteq> 0 then Inl (Panic ''remap'')
         else Inr (True, poke pte (pa OR perm OR PTE_P) s))"

text \<open>The loop of \<open>mappages\<close>, with \<open>k\<close> pages left before \<open>last\<close>.\<close>

fun mappages_loop :: "nat \<Rightarrow> uint \<Rightarrow> uint \<Rightarrow> uint \<Rightarrow> uint \<Rightarrow> 'z mach_scheme \<Rightarrow> (int \<times> 'z mach_scheme) outcome" where
  "mappages_loop k pd a pa perm s =
     ebind (mappage_step pd a pa perm s) (\<lambda>(ok, s).
       if \<not> ok then Inr (- 1, s)
       else case k of 0 \<Rightarrow> Inr (0, s) | Suc k \<Rightarrow> mappages_loop k pd (a + PGSIZE) (pa + PGSIZE) perm s)"

declare mappages_loop.simps [simp del]

definition mappages :: "uint \<Rightarrow> uint \<Rightarrow> uint \<Rightarrow> uint \<Rightarrow> uint \<Rightarrow> 'z mach_scheme \<Rightarrow> (int \<times> 'z mach_scheme) outcome" where
  "mappages pd va n pa perm s =
     (let a = PGROUNDDOWN va; last = PGROUNDDOWN (va + n - 1)
      in mappages_loop (unat ((last - a) div PGSIZE)) pd a pa perm s)"

definition mappage1 :: "uint \<Rightarrow> uint \<Rightarrow> uint \<Rightarrow> uint \<Rightarrow> uint \<Rightarrow> 'z mach_scheme \<Rightarrow> (int \<times> 'z mach_scheme) outcome" where
  "mappage1 pd va n pa perm s = mappages pd va n pa perm s"

subsection \<open>The kernel's mappings\<close>

text \<open>Virtual address, physical start, physical end, permissions.\<close>

definition kmap :: "uint \<Rightarrow> (uint \<times> uint \<times> uint \<times> uint) list" where
  "kmap kd = [(KERNBASE, 0, EXTMEM, PTE_W), (KERNLINK, v2p KERNLINK, v2p kd, 0), (kd, v2p kd, PHYSTOP, PTE_W),
     (DEVSPACE, DEVSPACE, 0, PTE_W)]"

fun setupkvm_loop :: "uint \<Rightarrow> (uint \<times> uint \<times> uint \<times> uint) list \<Rightarrow> 'z mach_scheme \<Rightarrow> (uint \<times> 'z mach_scheme) outcome" where
  "setupkvm_loop pd [] s = Inr (pd, s)"
| "setupkvm_loop pd ((virt, ps, pe, perm) # ks) s =
     ebind (mappages pd virt (pe - ps) ps perm s) (\<lambda>(r, s).
       if r < 0 then Inr (0, s) else setupkvm_loop pd ks s)"

definition setupkvm :: "'z kern_scheme \<Rightarrow> (uint \<times> 'z kern_scheme) outcome" where
  "setupkvm s =
     (let (pd, s) = kalloc s
      in if pd = 0 then Inr (0, s)
         else let s = s\<lparr>mem := memset pd 0 PGSIZE (mem s)\<rparr>
              in if p2v PHYSTOP > DEVSPACE then Inl (Panic ''PHYSTOP too high'')
                 else setupkvm_loop pd (kmap (kdata s)) s)"

definition switchkvm :: "'z kern_scheme \<Rightarrow> 'z kern_scheme" where
  "switchkvm s = s\<lparr>hw := (hw s)\<lparr>cr3 := v2p (kpgdir s)\<rparr>\<rparr>"

definition kvmalloc :: "'z kern_scheme \<Rightarrow> 'z kern_scheme outcome" where
  "kvmalloc s = ebind (setupkvm s) (\<lambda>(pg, s). Inr (switchkvm (s\<lparr>kpgdir := pg\<rparr>)))"

text \<open>
  \<open>switchuvm\<close>; the enclosing \<open>pushcli\<close> and \<open>popcli\<close> leave the interrupt flag as it was.  The size of
  \<open>cpu->ts\<close> is 104 bytes.
\<close>

definition switchuvm :: "nat \<Rightarrow> 'z kern_scheme \<Rightarrow> 'z kern_scheme outcome" where
  "switchuvm p s =
     (case curproc s of
        None \<Rightarrow> Inl (Undef ''proc'')
      | Some c \<Rightarrow>
          let h = hw s;
              d = (SEG16 STS_T32A (ts_addr h) 103 0)\<lparr>sd_s := 0\<rparr>;
              h = h\<lparr>gdt := (gdt h)(SEG_TSS := d), ts_ss0 := of_nat (SEG_KDATA * 8), ts_esp0 := kstack (ptable s c) + KSTACKSIZE\<rparr>
          in if pgdir (ptable s p) = 0 then Inl (Panic ''switchuvm: no pgdir'')
             else Inr (s\<lparr>hw := h\<lparr>cr3 := v2p (pgdir (ptable s p))\<rparr>\<rparr>))"

subsection \<open>User memory\<close>

fun store_bytes :: "uint \<Rightarrow> uchar list \<Rightarrow> memory \<Rightarrow> memory" where
  "store_bytes a [] m = m"
| "store_bytes a (b # bs) m = store_bytes (a + 1) bs (m(a := b))"

text \<open>\<open>inituvm\<close> does not look at what \<open>kalloc\<close> returns; with no memory it would clear page 0.\<close>

definition inituvm :: "uint \<Rightarrow> uchar list \<Rightarrow> 'z mach_scheme \<Rightarrow> 'z mach_scheme outcome" where
  "inituvm pd ini s =
     (if length ini \<ge> unat PGSIZE then Inl (Panic ''inituvm: more than a page'')
      else let (pg, s) = kalloc s
           in if pg = 0 then Inl (Undef ''inituvm: kalloc'')
              else let s = s\<lparr>mem := memset pg 0 PGSIZE (mem s)\<rparr>
                   in ebind (mappages pd 0 PGSIZE (v2p pg) (PTE_W OR PTE_U) s) (\<lambda>(r, s).
                        Inr (s\<lparr>mem := store_bytes pg ini (mem s)\<rparr>)))"

text \<open>
  The addresses of these loops are numbers: they stay below \<open>oldsz\<close> plus the 4 MB of a page
  table, which does not wrap around for sizes up to \<open>KERNBASE\<close>, the largest that is passed.
\<close>

function deallocuvm_loop :: "uint \<Rightarrow> nat \<Rightarrow> nat \<Rightarrow> 'z mach_scheme \<Rightarrow> 'z mach_scheme outcome" where
  "deallocuvm_loop pd a oldsz s =
     (if a < oldsz
      then let (pte, s) = walkpgdir pd (of_nat a) False s
           in if pte = 0 then deallocuvm_loop pd (a + NPTENTRIES * 4096) oldsz s
              else let e = load32 (mem s) pte
                   in if e AND PTE_P \<noteq> 0
                      then if PTE_ADDR e = 0 then Inl (Panic ''kfree deallocuvm'')
                           else ebind (kfree (p2v (PTE_ADDR e)) s) (\<lambda>s. deallocuvm_loop pd (a + 4096) oldsz (poke pte 0 s))
                      else deallocuvm_loop pd (a + 4096) oldsz s
      else Inr s)"
  by pat_completeness auto
termination
  by (relation "measure (\<lambda>(pd, a, oldsz, s). oldsz - a)") (auto simp: NPTENTRIES_def)

declare deallocuvm_loop.simps [simp del]

definition deallocuvm :: "uint \<Rightarrow> uint \<Rightarrow> uint \<Rightarrow> 'z mach_scheme \<Rightarrow> (uint \<times> 'z mach_scheme) outcome" where
  "deallocuvm pd oldsz newsz s =
     (if newsz \<ge> oldsz then Inr (oldsz, s)
      else ebind (deallocuvm_loop pd (unat (PGROUNDUP newsz)) (unat oldsz) s) (\<lambda>s. Inr (newsz, s)))"

text \<open>One page of \<open>allocuvm\<close>.  The result of \<open>mappages\<close> is not looked at.\<close>

function allocuvm_loop :: "uint \<Rightarrow> nat \<Rightarrow> uint \<Rightarrow> uint \<Rightarrow> 'z mach_scheme \<Rightarrow> (uint \<times> 'z mach_scheme) outcome" where
  "allocuvm_loop pd a oldsz newsz s =
     (if a < unat newsz
      then let (pg, s) = kalloc s
           in if pg = 0 then ebind (deallocuvm pd newsz oldsz s) (\<lambda>(_, s). Inr (0, s))
              else let s = s\<lparr>mem := memset pg 0 PGSIZE (mem s)\<rparr>
                   in ebind (mappages pd (of_nat a) PGSIZE (v2p pg) (PTE_W OR PTE_U) s) (\<lambda>(_, s).
                        allocuvm_loop pd (a + 4096) oldsz newsz s)
      else Inr (newsz, s))"
  by pat_completeness auto
termination
  by (relation "measure (\<lambda>(pd, a, oldsz, newsz, s). unat newsz - a)") auto

declare allocuvm_loop.simps [simp del]

definition allocuvm :: "uint \<Rightarrow> uint \<Rightarrow> uint \<Rightarrow> 'z mach_scheme \<Rightarrow> (uint \<times> 'z mach_scheme) outcome" where
  "allocuvm pd oldsz newsz s =
     (if newsz \<ge> KERNBASE then Inr (0, s)
      else if newsz < oldsz then Inr (oldsz, s)
      else allocuvm_loop pd (unat (PGROUNDUP oldsz)) oldsz newsz s)"

definition freevm_step :: "uint \<Rightarrow> nat \<Rightarrow> 'z mach_scheme \<Rightarrow> 'z mach_scheme outcome" where
  "freevm_step pd i s =
     (let e = load32 (mem s) (pd + 4 * of_nat i)
      in if e AND PTE_P \<noteq> 0 then kfree (p2v (PTE_ADDR e)) s else Inr s)"

definition freevm :: "uint \<Rightarrow> 'z mach_scheme \<Rightarrow> 'z mach_scheme outcome" where
  "freevm pd s =
     (if pd = 0 then Inl (Panic ''freevm: no pgdir'')
      else ebind (deallocuvm pd KERNBASE 0 s) (\<lambda>(_, s).
           ebind (efold (freevm_step pd) [0..<NPDENTRIES] s) (kfree pd)))"

subsection \<open>Permissions\<close>

definition clearpteu :: "uint \<Rightarrow> uint \<Rightarrow> 'z mach_scheme \<Rightarrow> 'z mach_scheme outcome" where
  "clearpteu pd uva s =
     (let (pte, s) = walkpgdir pd uva False s
      in if pte = 0 then Inl (Panic ''clearpteu'')
         else Inr (poke pte (load32 (mem s) pte AND NOT PTE_U) s))"

definition clearptew :: "uint \<Rightarrow> uint \<Rightarrow> 'z mach_scheme \<Rightarrow> 'z mach_scheme outcome" where
  "clearptew pd uva s =
     (let (pte, s) = walkpgdir pd uva False s
      in if pte = 0 then Inl (Panic ''clearptew. pte shoul be present'')
         else Inr (poke pte (load32 (mem s) pte AND NOT PTE_W) s))"

definition cleardtew :: "uint \<Rightarrow> uint \<Rightarrow> 'z mach_scheme \<Rightarrow> 'z mach_scheme" where
  "cleardtew pd uva s = poke (pde_at pd uva) (load32 (mem s) (pde_at pd uva) AND NOT PTE_W) s"

definition setptew :: "uint \<Rightarrow> uint \<Rightarrow> 'z mach_scheme \<Rightarrow> 'z mach_scheme outcome" where
  "setptew pd uva s =
     (let (pte, s) = walkpgdir pd uva False s
      in if pte = 0 then Inl (Panic ''setptew. pte shoul be present'')
         else Inr (poke pte (load32 (mem s) pte OR PTE_W) s))"

definition setdtew :: "uint \<Rightarrow> uint \<Rightarrow> 'z mach_scheme \<Rightarrow> 'z mach_scheme" where
  "setdtew pd uva s = poke (pde_at pd uva) (load32 (mem s) (pde_at pd uva) OR PTE_W) s"

subsection \<open>Copying\<close>

text \<open>The loop of \<open>copyuvm\<close>; \<open>False\<close> stands for \<open>goto bad\<close>.\<close>

function copyuvm_loop :: "uint \<Rightarrow> uint \<Rightarrow> nat \<Rightarrow> nat \<Rightarrow> 'z mach_scheme \<Rightarrow> (bool \<times> 'z mach_scheme) outcome" where
  "copyuvm_loop pd d i n s =
     (if i < n
      then let (pte, s) = walkpgdir pd (of_nat i) False s
           in if pte = 0 then Inl (Panic ''copyuvm: pte should exist'')
              else let e = load32 (mem s) pte
                   in if e AND PTE_P = 0 then Inl (Panic ''copyuvm: page not present'')
                      else let (pg, s) = kalloc s
                           in if pg = 0 then Inr (False, s)
                              else let s = s\<lparr>mem := memmove pg (p2v (PTE_ADDR e)) PGSIZE (mem s)\<rparr>
                                   in ebind (mappages d (of_nat i) PGSIZE (v2p pg) (PTE_W OR PTE_U) s) (\<lambda>(r, s).
                                        if r < 0 then Inr (False, s) else copyuvm_loop pd d (i + 4096) n s)
      else Inr (True, s))"
  by pat_completeness auto
termination
  by (relation "measure (\<lambda>(pd, d, i, n, s). n - i)") auto

declare copyuvm_loop.simps [simp del]

definition copyuvm :: "uint \<Rightarrow> uint \<Rightarrow> 'z kern_scheme \<Rightarrow> (uint \<times> 'z kern_scheme) outcome" where
  "copyuvm pd n s =
     ebind (setupkvm s) (\<lambda>(d, s).
       if d = 0 then Inr (0, s)
       else ebind (copyuvm_loop pd d 0 (unat n) s) (\<lambda>(ok, s).
              if ok then Inr (d, s) else ebind (freevm d s) (\<lambda>s. Inr (0, s))))"

text \<open>\<open>uva2ka\<close> reads through the entry it gets without a test for the null pointer.\<close>

definition uva2ka :: "uint \<Rightarrow> uint \<Rightarrow> 'z mach_scheme \<Rightarrow> uint outcome" where
  "uva2ka pd uva s =
     (let (pte, s) = walkpgdir pd uva False s
      in if pte = 0 then Inl (Undef ''uva2ka: pte'')
         else let e = load32 (mem s) pte
              in if e AND PTE_P = 0 then Inr 0
                 else if e AND PTE_U = 0 then Inr 0
                 else Inr (p2v (PTE_ADDR e)))"

lemma page_rest: "0 < unat (PGSIZE - (va - PGROUNDDOWN va))"
proof -
  have "unat va div 4096 * 4096 \<le> unat va" by simp
  then have "unat (va - PGROUNDDOWN va) = unat va mod 4096"
    by (simp only: unat_sub_if_size unat_PGROUNDDOWN) (simp add: minus_div_mult_eq_mod)
  then have "unat (va - PGROUNDDOWN va) \<noteq> unat PGSIZE" by (simp add: PGSIZE_def)
  then have "PGSIZE - (va - PGROUNDDOWN va) \<noteq> 0" by auto
  then show ?thesis by (simp add: unat_gt_0)
qed

function copyout :: "uint \<Rightarrow> uint \<Rightarrow> uchar list \<Rightarrow> 'z mach_scheme \<Rightarrow> (int \<times> 'z mach_scheme) outcome" where
  "copyout pd va bs s =
     (if bs = [] then Inr (0, s)
      else let va0 = PGROUNDDOWN va
           in ebind (uva2ka pd va0 s) (\<lambda>pa0.
                if pa0 = 0 then Inr (- 1, s)
                else let n = min (unat (PGSIZE - (va - va0))) (length bs)
                     in copyout pd (va0 + PGSIZE) (drop n bs)
                          (s\<lparr>mem := store_bytes (pa0 + (va - va0)) (take n bs) (mem s)\<rparr>)))"
  by pat_completeness auto
termination
  by (relation "measure (\<lambda>(pd, va, bs, s). length bs)") (auto simp: min_def intro!: diff_less page_rest)

declare copyout.simps [simp del]

text \<open>
  The paging hardware: the kernel address of the byte at a user address, if the page is mapped.
\<close>

definition uaddr :: "memory \<Rightarrow> uint \<Rightarrow> uint \<Rightarrow> uint option" where
  "uaddr m pd va =
     (let pde = load32 m (pde_at pd va)
      in if pde AND PTE_P = 0 then None
         else let pte = load32 m (p2v (PTE_ADDR pde) + 4 * PTX va)
              in if pte AND PTE_P = 0 then None else Some (p2v (PTE_ADDR pte) + (va AND 0xFFF)))"

text \<open>Both levels allow writing.\<close>

definition uwritable :: "memory \<Rightarrow> uint \<Rightarrow> uint \<Rightarrow> bool" where
  "uwritable m pd va =
     (let pde = load32 m (pde_at pd va); pte = load32 m (p2v (PTE_ADDR pde) + 4 * PTX va)
      in pde AND PTE_P \<noteq> 0 \<and> pte AND PTE_P \<noteq> 0 \<and> pde AND PTE_W \<noteq> 0 \<and> pte AND PTE_W \<noteq> 0)"

end
