(* ===== verification/Process.thy ===== *)
theory Process
  imports Console Vm
begin

text \<open>
  The life of a process in \<open>proc.c\<close>: \<open>userinit\<close>, \<open>growproc\<close>, \<open>fork\<close>, \<open>exit\<close> and \<open>wait\<close>, and the sharing
  of memory between parent and child.  After \<open>fork\<close> the child has a page directory of its own whose
  entries point to the parent's page tables; all pages but the last are read-only, and the first
  write to one of them faults and lands in \<open>trapCOW\<close>, which copies the page table and the page.

  The kernel runs with the page table of the current process, so a null pointer that it follows
  reads or writes the first page of that process: \<open>kload32\<close> and \<open>kstore32\<close> say so.
\<close>

subsection \<open>Memory as the kernel sees it\<close>

definition cur_pgdir :: "'z kern_scheme \<Rightarrow> uint" where
  "cur_pgdir s = (case curproc s of None \<Rightarrow> kpgdir s | Some p \<Rightarrow> pgdir (ptable s p))"

text \<open>
  A fault in the kernel ends in the \<open>default\<close> case of \<open>trap\<close>.  The processor honours the write bit of
  both levels in kernel mode as well (\<open>CR0_WP\<close> is set in \<open>entry.S\<close>).
\<close>

definition kbyte :: "uint \<Rightarrow> 'z kern_scheme \<Rightarrow> uchar outcome" where
  "kbyte a s =
     (if a \<ge> KERNBASE then Inr (mem s a)
      else case uaddr (mem s) (cur_pgdir s) a of None \<Rightarrow> Inl (Panic ''trap'') | Some k \<Rightarrow> Inr (mem s k))"

fun kbytes :: "uint \<Rightarrow> nat \<Rightarrow> 'z kern_scheme \<Rightarrow> uchar list outcome" where
  "kbytes a 0 s = Inr []"
| "kbytes a (Suc n) s = ebind (kbyte a s) (\<lambda>b. ebind (kbytes (a + 1) n s) (\<lambda>bs. Inr (b # bs)))"

definition kload32 :: "uint \<Rightarrow> 'z kern_scheme \<Rightarrow> uint outcome" where
  "kload32 a s = ebind (kbytes a 4 s) (\<lambda>bs. Inr (of_le32 bs))"

definition kstore :: "uint \<Rightarrow> uchar \<Rightarrow> 'z kern_scheme \<Rightarrow> 'z kern_scheme outcome" where
  "kstore a b s =
     (if a \<ge> KERNBASE then Inr (s\<lparr>mem := (mem s)(a := b)\<rparr>)
      else case uaddr (mem s) (cur_pgdir s) a of
             None \<Rightarrow> Inl (Panic ''trap'')
           | Some k \<Rightarrow>
               if uwritable (mem s) (cur_pgdir s) a then Inr (s\<lparr>mem := (mem s)(k := b)\<rparr>) else Inl (Panic ''trap''))"

fun kstores :: "uint \<Rightarrow> uchar list \<Rightarrow> 'z kern_scheme \<Rightarrow> 'z kern_scheme outcome" where
  "kstores a [] s = Inr s"
| "kstores a (b # bs) s = ebind (kstore a b s) (kstores (a + 1) bs)"

definition kstore32 :: "uint \<Rightarrow> uint \<Rightarrow> 'z kern_scheme \<Rightarrow> 'z kern_scheme outcome" where
  "kstore32 a w s = kstores a (le32 w) s"

subsection \<open>Sharing\<close>

datatype sharedmemorylevel = NOTHING | DIRECTORY | TABLE | FRAME

text \<open>The loop of \<open>isshared\<close> stops at the first slot whose pid is 0.\<close>

fun isshared_loop :: "uint \<Rightarrow> nat \<Rightarrow> nat list \<Rightarrow> 'z kern_scheme \<Rightarrow> sharedmemorylevel outcome" where
  "isshared_loop va c [] s = Inr NOTHING"
| "isshared_loop va c (p # ps) s =
     (let q = ptable s p; d = pgdir (ptable s c)
      in if pid q = 0 then Inr NOTHING
         else if state q = ZOMBIE \<or> p = c then isshared_loop va c ps s
         else if d = pgdir q then Inr DIRECTORY
         else ebind (kload32 (pde_at d va) s) (\<lambda>e1.
              ebind (kload32 (pde_at (pgdir q) va) s) (\<lambda>e2.
                if e1 = e2 then Inr TABLE
                else ebind (kload32 (fst (wpgdir d va False s)) s) (\<lambda>f1.
                     ebind (kload32 (fst (wpgdir (pgdir q) va False s)) s) (\<lambda>f2.
                       if f1 = f2 then Inr FRAME else isshared_loop va c ps s)))))"

definition isshared :: "uint \<Rightarrow> 'z kern_scheme \<Rightarrow> sharedmemorylevel outcome" where
  "isshared va s = (case curproc s of None \<Rightarrow> Inl (Undef ''proc'') | Some c \<Rightarrow> isshared_loop va c [0..<NPROC] s)"

text \<open>One page of the inner loop of \<open>unlinkzombiesharedmemory\<close>.\<close>

definition unlink_page :: "nat \<Rightarrow> nat \<Rightarrow> nat \<Rightarrow> 'z kern_scheme \<Rightarrow> 'z kern_scheme outcome" where
  "unlink_page z p i s =
     (let va = of_nat i; d = pgdir (ptable s p); dz = pgdir (ptable s z);
          pteP = fst (wpgdir d va False s); ptePZ = fst (wpgdir dz va False s)
      in ebind (kload32 pteP s) (\<lambda>e. ebind (kload32 ptePZ s) (\<lambda>ez.
           if e = ez
           then ebind (kload32 (pde_at d va) s) (\<lambda>t. ebind (kload32 (pde_at dz va) s) (\<lambda>tz.
                  if tz \<noteq> 0 \<and> t = tz then kstore32 (pde_at dz va) 0 s else kstore32 ptePZ 0 s))
           else Inr s)))"

definition page_starts :: "nat \<Rightarrow> nat list" where
  "page_starts n = map (\<lambda>k. k * 4096) [0..<(n + 4095) div 4096]"

fun unlink_loop :: "nat \<Rightarrow> nat list \<Rightarrow> 'z kern_scheme \<Rightarrow> 'z kern_scheme outcome" where
  "unlink_loop z [] s = Inr s"
| "unlink_loop z (p # ps) s =
     (if pid (ptable s p) = 0 then Inr s
      else if p \<noteq> z then ebind (efold (unlink_page z p) (page_starts (unat (sz (ptable s z)))) s) (unlink_loop z ps)
      else unlink_loop z ps s)"

definition unlinkzombiesharedmemory :: "nat \<Rightarrow> 'z kern_scheme \<Rightarrow> 'z kern_scheme outcome" where
  "unlinkzombiesharedmemory z s = unlink_loop z [0..<NPROC] s"

text \<open>The kernel address of the page that holds a user address of the current process.\<close>

definition user_page :: "uint \<Rightarrow> 'z kern_scheme \<Rightarrow> uint outcome" where
  "user_page va s = (case uaddr (mem s) (cur_pgdir s) (PGROUNDDOWN va) of None \<Rightarrow> Inl (Panic ''trap'') | Some k \<Rightarrow> Inr k)"

text \<open>The part that \<open>copystackpage\<close> and \<open>copypage\<close> share: a zeroed page with the contents of the page of \<open>va\<close>, entered for \<open>va\<close> in directory \<open>d\<close>.\<close>

definition copy_frame :: "string \<Rightarrow> uint \<Rightarrow> uint \<Rightarrow> 'z kern_scheme \<Rightarrow> 'z kern_scheme outcome" where
  "copy_frame who d va s =
     (let (frame, s) = kalloc s
      in if frame = 0 then Inl (Panic who)
         else let s = s\<lparr>mem := memset frame 0 PGSIZE (mem s)\<rparr>
              in ebind (user_page va s) (\<lambda>k.
                   let s = s\<lparr>mem := memmove frame k PGSIZE (mem s)\<rparr>
                   in kstore32 (fst (wpgdir d (PGROUNDDOWN va) False s)) (v2p frame OR PTE_W OR PTE_U OR PTE_P) s))"

definition copystackpage :: "uint \<Rightarrow> nat \<Rightarrow> nat \<Rightarrow> 'z kern_scheme \<Rightarrow> 'z kern_scheme outcome" where
  "copystackpage va c np s =
     (let cd = pgdir (ptable s c)
      in ebind (setupkvm s) (\<lambda>(dir, s).
           if dir = 0 then Inl (Undef ''copystackpage: setupkvm'')
           else let s = s\<lparr>mem := memmove dir cd ((PGSIZE div 2) - 1) (mem s)\<rparr>;
                    s = upd_proc np (\<lambda>q. q\<lparr>pgdir := dir\<rparr>) s;
                    pde = load32 (mem s) (pde_at cd va)
                in if pde AND PTE_P = 0 then Inl (Panic ''copystackpage. Page table (pte) should be present'')
                   else let pte = p2v (PTE_ADDR pde);
                            (tabla, s) = kalloc s
                        in if tabla = 0 then Inl (Panic ''kalloc on copystackpage'')
                           else let s = s\<lparr>mem := memset tabla 0 PGSIZE (mem s)\<rparr>;
                                    s = setdtew cd (PGROUNDDOWN va) s;
                                    s = setdtew dir (PGROUNDDOWN va) s;
                                    s = s\<lparr>mem := memmove tabla pte PGSIZE (mem s)\<rparr>;
                                    s = poke (pde_at dir va) (v2p tabla OR PTE_W OR PTE_U OR PTE_P) s
                                in copy_frame ''kalloc on copystackpage'' dir va s))"

text \<open>The cases of \<open>copypage\<close> fall through from \<open>TABLE\<close> to \<open>FRAME\<close> to \<open>NOTHING\<close>.\<close>

definition copy_table :: "uint \<Rightarrow> uint \<Rightarrow> 'z kern_scheme \<Rightarrow> 'z kern_scheme outcome" where
  "copy_table d va s =
     (let pde = load32 (mem s) (pde_at d va)
      in if pde AND PTE_P = 0 then Inl (Panic ''copypage. Page table (pte) should be present'')
         else let pte = p2v (PTE_ADDR pde);
                  (tabla, s) = kalloc s
              in if tabla = 0 then Inl (Panic ''kalloc on copypage'')
                 else let s = s\<lparr>mem := memset tabla 0 PGSIZE (mem s)\<rparr>;
                          s = s\<lparr>mem := memmove tabla pte PGSIZE (mem s)\<rparr>
                      in Inr (poke (pde_at d va) (v2p tabla OR PTE_W OR PTE_U OR PTE_P) s))"

definition copypage :: "'z kern_scheme \<Rightarrow> 'z kern_scheme outcome" where
  "copypage s =
     (let va = cr2 (hw s); d = cur_pgdir s
      in ebind (isshared va s) (\<lambda>shared.
           case shared of
             DIRECTORY \<Rightarrow> Inl (Panic ''proc should have its own pgdir'')
           | TABLE \<Rightarrow> ebind (copy_table d va s) (\<lambda>s.
                      ebind (copy_frame ''kalloc on copypage'' d va s) (setptew d (PGROUNDDOWN va)))
           | FRAME \<Rightarrow> ebind (copy_frame ''kalloc on copypage'' d va s) (setptew d (PGROUNDDOWN va))
           | NOTHING \<Rightarrow> setptew d (PGROUNDDOWN va) s))"

definition trapCOW :: "'z kern_scheme \<Rightarrow> 'z kern_scheme outcome" where
  "trapCOW s = copypage s"

subsection \<open>The first process, and growing\<close>

definition TF_ES :: uint where "TF_ES = 40"
definition TF_DS :: uint where "TF_DS = 44"
definition TF_EFLAGS :: uint where "TF_EFLAGS = 64"
definition TF_SS :: uint where "TF_SS = 72"
definition FL_IF :: uint where "FL_IF = 0x200"

definition poke16 :: "uint \<Rightarrow> ushort \<Rightarrow> 'z mach_scheme \<Rightarrow> 'z mach_scheme" where
  "poke16 a w s = s\<lparr>mem := (mem s)(a := le16 w ! 0, a + 1 := le16 w ! 1)\<rparr>"

definition bytes_of :: "string \<Rightarrow> uchar list" where
  "bytes_of = map chr"

text \<open>The program that the first process runs, linked into the kernel, is the argument \<open>ini\<close>.\<close>

definition userinit :: "'z cons_scheme devsw \<Rightarrow> uchar list \<Rightarrow> 'z cons_scheme \<Rightarrow> 'z cons_scheme outcome" where
  "userinit dv ini s =
     ebind (allocproc s) (\<lambda>(r, s).
       case r of None \<Rightarrow> Inl (Undef ''userinit: allocproc'') | Some p \<Rightarrow>
       let s = s\<lparr>initproc := Some p\<rparr>
       in ebind (setupkvm s) (\<lambda>(pg, s).
            let s = upd_proc p (\<lambda>q. q\<lparr>pgdir := pg\<rparr>) s
            in if pg = 0 then Inl (Panic ''userinit: out of memory?'')
               else ebind (inituvm pg ini s) (\<lambda>s.
                      let s = upd_proc p (\<lambda>q. q\<lparr>sz := PGSIZE\<rparr>) s;
                          t = tf (ptable s p);
                          s = s\<lparr>mem := memset t 0 TF_SIZE (mem s)\<rparr>;
                          s = poke16 (t + TF_CS) (of_nat (SEG_UCODE * 8) OR ucast DPL_USER) s;
                          ds = of_nat (SEG_UDATA * 8) OR ucast DPL_USER;
                          s = poke16 (t + TF_DS) ds s;
                          s = poke16 (t + TF_ES) ds s;
                          s = poke16 (t + TF_SS) ds s;
                          s = poke (t + TF_EFLAGS) FL_IF s;
                          s = poke (t + TF_ESP) PGSIZE s;
                          s = poke (t + TF_EIP) 0 s;
                          s = upd_proc p (\<lambda>q. q\<lparr>pname := bytes_of ''initcode''\<rparr>) s
                      in ebind (namei dv (bytes_of ''/'') s) (\<lambda>(ip, s).
                           Inr (upd_proc p (\<lambda>q. q\<lparr>cwd := ip, state := RUNNABLE\<rparr>) s)))))"

definition growproc :: "int \<Rightarrow> 'z kern_scheme \<Rightarrow> (int \<times> 'z kern_scheme) outcome" where
  "growproc n s =
     (case curproc s of
        None \<Rightarrow> Inl (Undef ''proc'')
      | Some c \<Rightarrow>
          let q = ptable s c;
              fin = (\<lambda>new s. ebind (switchuvm c (upd_proc c (\<lambda>q. q\<lparr>sz := new\<rparr>) s)) (\<lambda>s. Inr (0, s)))
          in if n > 0
             then ebind (allocuvm (pgdir q) (sz q) (sz q + of_int n) s) (\<lambda>(new, s). if new = 0 then Inr (- 1, s) else fin new s)
             else if n < 0
             then ebind (deallocuvm (pgdir q) (sz q) (sz q + of_int n) s) (\<lambda>(new, s). if new = 0 then Inr (- 1, s) else fin new s)
             else fin (sz q) s)"

subsection \<open>Fork\<close>

text \<open>\<open>strncmp(proc->name, pre, 2) == 0\<close> for a prefix of at least two characters.\<close>

definition name_starts :: "uchar list \<Rightarrow> string \<Rightarrow> bool" where
  "name_starts name pre \<longleftrightarrow> take 2 name = take 2 (bytes_of pre)"

text \<open>
  The loop of the sharing branch: \<open>i\<close> is compared as an unsigned number with \<open>proc->sz - PGSIZE\<close>, and
  its last value is the page that is copied.
\<close>

definition share_pages :: "uint \<Rightarrow> uint \<Rightarrow> 'z mach_scheme \<Rightarrow> 'z mach_scheme outcome" where
  "share_pages d n s =
     efold (\<lambda>i s. clearptew d (of_nat i) (cleardtew d (of_nat i) s)) (page_starts (unat (n - PGSIZE))) s"

definition last_page :: "uint \<Rightarrow> uint" where
  "last_page n = of_nat ((unat (n - PGSIZE) + 4095) div 4096 * 4096)"

definition fork_files :: "nat \<Rightarrow> nat \<Rightarrow> nat \<Rightarrow> 'z files_scheme \<Rightarrow> 'z files_scheme outcome" where
  "fork_files c np i s =
     (case ofile (ptable s c) i of
        None \<Rightarrow> Inr s
      | Some f \<Rightarrow> ebind (filedup f s) (\<lambda>s. Inr (upd_proc np (\<lambda>q. q\<lparr>ofile := (ofile q)(i := Some f)\<rparr>) s)))"

definition fork_memory :: "nat \<Rightarrow> nat \<Rightarrow> 'z kern_scheme \<Rightarrow> (bool \<times> 'z kern_scheme) outcome" where
  "fork_memory c np s =
     (let q = ptable s c
      in if name_starts (pname q) ''sh'' \<or> name_starts (pname q) ''init''
         then ebind (copyuvm (pgdir q) (sz q) s) (\<lambda>(d, s).
                let s = upd_proc np (\<lambda>q. q\<lparr>pgdir := d\<rparr>) s
                in if d = 0
                   then ebind (kfree (kstack (ptable s np)) s) (\<lambda>s.
                          Inr (False, upd_proc np (\<lambda>q. q\<lparr>kstack := 0, state := UNUSED\<rparr>) s))
                   else Inr (True, s))
         else ebind (share_pages (pgdir q) (sz q) s) (\<lambda>s.
              ebind (copystackpage (last_page (sz q)) c np s) (\<lambda>s. Inr (True, s))))"

definition fork :: "'z files_scheme \<Rightarrow> (int \<times> 'z files_scheme) outcome" where
  "fork s =
     (case curproc s of None \<Rightarrow> Inl (Undef ''proc'') | Some c \<Rightarrow>
      ebind (allocproc s) (\<lambda>(r, s).
        case r of None \<Rightarrow> Inr (- 1, s) | Some np \<Rightarrow>
        ebind (fork_memory c np s) (\<lambda>(ok, s).
          if \<not> ok then Inr (- 1, s)
          else let q = ptable s c;
                   s = upd_proc np (\<lambda>n. n\<lparr>sz := sz q, parent := Some c\<rparr>) s;
                   t = tf (ptable s np);
                   s = s\<lparr>mem := memmove t (tf q) TF_SIZE (mem s)\<rparr>;
                   s = poke (t + TF_EAX) 0 s
               in ebind (efold (fork_files c np) [0..<NOFILE] s) (\<lambda>s.
                  case cwd (ptable s c) of None \<Rightarrow> Inl (Undef ''proc->cwd'') | Some d \<Rightarrow>
                    let (d, s) = idup d s;
                        s = upd_proc np (\<lambda>n. n\<lparr>cwd := Some d\<rparr>) s;
                        s = upd_proc np (\<lambda>n. n\<lparr>state := RUNNABLE, pname := take 15 (pname q)\<rparr>) s
                    in Inr (pid (ptable s np), s)))))"

subsection \<open>Exit and wait\<close>

definition exit_file :: "nat \<Rightarrow> nat \<Rightarrow> 'z files_scheme \<Rightarrow> 'z files_scheme outcome" where
  "exit_file c fd s =
     (case ofile (ptable s c) fd of
        None \<Rightarrow> Inr s
      | Some f \<Rightarrow> ebind (fileclose f s) (\<lambda>s. Inr (upd_proc c (\<lambda>q. q\<lparr>ofile := (ofile q)(fd := None)\<rparr>) s)))"

definition exit_child :: "nat \<Rightarrow> nat \<Rightarrow> 'z kern_scheme \<Rightarrow> 'z kern_scheme" where
  "exit_child c p s =
     (if parent (ptable s p) = Some c
      then let s = upd_proc p (\<lambda>q. q\<lparr>parent := initproc s\<rparr>) s
           in if state (ptable s p) = ZOMBIE then wakeup1 (map_option ChProc (initproc s)) s else s
      else s)"

text \<open>\<open>exit\<close> up to its call of \<open>sched\<close>, from which it does not return.\<close>

definition exit :: "'z files_scheme \<Rightarrow> 'z files_scheme outcome" where
  "exit s =
     (case curproc s of None \<Rightarrow> Inl (Undef ''proc'') | Some c \<Rightarrow>
      if initproc s = Some c then Inl (Panic ''init exiting'')
      else ebind (efold (exit_file c) [0..<NOFILE] s) (\<lambda>s.
           ebind (case cwd (ptable s c) of None \<Rightarrow> Inl (Undef ''proc->cwd'') | Some d \<Rightarrow> iput d s) (\<lambda>s.
             let s = upd_proc c (\<lambda>q. q\<lparr>cwd := None\<rparr>) s;
                 s = wakeup1 (map_option ChProc (parent (ptable s c))) s;
                 s = fold (exit_child c) [0..<NPROC] s
             in Inr (upd_proc c (\<lambda>q. q\<lparr>state := ZOMBIE\<rparr>) s))))"

definition reap :: "nat \<Rightarrow> 'z kern_scheme \<Rightarrow> 'z kern_scheme outcome" where
  "reap p s =
     ebind (kfree (kstack (ptable s p)) s) (\<lambda>s.
       let s = upd_proc p (\<lambda>q. q\<lparr>kstack := 0\<rparr>) s
       in ebind (unlinkzombiesharedmemory p s) (\<lambda>s.
          ebind (freevm (pgdir (ptable s p)) s) (\<lambda>s.
            Inr (upd_proc p (\<lambda>q. q\<lparr>state := UNUSED, pid := 0, parent := None, pname := [], killed := False\<rparr>) s))))"

definition wait :: "'z kern_scheme \<Rightarrow> (int \<times> 'z kern_scheme) outcome" where
  "wait s =
     (case curproc s of None \<Rightarrow> Inl (Undef ''proc'') | Some c \<Rightarrow>
      (case find_proc (\<lambda>q. parent q = Some c \<and> state q = ZOMBIE) s of
         Some p \<Rightarrow> ebind (reap p s) (\<lambda>t. Inr (pid (ptable s p), t))
       | None \<Rightarrow>
           if find_proc (\<lambda>q. parent q = Some c) s = None \<or> killed (ptable s c) then Inr (- 1, s)
           else Inl (Sleep (ChProc c))))"

end
