(* ===== verification/Paging.thy ===== *)
theory Paging
  imports Vm
begin

text \<open>
  Page tables as data.  Every page of kernel memory has a role: free, page directory, page table for
  one directory index, or frame mapped at one user page.  \<open>typed\<close> says that the words in memory respect the roles, so
  that a store in a page of one role leaves the pages of the others alone.  \<open>uaddr\<close> and \<open>ubyte\<close>
  say what a process sees; the lemmas say how single stores change that.
\<close>

subsection \<open>Entries\<close>

definition entry :: "memory \<Rightarrow> uint \<Rightarrow> uint \<Rightarrow> uint" where
  "entry m k w = load32 m (k + 4 * w)"

definition same_page :: "memory \<Rightarrow> memory \<Rightarrow> uint \<Rightarrow> bool" where
  "same_page m m' k \<longleftrightarrow> (\<forall>x. in_region k 4096 x \<longrightarrow> m' x = m x)"

lemma unat_4_times: "unat w < 1024 \<Longrightarrow> unat (4 * w :: uint) = 4 * unat w"
  by (simp add: unat_word_ariths)

lemma entry_in_page:
  assumes "unat w < 1024" "in_region (k + 4 * w) 4 x"
  shows "in_region k 4096 x"
  by (rule in_region_sub [OF assms(2)]) (use assms(1) in \<open>simp_all add: unat_4_times\<close>)

lemma entry_apart:
  assumes "unat v < 1024" "unat w < 1024" "v \<noteq> w" "in_region (k + 4 * v) 4 x"
  shows "\<not> in_region (k + 4 * w) 4 x"
proof
  assume w: "in_region (k + 4 * w) 4 x"
  have less: False if "unat a < unat b" "unat b < 1024" "in_region (k + 4 * a) 4 x" "in_region (k + 4 * b) 4 x" for a b :: uint
    using in_region_apart [OF that(3), of "4 * b" 4] that by (simp add: unat_4_times)
  have "unat v \<noteq> unat w" using assms(3) by (simp add: word_unat_eq_iff)
  then show False using less [of v w] less [of w v] assms(1,2,4) w by linarith
qed

lemma entry_cong: "same_page m m' k \<Longrightarrow> unat w < 1024 \<Longrightarrow> entry m' k w = entry m k w"
  unfolding entry_def by (rule load32_cong) (auto simp: same_page_def dest: entry_in_page)

lemma entry_store:
  assumes "unat v < 1024" "unat w < 1024"
  shows "entry (store32 m (k + 4 * v) e) k w = (if w = v then e else entry m k w)"
proof (cases "w = v")
  case False
  then show ?thesis using assms by (auto simp: entry_def intro!: load32_store32_other dest: entry_apart)
qed (simp add: entry_def)

lemma store_same_page:
  assumes "k mod PGSIZE = 0" "k' mod PGSIZE = 0" "k \<noteq> k'" "unat v < 1024"
  shows "same_page m (store32 m (k + 4 * v) e) k'"
  unfolding same_page_def using assms entry_in_page pages_disjoint by (metis store32_other)

lemma same_page_refl [simp]: "same_page m m k"
  by (simp add: same_page_def)

lemma same_page_trans: "same_page m m' k \<Longrightarrow> same_page m' m'' k \<Longrightarrow> same_page m m'' k"
  by (simp add: same_page_def)

lemma user_PDX: "va < KERNBASE \<Longrightarrow> unat (PDX va) < 512"
proof -
  assume "va < KERNBASE"
  then have "unat va < 512 * 2 ^ 22" by (simp add: KERNBASE_def word_less_nat_alt)
  then have "unat va div 2 ^ 22 < 512" by (rule less_mult_imp_div_less)
  moreover have "unat (PDX va) \<le> unat (drop_bit 22 va)"
    unfolding PDX_def masks by (simp add: take_bit_eq_mod unat_mod flip: take_bit_eq_mask)
  moreover have "unat (drop_bit 22 va) = unat va div 2 ^ 22" by (simp add: drop_bit_eq_div unat_div)
  ultimately show ?thesis by linarith
qed

subsection \<open>The bits of an entry\<close>

lemma page_bits: "p mod PGSIZE = 0 \<Longrightarrow> bit p n \<Longrightarrow> 12 \<le> n"
proof (rule ccontr)
  assume a: "p mod PGSIZE = 0" "bit p n" "\<not> 12 \<le> n"
  have "take_bit 12 p = 0" using a(1) by (simp add: take_bit_eq_mod PGSIZE_def)
  then have "\<not> bit (take_bit 12 p) n" by simp
  with a show False by (simp add: bit_take_bit_iff)
qed

lemma v2p_page: "k mod PGSIZE = 0 \<Longrightarrow> v2p k mod PGSIZE = 0"
  and p2v_page: "k mod PGSIZE = 0 \<Longrightarrow> p2v k mod PGSIZE = 0"
proof -
  have c: "unat KERNBASE = 4096 * 524288" "(2 :: nat) ^ LENGTH(32) = 4096 * 1048576" by (simp_all add: KERNBASE_def)
  assume k: "k mod PGSIZE = 0"
  then have "4096 dvd unat k" by (simp only: aligned_unat dvd_eq_mod_eq_0)
  then have "4096 dvd unat (v2p k)" "4096 dvd unat (p2v k)"
    unfolding v2p_def p2v_def unat_sub_if_size unat_word_ariths word_size c by (auto simp: dvd_mod intro!: dvd_diff_nat)
  then show "v2p k mod PGSIZE = 0" "p2v k mod PGSIZE = 0" by (simp_all only: aligned_unat dvd_eq_mod_eq_0)
qed

text \<open>The entry that the copy routines write: the page, writable for the user.\<close>

definition user_rw :: "uint \<Rightarrow> uint" where
  "user_rw k = v2p k OR PTE_W OR PTE_U OR PTE_P"

lemma flag_bits: "PTE_P = 2 ^ 0" "PTE_W = 2 ^ 1" "PTE_U = 2 ^ 2"
  by (simp_all add: PTE_P_def PTE_W_def PTE_U_def)

lemma flags_nonzero [simp]: "PTE_P \<noteq> 0" "PTE_W \<noteq> 0" "PTE_U \<noteq> 0"
  by (simp_all add: PTE_P_def PTE_W_def PTE_U_def)

lemma PTE_bits: "bit PTE_P n \<longleftrightarrow> n = 0" "bit PTE_W n \<longleftrightarrow> n = 1" "bit PTE_U n \<longleftrightarrow> n = 2"
  unfolding flag_bits bit_exp_iff by auto

lemma PTE_ADDR_bit: "bit (PTE_ADDR e) n \<longleftrightarrow> 12 \<le> n \<and> bit e n"
  unfolding PTE_ADDR_def masks by (auto simp: bit_simps dest: bit_imp_le_length)

lemma PTE_ADDR_low: "PTE_ADDR e = PTE_ADDR e'" if "\<And>n. 12 \<le> n \<Longrightarrow> bit e n = bit e' n"
  using that by (auto intro!: bit_word_eqI simp: PTE_ADDR_bit)

lemma user_rw_addr [simp]:
  assumes "k mod PGSIZE = 0"
  shows "p2v (PTE_ADDR (user_rw k)) = k"
proof -
  have "PTE_ADDR (user_rw k) = v2p k"
    using page_bits [OF v2p_page [OF assms]]
    by (auto intro!: bit_word_eqI simp: PTE_ADDR_bit user_rw_def bit_simps PTE_bits)
  then show ?thesis by simp
qed

lemma flag_set: "e AND PTE_P \<noteq> 0 \<longleftrightarrow> bit e 0" "e AND PTE_W \<noteq> 0 \<longleftrightarrow> bit e 1" "e AND PTE_U \<noteq> 0 \<longleftrightarrow> bit e 2"
  by (simp_all add: PTE_P_def PTE_W_def PTE_U_def bit_iff_and_push_bit_not_eq_0)

lemma user_rw_flags [simp]:
  "user_rw k AND PTE_P \<noteq> 0" "user_rw k AND PTE_W \<noteq> 0"
  unfolding flag_set by (simp_all add: user_rw_def bit_simps PTE_bits)

lemma or_W [simp]:
  "PTE_ADDR (e OR PTE_W) = PTE_ADDR e" "(e OR PTE_W) AND PTE_P = 0 \<longleftrightarrow> e AND PTE_P = 0" "(e OR PTE_W) AND PTE_W \<noteq> 0"
proof -
  show "PTE_ADDR (e OR PTE_W) = PTE_ADDR e" by (rule PTE_ADDR_low) (simp add: bit_simps PTE_bits)
  have "(e OR PTE_W) AND PTE_P \<noteq> 0 \<longleftrightarrow> e AND PTE_P \<noteq> 0" unfolding flag_set by (simp add: bit_simps PTE_bits)
  then show "(e OR PTE_W) AND PTE_P = 0 \<longleftrightarrow> e AND PTE_P = 0" by blast
  show "(e OR PTE_W) AND PTE_W \<noteq> 0" unfolding flag_set by (simp add: bit_simps PTE_bits)
qed

lemma PTE_ADDR_page: "PTE_ADDR e mod PGSIZE = 0"
  by (simp add: PTE_ADDR_eq aligned_unat unat_PGROUNDDOWN)

lemma PGROUNDDOWN_parts:
  "PDX (PGROUNDDOWN va) = PDX va" "PTX (PGROUNDDOWN va) = PTX va" "PGROUNDDOWN va AND 0xFFF = 0"
  "PGROUNDDOWN va \<le> va"
proof -
  have b: "bit (PGROUNDDOWN va) n \<longleftrightarrow> 12 \<le> n \<and> bit va n" for n
    using PTE_ADDR_bit unfolding PTE_ADDR_eq .
  show "PDX (PGROUNDDOWN va) = PDX va" "PTX (PGROUNDDOWN va) = PTX va" "PGROUNDDOWN va AND 0xFFF = 0"
    unfolding PDX_def PTX_def masks by (auto intro!: bit_word_eqI simp: bit_simps b)
  show "PGROUNDDOWN va \<le> va" by (simp add: word_le_nat_alt unat_PGROUNDDOWN)
qed

lemma offset_bound: "unat ((va :: uint) AND 0xFFF) < 4096"
proof -
  have "va AND 0xFFF = take_bit 12 va" by (simp only: masks take_bit_eq_mask)
  then show ?thesis by (simp add: take_bit_eq_mod unat_mod)
qed

subsection \<open>Roles\<close>

text \<open>\<open>Tab i\<close> is a table for directory index \<open>i\<close>; \<open>Frm i j\<close> is mapped by entry \<open>j\<close> of such tables.\<close>

datatype role = Free | Dir | Tab uint | Frm uint uint | Other

definition typed :: "(uint \<Rightarrow> role) \<Rightarrow> 'z mach_scheme \<Rightarrow> bool" where
  "typed R s \<longleftrightarrow> kmem_ok s \<and> (\<forall>k. R k \<noteq> Other \<longrightarrow> page_ok s k) \<and> (\<forall>k \<in> free_pages s. R k = Free) \<and>
     (\<forall>d i. R d = Dir \<longrightarrow> unat i < 512 \<longrightarrow> entry (mem s) d i AND PTE_P \<noteq> 0 \<longrightarrow> R (p2v (PTE_ADDR (entry (mem s) d i))) = Tab i) \<and>
     (\<forall>t i j. R t = Tab i \<longrightarrow> unat j < 1024 \<longrightarrow> entry (mem s) t j AND PTE_P \<noteq> 0 \<longrightarrow>
        R (p2v (PTE_ADDR (entry (mem s) t j))) = Frm i j)"

lemma typedD:
  assumes "typed R s"
  shows "kmem_ok s" "R k \<noteq> Other \<Longrightarrow> page_ok s k" "k \<in> free_pages s \<Longrightarrow> R k = Free"
    "R d = Dir \<Longrightarrow> unat i < 512 \<Longrightarrow> entry (mem s) d i AND PTE_P \<noteq> 0 \<Longrightarrow> R (p2v (PTE_ADDR (entry (mem s) d i))) = Tab i"
    "R t = Tab i \<Longrightarrow> unat j < 1024 \<Longrightarrow> entry (mem s) t j AND PTE_P \<noteq> 0 \<Longrightarrow> R (p2v (PTE_ADDR (entry (mem s) t j))) = Frm i j"
  using assms unfolding typed_def by blast+

text \<open>\<open>R'\<close> gives roles to some of the pages that were free.\<close>

definition extends :: "(uint \<Rightarrow> role) \<Rightarrow> (uint \<Rightarrow> role) \<Rightarrow> bool" where
  "extends R R' \<longleftrightarrow> (\<forall>k. R k \<noteq> Free \<longrightarrow> R' k = R k)"

lemma extends_refl: "extends R R"
  and extends_trans: "extends R R' \<Longrightarrow> extends R' R'' \<Longrightarrow> extends R R''"
  and extends_new: "R k = Free \<Longrightarrow> extends R (R(k := r))"
  by (auto simp: extends_def)

lemma typed_aligned: "typed R s \<Longrightarrow> R k \<noteq> Other \<Longrightarrow> k mod PGSIZE = 0"
  using typedD(2) by (auto simp: page_ok_def)

lemma page_kernel: "page_ok s k \<Longrightarrow> in_region k 4096 x \<Longrightarrow> KERNBASE \<le> x"
proof -
  assume k: "page_ok s k" "in_region k 4096 x"
  then have al: "k mod PGSIZE = 0" and v: "v2p k < PHYSTOP" by (auto simp: page_ok_def)
  have "unat KERNBASE \<le> unat k"
    using v by (auto simp: v2p_def word_less_nat_alt unat_sub_if_size PHYSTOP_def KERNBASE_def word_size split: if_splits)
  moreover have "unat x div 4096 = unat k div 4096" using in_page [OF al] k(2) by blast
  moreover have "unat k div 4096 * 4096 = unat k" using al div_mult_mod_eq [of "unat k" 4096] by (simp add: aligned_unat)
  moreover have "unat x div 4096 * 4096 \<le> unat x" by simp
  ultimately have "unat KERNBASE \<le> unat x" by linarith
  then show "KERNBASE \<le> x" by (simp add: word_le_nat_alt)
qed

lemma typed_apart:
  assumes "typed R s" "R k \<noteq> Other" "R k' \<noteq> Other" "k \<noteq> k'" "unat v < 1024"
  shows "same_page m (store32 m (k + 4 * v) e) k'"
  using assms typed_aligned by (intro store_same_page) auto

text \<open>Pages outside the free list whose contents mean nothing yet.\<close>

lemma typed_mem:
  assumes "typed R s" "freelist t = freelist s" "kend t = kend s"
    "\<And>k. k \<in> free_pages s \<or> R k = Dir \<or> (\<exists>i. R k = Tab i) \<Longrightarrow> same_page (mem s) (mem t) k"
  shows "typed R t" "free_pages t = free_pages s"
proof -
  note D = typedD [OF assms(1)]
  have "\<And>x p. p \<in> free_pages s \<Longrightarrow> in_region p 4096 x \<Longrightarrow> mem t x = mem s x" using assms(4) by (auto simp: same_page_def)
  note fr = kmem_ok_frame [OF D(1) assms(2,3) this]
  show f: "free_pages t = free_pages s" using fr by simp
  have pg: "page_ok t = page_ok s" by (rule page_ok_cong [OF assms(3)])
  have dir: "entry (mem t) d i = entry (mem s) d i" if "R d = Dir" "unat i < 512" for d i
    using that assms(4) by (intro entry_cong) auto
  have tab: "entry (mem t) d j = entry (mem s) d j" if "R d = Tab i" "unat j < 1024" for d i j
    using that assms(4) by (intro entry_cong) auto
  show "typed R t"
    unfolding typed_def pg f using fr(1) D(2,3) by (auto simp: dir tab intro!: D(4,5))
qed

text \<open>A fresh page gets a role.\<close>

lemma typed_role:
  assumes "typed R s" "R k = Free" "k \<notin> free_pages s"
    "\<And>i j. r = Tab i \<Longrightarrow> unat j < 1024 \<Longrightarrow> entry (mem s) k j AND PTE_P \<noteq> 0 \<Longrightarrow> R (p2v (PTE_ADDR (entry (mem s) k j))) = Frm i j"
    "r \<noteq> Dir"
  shows "typed (R(k := r)) s"
proof -
  note D = typedD [OF assms(1)]
  have new: "p2v (PTE_ADDR (entry (mem s) k j)) \<noteq> k \<and> R (p2v (PTE_ADDR (entry (mem s) k j))) = Frm i j"
    if "r = Tab i" "unat j < 1024" "entry (mem s) k j AND PTE_P \<noteq> 0" for i j
    using assms(2) assms(4) [OF that] by auto
  have dir: "p2v (PTE_ADDR (entry (mem s) d i)) \<noteq> k" if "R d = Dir" "unat i < 512" "entry (mem s) d i AND PTE_P \<noteq> 0" for d i
    using assms(2) D(4) [OF that] by auto
  have tab: "p2v (PTE_ADDR (entry (mem s) t j)) \<noteq> k" if "R t = Tab i" "unat j < 1024" "entry (mem s) t j AND PTE_P \<noteq> 0" for t i j
    using assms(2) D(5) [OF that] by auto
  show ?thesis
    unfolding typed_def
  proof (intro conjI allI impI ballI)
    fix t i j assume "(R(k := r)) t = Tab i" "unat j < 1024" "entry (mem s) t j AND PTE_P \<noteq> 0"
    then show "(R(k := r)) (p2v (PTE_ADDR (entry (mem s) t j))) = Frm i j"
      using new tab D(5) by (cases "t = k") simp_all
  next
    fix d i assume "(R(k := r)) d = Dir" "unat i < 512" "entry (mem s) d i AND PTE_P \<noteq> 0"
    then show "(R(k := r)) (p2v (PTE_ADDR (entry (mem s) d i))) = Tab i"
      using dir D(4) assms(5) by (cases "d = k") simp_all
  qed (use D(1-3) assms(2,3) in \<open>auto split: if_splits\<close>)
qed

text \<open>A store in a directory or a table that respects the roles.\<close>

lemma typed_store:
  assumes "typed R s" "(R k = Dir \<and> unat w < 1024 \<and> (unat w < 512 \<longrightarrow> e AND PTE_P \<noteq> 0 \<longrightarrow> R (p2v (PTE_ADDR e)) = Tab w)) \<or>
     (\<exists>i. R k = Tab i \<and> unat w < 1024 \<and> (e AND PTE_P \<noteq> 0 \<longrightarrow> R (p2v (PTE_ADDR e)) = Frm i w))"
  defines "t \<equiv> poke (k + 4 * w) e s"
  shows "typed R t" "free_pages t = free_pages s" "same_page (mem s) (mem t) k' \<or> k' = k \<or> R k' = Other"
    "unat w' < 1024 \<Longrightarrow> entry (mem t) k w' = (if w' = w then e else entry (mem s) k w')"
proof -
  note D = typedD [OF assms(1)]
  have w: "unat w < 1024" and ko: "R k \<noteq> Other" "R k \<noteq> Free" using assms(2) by auto
  have m: "mem t = store32 (mem s) (k + 4 * w) e" "freelist t = freelist s" "kend t = kend s" by (simp_all add: t_def poke_def)
  show same: "same_page (mem s) (mem t) k' \<or> k' = k \<or> R k' = Other" for k'
    unfolding m using typed_apart [OF assms(1) ko(1) _ _ w] by metis
  show ent: "entry (mem t) k w' = (if w' = w then e else entry (mem s) k w')" if "unat w' < 1024" for w'
    unfolding m by (rule entry_store [OF w that])
  have "\<And>x p. p \<in> free_pages s \<Longrightarrow> in_region p 4096 x \<Longrightarrow> mem t x = mem s x"
    using same D(3) ko by (metis role.distinct(7) same_page_def)
  note fr = kmem_ok_frame [OF D(1) m(2,3) this]
  show f: "free_pages t = free_pages s" using fr by simp
  have pg: "page_ok t = page_ok s" by (rule page_ok_cong [OF m(3)])
  have other: "entry (mem t) a b = entry (mem s) a b" if "a \<noteq> k" "R a \<noteq> Other" "unat b < 1024" for a b
    using that same by (intro entry_cong) auto
  show "typed R t"
    unfolding typed_def pg f
  proof (intro conjI allI impI ballI)
    fix d i assume a: "R d = Dir" "unat i < 512" "entry (mem t) d i AND PTE_P \<noteq> 0"
    then show "R (p2v (PTE_ADDR (entry (mem t) d i))) = Tab i"
      using assms(2) D(4) other [of d i] ent [of i] by (cases "d = k"; cases "i = w") auto
  next
    fix b i j assume a: "R b = Tab i" "unat j < 1024" "entry (mem t) b j AND PTE_P \<noteq> 0"
    then show "R (p2v (PTE_ADDR (entry (mem t) b j))) = Frm i j"
      using assms(2) D(5) other [of b j] ent [of j] by (cases "b = k"; cases "j = w") auto
  qed (use fr(1) D(2,3) in auto)
qed

subsection \<open>What a process sees\<close>

lemma uaddr_entries:
  "uaddr m d va =
     (if entry m d (PDX va) AND PTE_P = 0 then None
      else if entry m (p2v (PTE_ADDR (entry m d (PDX va)))) (PTX va) AND PTE_P = 0 then None
      else Some (p2v (PTE_ADDR (entry m (p2v (PTE_ADDR (entry m d (PDX va)))) (PTX va))) + (va AND 0xFFF)))"
  by (simp add: uaddr_def entry_def pde_at_def Let_def)

definition ubyte :: "memory \<Rightarrow> uint \<Rightarrow> uint \<Rightarrow> uchar option" where
  "ubyte m d va = map_option m (uaddr m d va)"

text \<open>The table and the frame of a mapped address.\<close>

lemma uaddr_typed:
  assumes "typed R s" "R d = Dir" "va < KERNBASE" "uaddr (mem s) d va = Some x"
  obtains t f where "R t = Tab (PDX va)" "R f = Frm (PDX va) (PTX va)" "t = p2v (PTE_ADDR (entry (mem s) d (PDX va)))"
    "f = p2v (PTE_ADDR (entry (mem s) t (PTX va)))" "x = f + (va AND 0xFFF)" "in_region f 4096 x"
    "entry (mem s) d (PDX va) AND PTE_P \<noteq> 0" "entry (mem s) t (PTX va) AND PTE_P \<noteq> 0"
proof -
  let ?e = "entry (mem s) d (PDX va)"
  let ?t = "p2v (PTE_ADDR ?e)"
  let ?f = "p2v (PTE_ADDR (entry (mem s) ?t (PTX va)))"
  have p: "?e AND PTE_P \<noteq> 0" "entry (mem s) ?t (PTX va) AND PTE_P \<noteq> 0" "x = ?f + (va AND 0xFFF)"
    using assms(4) by (auto simp: uaddr_entries split: if_splits)
  note D = typedD [OF assms(1)]
  have t: "R ?t = Tab (PDX va)" by (rule D(4) [OF assms(2) user_PDX [OF assms(3)] p(1)])
  have f: "R ?f = Frm (PDX va) (PTX va)" by (rule D(5) [OF t PTX_bound p(2)])
  have "in_region ?f 4096 x" using offset_bound by (simp add: p(3) in_region_def)
  then show thesis using that t f p by blast
qed

lemma uaddr_same:
  assumes "typed R s" "R d = Dir" "va < KERNBASE" "same_page (mem s) m d" "\<And>t. R t = Tab (PDX va) \<Longrightarrow> same_page (mem s) m t"
  shows "uaddr m d va = uaddr (mem s) d va"
proof -
  have e: "entry m d (PDX va) = entry (mem s) d (PDX va)" by (rule entry_cong [OF assms(4) PDX_bound])
  let ?t = "p2v (PTE_ADDR (entry (mem s) d (PDX va)))"
  have "entry m ?t (PTX va) = entry (mem s) ?t (PTX va)" if "entry (mem s) d (PDX va) AND PTE_P \<noteq> 0"
    using typedD(4) [OF assms(1,2) user_PDX [OF assms(3)] that] by (intro entry_cong assms(5) PTX_bound)
  then show ?thesis unfolding uaddr_entries e by auto
qed

text \<open>A process sees the same bytes when its pages are mapped to the same frames and the frames are the same.\<close>

lemma ubyte_same:
  assumes "typed R s" "R d = Dir" "va < KERNBASE" "uaddr m d va = uaddr (mem s) d va"
    "\<And>f. R f = Frm (PDX va) (PTX va) \<Longrightarrow> same_page (mem s) m f"
  shows "ubyte m d va = ubyte (mem s) d va"
proof (cases "uaddr (mem s) d va")
  case (Some x)
  from uaddr_typed [OF assms(1-3) Some] obtain f where "R f = Frm (PDX va) (PTX va)" "in_region f 4096 x" by metis
  then show ?thesis using assms(4,5) Some by (auto simp: ubyte_def same_page_def)
qed (use assms(4) in \<open>simp add: ubyte_def\<close>)

end
