(* ===== verification/Cow.thy ===== *)
theory Cow
  imports Process Paging
begin

text \<open>
  The copy-on-write fault handler: \<open>trapCOW\<close> gives the faulting process a page of its own with the same
  contents, and no other process can tell.  The theorem states under which conditions; what
  happens without them is proved as well.
\<close>

subsection \<open>The kernel reads and writes entries\<close>

lemma of_le32_bytes: "of_le32 [m a, m (a + 1), m (a + 2), m (a + 3)] = load32 m a"
  by (simp add: load32_def)

lemma entry_addr:
  assumes "page_ok s k" "unat w < 1024"
  shows "KERNBASE \<le> k + 4 * w" "KERNBASE \<le> k + 4 * w + 1" "KERNBASE \<le> k + 4 * w + 1 + 1" "KERNBASE \<le> k + 4 * w + 1 + 1 + 1"
proof -
  have "KERNBASE \<le> x" if "in_region (k + 4 * w) 4 x" for x
    using page_kernel [OF assms(1)] entry_in_page [OF assms(2) that] by blast
  then show "KERNBASE \<le> k + 4 * w" "KERNBASE \<le> k + 4 * w + 1" "KERNBASE \<le> k + 4 * w + 1 + 1" "KERNBASE \<le> k + 4 * w + 1 + 1 + 1"
    by (simp_all add: in_region_4 add.assoc)
qed

lemma kload32_entry:
  assumes "page_ok s k" "unat w < 1024"
  shows "kload32 (k + 4 * w) s = Inr (entry (mem s) k w)"
  using entry_addr [OF assms]
  by (simp add: kload32_def kbyte_def eval_nat_numeral entry_def load32_def add.assoc)

lemma kstore32_entry:
  assumes "page_ok s k" "unat w < 1024"
  shows "kstore32 (k + 4 * w) e s = Inr (poke (k + 4 * w) e s)"
  using entry_addr [OF assms]
  by (simp add: kstore32_def kstore_def le32_def poke_def store32_def add.assoc)

lemma wpgdir_present:
  assumes "entry (mem s) d (PDX va) AND PTE_P \<noteq> 0"
  shows "wpgdir d va b s = (p2v (PTE_ADDR (entry (mem s) d (PDX va))) + 4 * PTX va, s)"
  using assms by (simp add: wpgdir_def walkpgdir_def entry_def pde_at_def)

subsection \<open>Fresh copies of pages\<close>

lemma alloc_page:
  assumes "typed R s" "free_pages s \<noteq> {}"
  obtains k where "kalloc s = (k, s\<lparr>freelist := load32 (mem s) k\<rparr>)" "k \<in> free_pages s" "R k = Free" "k \<noteq> 0" "page_ok s k"
    "typed R (s\<lparr>freelist := load32 (mem s) k\<rparr>)" "free_pages (s\<lparr>freelist := load32 (mem s) k\<rparr>) = free_pages s - {k}"
proof -
  note D = typedD [OF assms(1)]
  from D(1) show thesis
  proof (cases rule: kalloc_cases)
    case (page k s')
    have pg: "page_ok s' = page_ok s" by (rule page_ok_cong) (simp add: page)
    have "mem s' = mem s" by (simp add: page)
    then have "typed R s'" unfolding typed_def pg page(8) using D page(7) by (auto simp: typed_def)
    then show thesis using that [of k] page D(3) by auto
  qed (use assms(2) in simp)
qed

definition copy_page :: "uint \<Rightarrow> uint \<Rightarrow> memory \<Rightarrow> memory" where
  "copy_page k src m = memmove k src PGSIZE (memset k 0 PGSIZE m)"

lemma page_below: "page_ok s k \<Longrightarrow> unat k + 4096 < 2 ^ 32"
  by (auto simp: page_ok_def v2p_def word_less_nat_alt unat_sub_if_size PHYSTOP_def KERNBASE_def word_size split: if_splits)

lemma copy_page_facts:
  assumes "page_ok s k" "page_ok s src" "k \<noteq> src"
  shows "k' mod PGSIZE = 0 \<Longrightarrow> k' \<noteq> k \<Longrightarrow> same_page m (copy_page k src m) k'"
    "unat y < 4096 \<Longrightarrow> copy_page k src m (k + y) = m (src + y)" "unat w < 1024 \<Longrightarrow> entry (copy_page k src m) k w = entry m src w"
proof -
  have al: "k mod PGSIZE = 0" "src mod PGSIZE = 0" using assms by (auto simp: page_ok_def)
  have n: "unat PGSIZE = 4096" by (simp add: PGSIZE_def)
  have "unat src + unat PGSIZE < 2 ^ 32" "unat k + unat PGSIZE \<le> 2 ^ 32" using page_below assms(1,2) by (force simp: n)+
  note mv = memmove_region [OF this]
  have cp: "copy_page k src m x = (if in_region k 4096 x then if in_region k 4096 (src + (x - k)) then 0 else m (src + (x - k)) else m x)" for x
    by (simp add: copy_page_def mv memset_region n)
  show "same_page m (copy_page k src m) k'" if "k' mod PGSIZE = 0" "k' \<noteq> k"
    using pages_disjoint [OF that(1) al(1) that(2)] by (auto simp: same_page_def cp)
  show byte: "copy_page k src m (k + y) = m (src + y)" if "unat y < 4096" for y
  proof -
    have "in_region src 4096 (src + y)" "in_region k 4096 (k + y)" using that by (simp_all add: in_region_def)
    then show ?thesis using pages_disjoint [OF al(2,1)] assms(3) by (simp add: cp)
  qed
  show "entry (copy_page k src m) k w = entry m src w" if "unat w < 1024"
  proof -
    have "copy_page k src m (k + 4 * w + of_nat i) = m (src + 4 * w + of_nat i)" if "i < 4" for i
    proof -
      have "unat (4 * w + of_nat i :: uint) < 4096" using \<open>unat w < 1024\<close> that
        by (simp add: unat_word_ariths unat_of_nat)
      from byte [OF this] show ?thesis by (simp add: add.assoc)
    qed
    from this [of 0] this [of 1] this [of 2] this [of 3] show ?thesis by (simp add: entry_def load32_def)
  qed
qed

text \<open>A page fresh from the allocator that has become a copy of page \<open>src\<close>.\<close>

lemma typed_copy:
  assumes "typed R s" "R k = Free" "k \<notin> free_pages s" "R src \<noteq> Other" "R src \<noteq> Free"
  defines "t \<equiv> s\<lparr>mem := copy_page k src (mem s)\<rparr>"
  shows "typed R t" "free_pages t = free_pages s" "k' \<noteq> k \<Longrightarrow> R k' \<noteq> Other \<Longrightarrow> same_page (mem s) (mem t) k'"
    "unat w < 1024 \<Longrightarrow> entry (mem t) k w = entry (mem s) src w" "unat y < 4096 \<Longrightarrow> mem t (k + y) = mem s (src + y)"
proof -
  have pg: "page_ok s k" "page_ok s src" "k \<noteq> src" using typedD(2) [OF assms(1)] assms(2,4,5) by auto
  note cp = copy_page_facts [OF pg]
  show same: "same_page (mem s) (mem t) k'" if "k' \<noteq> k" "R k' \<noteq> Other" for k'
    using cp(1) [OF typed_aligned [OF assms(1) that(2)] that(1)] by (simp add: t_def)
  have keep: "same_page (mem s) (mem t) k'" if "k' \<in> free_pages s \<or> R k' = Dir \<or> (\<exists>i. R k' = Tab i)" for k'
  proof (rule same)
    show "k' \<noteq> k" "R k' \<noteq> Other" using that assms(2,3) typedD(3) [OF assms(1), of k'] by auto
  qed
  have f: "freelist t = freelist s" "kend t = kend s" by (simp_all add: t_def)
  show "typed R t" "free_pages t = free_pages s" by (rule typed_mem [OF assms(1) f keep]; assumption)+
  show "unat w < 1024 \<Longrightarrow> entry (mem t) k w = entry (mem s) src w" "unat y < 4096 \<Longrightarrow> mem t (k + y) = mem s (src + y)"
    by (simp_all add: t_def cp)
qed

lemma copy_table_ok:
  assumes "typed R s" "R d = Dir" "va < KERNBASE" "entry (mem s) d (PDX va) AND PTE_P \<noteq> 0" "free_pages s \<noteq> {}"
  defines "tab \<equiv> p2v (PTE_ADDR (entry (mem s) d (PDX va)))"
  obtains u k where "copy_table d va s = Inr u" "R k = Free" "k \<in> free_pages s" "typed (R(k := Tab (PDX va))) u" "free_pages u = free_pages s - {k}"
    "u = s\<lparr>mem := mem u, freelist := freelist u\<rparr>" "entry (mem u) d (PDX va) = user_rw k"
    "\<forall>w. unat w < 1024 \<longrightarrow> w \<noteq> PDX va \<longrightarrow> entry (mem u) d w = entry (mem s) d w"
    "\<forall>w. unat w < 1024 \<longrightarrow> entry (mem u) k w = entry (mem s) tab w"
    "\<forall>k'. k' \<noteq> k \<longrightarrow> k' \<noteq> d \<longrightarrow> R k' \<noteq> Other \<longrightarrow> same_page (mem s) (mem u) k'"
proof -
  obtain k where k: "kalloc s = (k, s\<lparr>freelist := load32 (mem s) k\<rparr>)" "k \<in> free_pages s" "R k = Free" "k \<noteq> 0" "page_ok s k"
    "typed R (s\<lparr>freelist := load32 (mem s) k\<rparr>)" "free_pages (s\<lparr>freelist := load32 (mem s) k\<rparr>) = free_pages s - {k}"
    by (rule alloc_page [OF assms(1,5)])
  let ?i = "PDX va" and ?s1 = "s\<lparr>freelist := load32 (mem s) k\<rparr>" and ?R = "R(k := Tab (PDX va))"
  have i: "unat ?i < 512" by (rule user_PDX [OF assms(3)])
  have tab: "R tab = Tab ?i" unfolding tab_def by (rule typedD(4) [OF assms(1,2) i assms(4)])
  define s2 where "s2 = ?s1\<lparr>mem := copy_page k tab (mem s)\<rparr>"
  have notin: "k \<notin> free_pages ?s1" using k(7) by simp
  have ro: "R tab \<noteq> Other" "R tab \<noteq> Free" using tab by simp_all
  have "?s1\<lparr>mem := copy_page k tab (mem s)\<rparr> = s2" "mem ?s1 = mem s" by (simp_all add: s2_def)
  note c = typed_copy [OF k(6,3) notin ro, unfolded this]
  have nf: "k \<notin> free_pages s2" using c(2) notin by simp
  have t2: "typed ?R s2"
  proof (rule typed_role [OF c(1) k(3) nf])
    fix i j assume a: "Tab ?i = Tab i" "unat j < 1024" "entry (mem s2) k j AND PTE_P \<noteq> 0"
    then have "entry (mem s2) k j = entry (mem s) tab j" using c(4) by simp
    then show "R (p2v (PTE_ADDR (entry (mem s2) k j))) = Frm i j" using typedD(5) [OF assms(1) tab a(2)] a by simp
  qed simp
  have kd: "k \<noteq> d" using k(3) assms(2) by auto
  have al: "k mod PGSIZE = 0" using k(5) by (simp add: page_ok_def)
  define u where "u = poke (d + 4 * ?i) (user_rw k) s2"
  have st: "(?R d = Dir \<and> unat ?i < 1024 \<and> (unat ?i < 512 \<longrightarrow> user_rw k AND PTE_P \<noteq> 0 \<longrightarrow> ?R (p2v (PTE_ADDR (user_rw k))) = Tab ?i)) \<or>
     (\<exists>i. ?R d = Tab i \<and> unat ?i < 1024 \<and> (user_rw k AND PTE_P \<noteq> 0 \<longrightarrow> ?R (p2v (PTE_ADDR (user_rw k))) = Frm i ?i))"
    using kd assms(2) PDX_bound al by simp
  note s = typed_store [OF t2 st, folded u_def]
  have run: "copy_table d va s = Inr u"
    using assms(4) k(1,4) by (simp add: copy_table_def u_def s2_def copy_page_def user_rw_def tab_def entry_def pde_at_def Let_def)
  show thesis
  proof (rule that [of u k])
    show "typed ?R u" by (rule s(1))
    show "u = s\<lparr>mem := mem u, freelist := freelist u\<rparr>" by (simp add: u_def s2_def poke_def)
    show "\<forall>w. unat w < 1024 \<longrightarrow> w \<noteq> ?i \<longrightarrow> entry (mem u) d w = entry (mem s) d w"
      using s(4) entry_cong [OF c(3) [of d]] kd assms(2) by simp
    have "same_page (mem s2) (mem u) k" using s(3) [of k] kd by simp
    then show "\<forall>w. unat w < 1024 \<longrightarrow> entry (mem u) k w = entry (mem s) tab w"
      using entry_cong c(4) by metis
    show "\<forall>k'. k' \<noteq> k \<longrightarrow> k' \<noteq> d \<longrightarrow> R k' \<noteq> Other \<longrightarrow> same_page (mem s) (mem u) k'"
      using s(3) c(3) same_page_trans by (metis fun_upd_other)
  qed (use run k s c(2) PDX_bound in simp_all)
qed

lemma copy_frame_ok:
  assumes "typed R s" "R d = Dir" "va < KERNBASE" "cur_pgdir s = d" "uaddr (mem s) d va \<noteq> None" "free_pages s \<noteq> {}"
  defines "tab \<equiv> p2v (PTE_ADDR (entry (mem s) d (PDX va)))"
  defines "fr \<equiv> p2v (PTE_ADDR (entry (mem s) tab (PTX va)))"
  obtains u k where "copy_frame who d va s = Inr u" "R k = Free" "k \<in> free_pages s" "typed (R(k := Frm (PDX va) (PTX va))) u"
    "free_pages u = free_pages s - {k}" "u = s\<lparr>mem := mem u, freelist := freelist u\<rparr>" "entry (mem u) tab (PTX va) = user_rw k"
    "\<forall>w. unat w < 1024 \<longrightarrow> w \<noteq> PTX va \<longrightarrow> entry (mem u) tab w = entry (mem s) tab w"
    "\<forall>y. unat y < 4096 \<longrightarrow> mem u (k + y) = mem s (fr + y)"
    "\<forall>k'. k' \<noteq> k \<longrightarrow> k' \<noteq> tab \<longrightarrow> R k' \<noteq> Other \<longrightarrow> same_page (mem s) (mem u) k'"
proof -
  obtain k where k: "kalloc s = (k, s\<lparr>freelist := load32 (mem s) k\<rparr>)" "k \<in> free_pages s" "R k = Free" "k \<noteq> 0" "page_ok s k"
    "typed R (s\<lparr>freelist := load32 (mem s) k\<rparr>)" "free_pages (s\<lparr>freelist := load32 (mem s) k\<rparr>) = free_pages s - {k}"
    by (rule alloc_page [OF assms(1,6)])
  let ?s1 = "s\<lparr>freelist := load32 (mem s) k\<rparr>" and ?R = "R(k := Frm (PDX va) (PTX va))"
  obtain x where "uaddr (mem s) d va = Some x" using assms(5) by blast
  then obtain t f where tf: "R t = Tab (PDX va)" "R f = Frm (PDX va) (PTX va)" "t = tab" "f = fr"
    "entry (mem s) d (PDX va) AND PTE_P \<noteq> 0" "entry (mem s) tab (PTX va) AND PTE_P \<noteq> 0"
    by (rule uaddr_typed [OF assms(1-3)]) (auto simp: tab_def fr_def)
  have rt: "R tab = Tab (PDX va)" and rf: "R fr = Frm (PDX va) (PTX va)" using tf by simp_all
  define s2 where "s2 = ?s1\<lparr>mem := copy_page k fr (mem s)\<rparr>"
  have notin: "k \<notin> free_pages ?s1" using k(7) by simp
  have ro: "R fr \<noteq> Other" "R fr \<noteq> Free" using rf by simp_all
  have "?s1\<lparr>mem := copy_page k fr (mem s)\<rparr> = s2" "mem ?s1 = mem s" by (simp_all add: s2_def)
  note c = typed_copy [OF k(6,3) notin ro, unfolded this]
  have nf: "k \<notin> free_pages s2" using c(2) notin by simp
  have t2: "typed ?R s2" by (rule typed_role [OF c(1) k(3) nf]) simp_all
  have kt: "k \<noteq> tab" "k \<noteq> d" using k(3) rt assms(2) by auto
  have al: "k mod PGSIZE = 0" using k(5) by (simp add: page_ok_def)
  define u where "u = poke (tab + 4 * PTX va) (user_rw k) s2"
  have st: "(?R tab = Dir \<and> unat (PTX va) < 1024 \<and> (unat (PTX va) < 512 \<longrightarrow> user_rw k AND PTE_P \<noteq> 0 \<longrightarrow> ?R (p2v (PTE_ADDR (user_rw k))) = Tab (PTX va))) \<or>
     (\<exists>i. ?R tab = Tab i \<and> unat (PTX va) < 1024 \<and> (user_rw k AND PTE_P \<noteq> 0 \<longrightarrow> ?R (p2v (PTE_ADDR (user_rw k))) = Frm i (PTX va)))"
    using kt rt PTX_bound al by simp
  note s = typed_store [OF t2 st, folded u_def]
  have zero: "same_page (mem s) (memset k 0 PGSIZE (mem s)) k'" if "k' \<noteq> k" "R k' \<noteq> Other" for k'
    using pages_disjoint [OF typed_aligned [OF assms(1) that(2)] al that(1)] by (auto simp: same_page_def memset_region PGSIZE_def)
  have va': "PGROUNDDOWN va < KERNBASE" using PGROUNDDOWN_parts(4) assms(3) by (rule le_less_trans)
  have "uaddr (memset k 0 PGSIZE (mem s)) d (PGROUNDDOWN va) = uaddr (mem s) d (PGROUNDDOWN va)"
    by (rule uaddr_same [OF assms(1,2) va' zero zero]) (use kt k(3) assms(2) in auto)
  also have "\<dots> = Some fr" using tf(5,6) by (simp add: uaddr_entries PGROUNDDOWN_parts tab_def fr_def)
  finally have page: "user_page va (?s1\<lparr>mem := memset k 0 PGSIZE (mem s)\<rparr>) = Inr fr"
    using assms(4) by (simp add: user_page_def cur_pgdir_def cong: option.case_cong)
  have pg: "page_ok s2 tab" using typedD(2) [OF c(1)] rt by simp
  have e2: "entry (mem s2) d (PDX va) = entry (mem s) d (PDX va)" by (rule entry_cong [OF c(3)]) (use kt assms(2) PDX_bound in simp_all)
  have "kstore32 (fst (wpgdir d (PGROUNDDOWN va) False s2)) (user_rw k) s2 = Inr u"
    using wpgdir_present [of s2 d "PGROUNDDOWN va" False] e2 tf(5) kstore32_entry [OF pg PTX_bound]
    by (simp add: PGROUNDDOWN_parts tab_def u_def)
  then have run: "copy_frame who d va s = Inr u"
    using k(1,4) page by (simp add: copy_frame_def s2_def copy_page_def user_rw_def Let_def)
  show thesis
  proof (rule that [of u k])
    show "typed ?R u" by (rule s(1))
    show "u = s\<lparr>mem := mem u, freelist := freelist u\<rparr>" by (simp add: u_def s2_def poke_def)
    show "\<forall>w. unat w < 1024 \<longrightarrow> w \<noteq> PTX va \<longrightarrow> entry (mem u) tab w = entry (mem s) tab w"
      using s(4) entry_cong [OF c(3) [of tab]] kt rt by simp
    show "\<forall>y. unat y < 4096 \<longrightarrow> mem u (k + y) = mem s (fr + y)"
      using s(3) [of k] kt c(5) by (auto simp: same_page_def in_region_def)
    show "\<forall>k'. k' \<noteq> k \<longrightarrow> k' \<noteq> tab \<longrightarrow> R k' \<noteq> Other \<longrightarrow> same_page (mem s) (mem u) k'"
      using s(3) c(3) same_page_trans by (metis fun_upd_other)
  qed (use run k s c(2) PTX_bound in simp_all)
qed

subsection \<open>What the steps change for the processes\<close>

text \<open>Every directory maps the same addresses to the same places, with the same contents.\<close>

definition same_view :: "(uint \<Rightarrow> role) \<Rightarrow> memory \<Rightarrow> memory \<Rightarrow> bool" where
  "same_view R m m' \<longleftrightarrow>
     (\<forall>d v. R d = Dir \<longrightarrow> v < KERNBASE \<longrightarrow> uaddr m' d v = uaddr m d v \<and> ubyte m' d v = ubyte m d v)"

lemma same_viewI:
  assumes "typed R s" "\<And>d v. R d = Dir \<Longrightarrow> v < KERNBASE \<Longrightarrow> uaddr m d v = uaddr (mem s) d v"
    "\<And>i j f. R f = Frm i j \<Longrightarrow> same_page (mem s) m f"
  shows "same_view R (mem s) m"
  unfolding same_view_def using assms by (auto intro!: ubyte_same [OF assms(1)])

lemma copy_table_view:
  assumes "typed R s" "R d = Dir" "va < KERNBASE" "entry (mem s) d (PDX va) AND PTE_P \<noteq> 0" "R k = Free" "k mod PGSIZE = 0"
    "entry (mem u) d (PDX va) = user_rw k" "\<forall>w. unat w < 1024 \<longrightarrow> w \<noteq> PDX va \<longrightarrow> entry (mem u) d w = entry (mem s) d w"
    "\<forall>w. unat w < 1024 \<longrightarrow> entry (mem u) k w = entry (mem s) (p2v (PTE_ADDR (entry (mem s) d (PDX va)))) w"
    "\<forall>k'. k' \<noteq> k \<longrightarrow> k' \<noteq> d \<longrightarrow> R k' \<noteq> Other \<longrightarrow> same_page (mem s) (mem u) k'"
  shows "same_view R (mem s) (mem u)"
proof (rule same_viewI [OF assms(1)])
  have other: "same_page (mem s) (mem u) k'" if "k' \<noteq> d" "R k' \<noteq> Free" "R k' \<noteq> Other" for k'
    using assms(5,10) that by metis
  show "same_page (mem s) (mem u) f" if "R f = Frm i j" for i j f
    using that assms(2) by (intro other) auto
  fix d' v assume d': "R d' = Dir" "v < KERNBASE"
  have tab: "same_page (mem s) (mem u) t" if "R t = Tab i" for t i using that assms(2) by (intro other) auto
  show "uaddr (mem u) d' v = uaddr (mem s) d' v"
  proof (cases "d' = d")
    case False
    then show ?thesis using d' by (intro uaddr_same [OF assms(1)] other tab) auto
  next
    case True
    let ?t = "p2v (PTE_ADDR (entry (mem s) d (PDX v)))"
    show ?thesis
    proof (cases "PDX v = PDX va")
      case True
      then show ?thesis unfolding \<open>d' = d\<close> uaddr_entries using assms(4,6,7,9) PTX_bound by simp
    next
      case False
      have "entry (mem u) ?t (PTX v) = entry (mem s) ?t (PTX v)" if "entry (mem s) d (PDX v) AND PTE_P \<noteq> 0"
        using typedD(4) [OF assms(1,2) user_PDX [OF d'(2)] that] tab by (intro entry_cong PTX_bound) blast
      then show ?thesis unfolding \<open>d' = d\<close> uaddr_entries using assms(8) PDX_bound False by auto
    qed
  qed
qed

lemma setptew_ok:
  assumes "typed R s" "R d = Dir" "va < KERNBASE" "entry (mem s) d (PDX va) AND PTE_P \<noteq> 0"
  defines "tab \<equiv> p2v (PTE_ADDR (entry (mem s) d (PDX va)))"
  obtains u where "setptew d (PGROUNDDOWN va) s = Inr u" "u = poke (tab + 4 * PTX va) (entry (mem s) tab (PTX va) OR PTE_W) s"
    "typed R u" "same_view R (mem s) (mem u)" "entry (mem u) tab (PTX va) = entry (mem s) tab (PTX va) OR PTE_W"
    "entry (mem u) d (PDX va) = entry (mem s) d (PDX va)" "free_pages u = free_pages s"
proof -
  let ?e = "entry (mem s) tab (PTX va) OR PTE_W"
  define u where "u = poke (tab + 4 * PTX va) ?e s"
  have rt: "R tab = Tab (PDX va)" unfolding tab_def by (rule typedD(4) [OF assms(1,2) user_PDX [OF assms(3)] assms(4)])
  have "(R tab = Dir \<and> unat (PTX va) < 1024 \<and> (unat (PTX va) < 512 \<longrightarrow> ?e AND PTE_P \<noteq> 0 \<longrightarrow> R (p2v (PTE_ADDR ?e)) = Tab (PTX va))) \<or>
     (\<exists>i. R tab = Tab i \<and> unat (PTX va) < 1024 \<and> (?e AND PTE_P \<noteq> 0 \<longrightarrow> R (p2v (PTE_ADDR ?e)) = Frm i (PTX va)))"
    using rt typedD(5) [OF assms(1) rt PTX_bound] PTX_bound by simp
  note s = typed_store [OF assms(1) this, folded u_def]
  have pg: "page_ok s tab" using typedD(2) [OF assms(1)] rt by simp
  have nz: "tab + 4 * PTX va \<noteq> 0"
  proof
    assume "tab + 4 * PTX va = 0"
    then show False using entry_addr(1) [OF pg PTX_bound, of va] by (simp add: KERNBASE_def)
  qed
  have "walkpgdir d (PGROUNDDOWN va) False s = (tab + 4 * PTX va, s)"
    using wpgdir_present [of s d "PGROUNDDOWN va" False] assms(4) by (simp add: wpgdir_def PGROUNDDOWN_parts tab_def)
  then have run: "setptew d (PGROUNDDOWN va) s = Inr u" using nz by (simp add: setptew_def u_def entry_def)
  have same: "same_page (mem s) (mem u) k" if "k \<noteq> tab" "R k \<noteq> Other" for k using s(3) [of k] that by blast
  have ent: "PTE_ADDR (entry (mem u) t j) = PTE_ADDR (entry (mem s) t j) \<and>
      (entry (mem u) t j AND PTE_P \<noteq> 0 \<longleftrightarrow> entry (mem s) t j AND PTE_P \<noteq> 0)" if "R t = Tab i" "unat j < 1024" for t i j
  proof (cases "t = tab")
    case True
    then show ?thesis using s(4) [OF that(2)] by auto
  qed (use entry_cong [OF same [of t] that(2)] that(1) in simp)
  have dir: "entry (mem u) d' j = entry (mem s) d' j" if "R d' = Dir" "unat j < 1024" for d' j
    using that rt by (intro entry_cong same) auto
  have "same_view R (mem s) (mem u)"
  proof (rule same_viewI [OF assms(1)])
    show "same_page (mem s) (mem u) f" if "R f = Frm i j" for i j f using that rt by (intro same) auto
    fix d' v assume d': "R d' = Dir" "v < KERNBASE"
    let ?t = "p2v (PTE_ADDR (entry (mem s) d' (PDX v)))"
    have "R ?t = Tab (PDX v)" if "entry (mem s) d' (PDX v) AND PTE_P \<noteq> 0"
      by (rule typedD(4) [OF assms(1) d'(1) user_PDX [OF d'(2)] that])
    then show "uaddr (mem u) d' v = uaddr (mem s) d' v"
      unfolding uaddr_entries dir [OF d'(1) PDX_bound] using ent [of ?t, OF _ PTX_bound] by auto
  qed
  then show thesis using that [of u] run s u_def dir [OF assms(2)] PDX_bound PTX_bound by simp
qed

lemma copy_frame_view:
  assumes "typed R s" "R d = Dir" "va < KERNBASE" "uaddr (mem s) d va \<noteq> None" "R k = Free" "k mod PGSIZE = 0"
  defines "tab \<equiv> p2v (PTE_ADDR (entry (mem s) d (PDX va)))"
  defines "fr \<equiv> p2v (PTE_ADDR (entry (mem s) tab (PTX va)))"
  assumes "entry (mem u) tab (PTX va) = user_rw k"
    "\<forall>w. unat w < 1024 \<longrightarrow> w \<noteq> PTX va \<longrightarrow> entry (mem u) tab w = entry (mem s) tab w"
    "\<forall>y. unat y < 4096 \<longrightarrow> mem u (k + y) = mem s (fr + y)"
    "\<forall>k'. k' \<noteq> k \<longrightarrow> k' \<noteq> tab \<longrightarrow> R k' \<noteq> Other \<longrightarrow> same_page (mem s) (mem u) k'"
  shows "R d' = Dir \<Longrightarrow> v < KERNBASE \<Longrightarrow>
      entry (mem s) d' (PDX v) AND PTE_P = 0 \<or> p2v (PTE_ADDR (entry (mem s) d' (PDX v))) \<noteq> tab \<or> PTX v \<noteq> PTX va \<Longrightarrow>
      uaddr (mem u) d' v = uaddr (mem s) d' v \<and> ubyte (mem u) d' v = ubyte (mem s) d' v"
    "v < KERNBASE \<Longrightarrow> ubyte (mem u) d v = ubyte (mem s) d v" "uaddr (mem u) d va = Some (k + (va AND 0xFFF))"
proof -
  obtain x where "uaddr (mem s) d va = Some x" using assms(4) by blast
  then obtain t where "R t = Tab (PDX va)" "t = tab" and pre: "entry (mem s) d (PDX va) AND PTE_P \<noteq> 0" "entry (mem s) tab (PTX va) AND PTE_P \<noteq> 0"
    by (rule uaddr_typed [OF assms(1-3)]) (auto simp: tab_def)
  then have rt: "R tab = Tab (PDX va)" by simp
  have same: "same_page (mem s) (mem u) k'" if "R k' \<noteq> Free" "k' \<noteq> tab" "R k' \<noteq> Other" for k' using assms(5,12) that by metis
  have dir: "entry (mem u) d' j = entry (mem s) d' j" if "R d' = Dir" "unat j < 1024" for d' j
    using that rt by (intro entry_cong same) auto
  show u: "uaddr (mem u) d' v = uaddr (mem s) d' v \<and> ubyte (mem u) d' v = ubyte (mem s) d' v"
    if d': "R d' = Dir" "v < KERNBASE" and ne: "entry (mem s) d' (PDX v) AND PTE_P = 0 \<or> p2v (PTE_ADDR (entry (mem s) d' (PDX v))) \<noteq> tab \<or> PTX v \<noteq> PTX va" for d' v
  proof -
    let ?t = "p2v (PTE_ADDR (entry (mem s) d' (PDX v)))"
    have "entry (mem u) ?t (PTX v) = entry (mem s) ?t (PTX v)" if p: "entry (mem s) d' (PDX v) AND PTE_P \<noteq> 0"
    proof (cases "?t = tab")
      case True
      then show ?thesis using ne p assms(10) PTX_bound [of v] by simp
    next
      case False
      have "R ?t = Tab (PDX v)" by (rule typedD(4) [OF assms(1) d'(1) user_PDX [OF d'(2)] p])
      then show ?thesis using False by (intro entry_cong same PTX_bound) auto
    qed
    then have ua: "uaddr (mem u) d' v = uaddr (mem s) d' v" unfolding uaddr_entries dir [OF d'(1) PDX_bound] by auto
    have "ubyte (mem u) d' v = ubyte (mem s) d' v" by (rule ubyte_same [OF assms(1) d' ua same]) (use rt in auto)
    then show ?thesis using ua by simp
  qed
  have ua: "uaddr (mem u) d v = Some (k + (v AND 0xFFF))" if "PDX v = PDX va" "PTX v = PTX va" for v
    unfolding uaddr_entries dir [OF assms(2) PDX_bound] that tab_def [symmetric] assms(9) using pre(1) assms(6) by simp
  then show "uaddr (mem u) d va = Some (k + (va AND 0xFFF))" by simp
  show "ubyte (mem u) d v = ubyte (mem s) d v" if "v < KERNBASE"
  proof (cases "entry (mem s) d (PDX v) AND PTE_P = 0 \<or> p2v (PTE_ADDR (entry (mem s) d (PDX v))) \<noteq> tab \<or> PTX v \<noteq> PTX va")
    case True
    then show ?thesis using u [OF assms(2) that] by simp
  next
    case False
    then have "R tab = Tab (PDX v)" using typedD(4) [OF assms(1,2) user_PDX [OF that]] by auto
    then have eq: "PDX v = PDX va" "PTX v = PTX va" using rt False by auto
    have "uaddr (mem s) d v = Some (fr + (v AND 0xFFF))"
      unfolding uaddr_entries eq tab_def [symmetric] fr_def [symmetric] using pre by simp
    then show ?thesis using ua [OF eq] assms(11) offset_bound [of v] by (simp add: ubyte_def)
  qed
qed

subsection \<open>Who shares\<close>

definition others :: "'z kern_scheme \<Rightarrow> nat \<Rightarrow> nat set" where
  "others s c = {p. p < NPROC \<and> pid (ptable s p) \<noteq> 0 \<and> state (ptable s p) \<noteq> ZOMBIE \<and> p \<noteq> c}"

definition pde_of :: "'z kern_scheme \<Rightarrow> nat \<Rightarrow> uint \<Rightarrow> uint" where
  "pde_of s p va = entry (mem s) (pgdir (ptable s p)) (PDX va)"

definition pte_of :: "'z kern_scheme \<Rightarrow> nat \<Rightarrow> uint \<Rightarrow> uint" where
  "pte_of s p va = entry (mem s) (p2v (PTE_ADDR (pde_of s p va))) (PTX va)"

text \<open>The loads that \<open>isshared\<close> does for a process with a page table at \<open>va\<close>.\<close>

lemma shared_loads:
  assumes "typed R s" "va < KERNBASE" "R (pgdir (ptable s q)) = Dir" "pde_of s q va AND PTE_P \<noteq> 0"
  shows "kload32 (pde_at (pgdir (ptable s q)) va) s = Inr (pde_of s q va)"
    "kload32 (fst (wpgdir (pgdir (ptable s q)) va False s)) s = Inr (pte_of s q va)"
proof -
  have "page_ok s (pgdir (ptable s q))" using typedD(2) [OF assms(1)] assms(3) by simp
  from kload32_entry [OF this PDX_bound] show "kload32 (pde_at (pgdir (ptable s q)) va) s = Inr (pde_of s q va)"
    by (simp add: pde_at_def pde_of_def)
  have "R (p2v (PTE_ADDR (pde_of s q va))) = Tab (PDX va)"
    using typedD(4) [OF assms(1,3) user_PDX [OF assms(2)]] assms(4) by (simp add: pde_of_def)
  then have "page_ok s (p2v (PTE_ADDR (pde_of s q va)))" using typedD(2) [OF assms(1)] by simp
  from kload32_entry [OF this PTX_bound] show "kload32 (fst (wpgdir (pgdir (ptable s q)) va False s)) s = Inr (pte_of s q va)"
    using wpgdir_present [of s "pgdir (ptable s q)" va False] assms(4) by (simp add: pde_of_def pte_of_def)
qed

text \<open>The conditions under which \<open>isshared\<close> sees every process: all have a directory of their own with a page table at \<open>va\<close>, and no free slot precedes one in use.\<close>

definition visible :: "(uint \<Rightarrow> role) \<Rightarrow> 'z kern_scheme \<Rightarrow> nat \<Rightarrow> uint \<Rightarrow> bool" where
  "visible R s c va \<longleftrightarrow> va < KERNBASE \<and>
     (\<forall>p \<in> insert c (others s c). R (pgdir (ptable s p)) = Dir \<and> pde_of s p va AND PTE_P \<noteq> 0) \<and>
     (\<forall>p \<in> others s c. pgdir (ptable s p) \<noteq> pgdir (ptable s c) \<and> (\<forall>q < p. pid (ptable s q) \<noteq> 0))"

definition first_sharer :: "'z kern_scheme \<Rightarrow> nat \<Rightarrow> uint \<Rightarrow> nat list \<Rightarrow> nat option" where
  "first_sharer s c va ps =
     List.find (\<lambda>p. p \<in> others s c \<and> (pde_of s p va = pde_of s c va \<or> pte_of s p va = pte_of s c va)) ps"

lemma isshared_loop_eq:
  assumes "typed R s" "visible R s c va" "sorted_wrt (<) ps" "set ps \<subseteq> {..<NPROC}"
  shows "isshared_loop va c ps s =
    Inr (case first_sharer s c va ps of None \<Rightarrow> NOTHING | Some p \<Rightarrow> if pde_of s p va = pde_of s c va then TABLE else FRAME)"
  using assms(3,4)
proof (induction ps)
  case (Cons p ps)
  have V: "va < KERNBASE" using assms(2) by (simp add: visible_def)
  have ld: "kload32 (pde_at (pgdir (ptable s q)) va) s = Inr (pde_of s q va)"
    "kload32 (fst (wpgdir (pgdir (ptable s q)) va False s)) s = Inr (pte_of s q va)" if "q \<in> insert c (others s c)" for q
    by (rule shared_loads [OF assms(1) V]; use that assms(2) in \<open>force simp: visible_def\<close>)+
  show ?case
  proof (cases "pid (ptable s p) = 0")
    case True
    have "q \<notin> others s c" if "q \<in> set (p # ps)" for q
      using that True Cons.prems(1) assms(2) by (auto simp: visible_def others_def)
    then have "first_sharer s c va (p # ps) = None" by (auto simp: first_sharer_def find_None_iff)
    then show ?thesis using True by (simp add: Let_def)
  next
    case False
    have IH: "isshared_loop va c ps s =
        Inr (case first_sharer s c va ps of None \<Rightarrow> NOTHING | Some p \<Rightarrow> if pde_of s p va = pde_of s c va then TABLE else FRAME)"
      using Cons by simp
    show ?thesis
    proof (cases "p \<in> others s c")
      case True
      then have "pgdir (ptable s c) \<noteq> pgdir (ptable s p)" using assms(2) by (auto simp: visible_def)
      with True False show ?thesis
        using ld [of p] ld [of c] IH by (simp add: first_sharer_def Let_def others_def)
    next
      case notin: False
      then have "state (ptable s p) = ZOMBIE \<or> p = c" using False Cons.prems(2) by (auto simp: others_def)
      then show ?thesis using False notin IH by (simp add: first_sharer_def Let_def)
    qed
  qed
qed (simp add: first_sharer_def)

subsection \<open>The fault handler\<close>

text \<open>
  Copying the frame when the page table is the process's own: the other directories \<open>Ds\<close> are not affected.
\<close>

lemma uwritable_entries:
  "uwritable m d va \<longleftrightarrow> (let e = entry m d (PDX va); f = entry m (p2v (PTE_ADDR e)) (PTX va)
     in e AND PTE_P \<noteq> 0 \<and> f AND PTE_P \<noteq> 0 \<and> e AND PTE_W \<noteq> 0 \<and> f AND PTE_W \<noteq> 0)"
  by (simp add: uwritable_def entry_def pde_at_def Let_def)

lemma private_copy:
  assumes "typed R s" "R d = Dir" "va < KERNBASE" "cur_pgdir s = d" "uaddr (mem s) d va \<noteq> None" "free_pages s \<noteq> {}"
    "\<And>d'. d' \<in> Ds \<Longrightarrow> R d' = Dir \<and> p2v (PTE_ADDR (entry (mem s) d' (PDX va))) \<noteq> p2v (PTE_ADDR (entry (mem s) d (PDX va)))"
  obtains u k where "ebind (copy_frame who d va s) (setptew d (PGROUNDDOWN va)) = Inr u" "R k = Free" "k mod PGSIZE = 0"
    "typed (R(k := Frm (PDX va) (PTX va))) u" "\<And>v. v < KERNBASE \<Longrightarrow> ubyte (mem u) d v = ubyte (mem s) d v"
    "\<And>d' v. d' \<in> Ds \<Longrightarrow> v < KERNBASE \<Longrightarrow> uaddr (mem u) d' v = uaddr (mem s) d' v \<and> ubyte (mem u) d' v = ubyte (mem s) d' v"
    "uaddr (mem u) d va = Some (k + (va AND 0xFFF))" "entry (mem s) d (PDX va) AND PTE_W \<noteq> 0 \<Longrightarrow> uwritable (mem u) d va"
proof -
  let ?tab = "p2v (PTE_ADDR (entry (mem s) d (PDX va)))"
  obtain u k where u: "copy_frame who d va s = Inr u" "R k = Free" "k \<in> free_pages s" "typed (R(k := Frm (PDX va) (PTX va))) u"
    "free_pages u = free_pages s - {k}" "u = s\<lparr>mem := mem u, freelist := freelist u\<rparr>" "entry (mem u) ?tab (PTX va) = user_rw k"
    "\<forall>w. unat w < 1024 \<longrightarrow> w \<noteq> PTX va \<longrightarrow> entry (mem u) ?tab w = entry (mem s) ?tab w"
    "\<forall>y. unat y < 4096 \<longrightarrow> mem u (k + y) = mem s (p2v (PTE_ADDR (entry (mem s) ?tab (PTX va))) + y)"
    "\<forall>k'. k' \<noteq> k \<longrightarrow> k' \<noteq> ?tab \<longrightarrow> R k' \<noteq> Other \<longrightarrow> same_page (mem s) (mem u) k'"
    by (rule copy_frame_ok [OF assms(1-6)], rule that)
  have al: "k mod PGSIZE = 0" using typed_aligned [OF assms(1), of k] u(2) by simp
  note v = copy_frame_view [OF assms(1-3,5) u(2) al u(7-10)]
  let ?R = "R(k := Frm (PDX va) (PTX va))"
  have keep: "?R d' = Dir" if "R d' = Dir" for d' using that u(2) by auto
  have pd: "entry (mem u) d (PDX va) AND PTE_P \<noteq> 0" using v(3) by (auto simp: uaddr_entries split: if_splits)
  have rt: "R ?tab = Tab (PDX va)"
    using assms(5) by (intro typedD(4) [OF assms(1,2) user_PDX [OF assms(3)]]) (auto simp: uaddr_entries)
  have ed: "entry (mem u) d (PDX va) = entry (mem s) d (PDX va)"
    by (rule entry_cong [OF u(10) [rule_format] PDX_bound]) (use u(2) assms(2) rt in auto)
  obtain w where w: "setptew d (PGROUNDDOWN va) u = Inr w" "typed ?R w" "same_view ?R (mem u) (mem w)"
    "entry (mem w) ?tab (PTX va) = entry (mem u) ?tab (PTX va) OR PTE_W" "entry (mem w) d (PDX va) = entry (mem s) d (PDX va)"
    using setptew_ok [OF u(4) keep [OF assms(2)] assms(3) pd] ed by metis
  have priv: "uaddr (mem w) d' v' = uaddr (mem s) d' v' \<and> ubyte (mem w) d' v' = ubyte (mem s) d' v'" if "d' \<in> Ds" "v' < KERNBASE" for d' v'
  proof -
    have d': "R d' = Dir" using assms(7) that by blast
    have "entry (mem s) d' (PDX v') AND PTE_P = 0 \<or> p2v (PTE_ADDR (entry (mem s) d' (PDX v'))) \<noteq> ?tab \<or> PTX v' \<noteq> PTX va"
      using typedD(4) [OF assms(1) d' user_PDX [OF that(2)]] rt assms(7) [OF that(1)] by fastforce
    from v(1) [OF d' that(2) this] show ?thesis using w(3) keep [OF d'] that(2) by (simp add: same_view_def)
  qed
  have "uwritable (mem w) d va" if "entry (mem s) d (PDX va) AND PTE_W \<noteq> 0"
    using that w(4,5) u(7) pd ed by (simp add: uwritable_entries Let_def)
  then show thesis
    using u(1,2) w al priv v(2,3) keep [OF assms(2)] assms(3) by (intro that [of w k]) (simp_all add: same_view_def)
qed

text \<open>
  Sharing as \<open>isshared\<close> assumes it: entries that point to the same table or frame are equal as words, and a
  process that shares only the frame is not found before one that shares the whole table.
\<close>

definition consistent :: "'z kern_scheme \<Rightarrow> nat \<Rightarrow> uint \<Rightarrow> bool" where
  "consistent s c va \<longleftrightarrow>
     (\<forall>p \<in> others s c. (PTE_ADDR (pde_of s p va) = PTE_ADDR (pde_of s c va) \<longrightarrow> pde_of s p va = pde_of s c va) \<and>
        (pte_of s p va AND PTE_P \<noteq> 0 \<longrightarrow> PTE_ADDR (pte_of s p va) = PTE_ADDR (pte_of s c va) \<longrightarrow> pte_of s p va = pte_of s c va)) \<and>
     (\<forall>p \<in> others s c. \<forall>q \<in> others s c. p < q \<longrightarrow> pde_of s q va = pde_of s c va \<longrightarrow> pte_of s p va = pte_of s c va \<longrightarrow>
        pde_of s p va = pde_of s c va)"

lemma p2v_inj [simp]: "p2v a = p2v b \<longleftrightarrow> a = b"
  by (simp add: p2v_def)

lemma page_of:
  assumes "f mod PGSIZE = 0" "in_region f 4096 x"
  shows "PGROUNDDOWN x = f"
proof -
  have "unat f mod 4096 = 0" using assms(1) by (simp only: aligned_unat)
  then have "unat f div 4096 * 4096 = unat f" using div_mult_mod_eq [of "unat f" 4096] by linarith
  then show ?thesis using assms by (simp add: in_page word_unat_eq_iff unat_PGROUNDDOWN)
qed

lemma first_sharer_NoneD:
  assumes "first_sharer s c va [0..<NPROC] = None" "p \<in> others s c"
  shows "pde_of s p va \<noteq> pde_of s c va" "pte_of s p va \<noteq> pte_of s c va"
  using assms by (auto simp: first_sharer_def find_None_iff others_def)

lemma first_sharer_FRAME:
  assumes "first_sharer s c va [0..<NPROC] = Some p0" "pde_of s p0 va \<noteq> pde_of s c va" "consistent s c va" "q \<in> others s c"
  shows "pde_of s q va \<noteq> pde_of s c va"
proof
  assume q: "pde_of s q va = pde_of s c va"
  obtain i where i: "i < length [0..<NPROC]" "p0 = [0..<NPROC] ! i" "p0 \<in> others s c"
    "pde_of s p0 va = pde_of s c va \<or> pte_of s p0 va = pte_of s c va"
    "\<forall>j < i. \<not> ([0..<NPROC] ! j \<in> others s c \<and> (pde_of s ([0..<NPROC] ! j) va = pde_of s c va \<or> pte_of s ([0..<NPROC] ! j) va = pte_of s c va))"
    using assms(1) unfolding first_sharer_def find_Some_iff by blast
  have "q < NPROC" using assms(4) by (simp add: others_def)
  then have "\<not> q < p0" using i(1,2,5) q assms(4) by auto
  then have "p0 < q" using q assms(2) by (metis linorder_neqE_nat)
  then show False using assms(2,3,4) i(3,4) q unfolding consistent_def by blast
qed

text \<open>What the handler has to achieve for process \<open>c\<close> and page \<open>va\<close>.\<close>

definition cow_done :: "'z kern_scheme \<Rightarrow> 'z kern_scheme \<Rightarrow> nat \<Rightarrow> uint \<Rightarrow> bool" where
  "cow_done s t c va \<longleftrightarrow>
     (let d = pgdir (ptable s c) in
      (\<forall>v < KERNBASE. ubyte (mem t) d v = ubyte (mem s) d v) \<and>
      (\<forall>p \<in> others s c. \<forall>v < KERNBASE.
         uaddr (mem t) (pgdir (ptable s p)) v = uaddr (mem s) (pgdir (ptable s p)) v \<and>
         ubyte (mem t) (pgdir (ptable s p)) v = ubyte (mem s) (pgdir (ptable s p)) v) \<and>
      (\<exists>y. uaddr (mem t) d va = Some y \<and>
         (\<forall>p \<in> others s c. \<forall>v < KERNBASE. \<forall>x. uaddr (mem t) (pgdir (ptable s p)) v = Some x \<longrightarrow> PGROUNDDOWN x \<noteq> PGROUNDDOWN y)) \<and>
      (pde_of s c va AND PTE_W \<noteq> 0 \<longrightarrow> uwritable (mem t) d va))"

text \<open>A fresh frame is private.\<close>

lemma cow_done_fresh:
  assumes "typed R s" "visible R s c va" "R k = Free" "k mod PGSIZE = 0"
    "\<And>v. v < KERNBASE \<Longrightarrow> ubyte (mem t) (pgdir (ptable s c)) v = ubyte (mem s) (pgdir (ptable s c)) v"
    "\<And>p v. p \<in> others s c \<Longrightarrow> v < KERNBASE \<Longrightarrow> uaddr (mem t) (pgdir (ptable s p)) v = uaddr (mem s) (pgdir (ptable s p)) v \<and>
       ubyte (mem t) (pgdir (ptable s p)) v = ubyte (mem s) (pgdir (ptable s p)) v"
    "uaddr (mem t) (pgdir (ptable s c)) va = Some (k + (va AND 0xFFF))"
    "pde_of s c va AND PTE_W \<noteq> 0 \<Longrightarrow> uwritable (mem t) (pgdir (ptable s c)) va"
  shows "cow_done s t c va"
proof -
  have "in_region k 4096 (k + (va AND 0xFFF))" using offset_bound by (simp add: in_region_def)
  then have k: "PGROUNDDOWN (k + (va AND 0xFFF)) = k" by (rule page_of [OF assms(4)])
  have "PGROUNDDOWN x \<noteq> k" if a: "p \<in> others s c" "v < KERNBASE" "uaddr (mem t) (pgdir (ptable s p)) v = Some x" for p v x
  proof -
    have "R (pgdir (ptable s p)) = Dir" using assms(2) a(1) by (simp add: visible_def)
    then obtain f where "R f = Frm (PDX v) (PTX v)" "in_region f 4096 x"
      using uaddr_typed [OF assms(1) _ a(2)] assms(6) [OF a(1,2)] a(3) by metis
    then show ?thesis using page_of [OF typed_aligned [OF assms(1), of f]] assms(3) by auto
  qed
  then show ?thesis unfolding cow_done_def Let_def using assms(5-8) k by auto
qed

lemma cow_done_own:
  assumes "typed R s" "visible R s c va" "consistent s c va" "first_sharer s c va [0..<NPROC] = None"
    "uaddr (mem s) (pgdir (ptable s c)) va \<noteq> None" "same_view R (mem s) (mem t)"
    "pde_of s c va AND PTE_W \<noteq> 0 \<Longrightarrow> uwritable (mem t) (pgdir (ptable s c)) va"
  shows "cow_done s t c va"
proof -
  let ?d = "\<lambda>p. pgdir (ptable s p)"
  have dir: "R (?d p) = Dir" if "p \<in> insert c (others s c)" for p using assms(2) that by (auto simp: visible_def)
  have V: "va < KERNBASE" using assms(2) by (simp add: visible_def)
  obtain y where y: "uaddr (mem s) (?d c) va = Some y" using assms(5) by blast
  obtain tab f where f: "R tab = Tab (PDX va)" "R f = Frm (PDX va) (PTX va)" "tab = p2v (PTE_ADDR (entry (mem s) (?d c) (PDX va)))"
    "f = p2v (PTE_ADDR (entry (mem s) tab (PTX va)))" "in_region f 4096 y"
    using uaddr_typed [OF assms(1) dir V y] by blast
  have "PGROUNDDOWN x \<noteq> PGROUNDDOWN y" if p: "p \<in> others s c" and v: "v < KERNBASE" "uaddr (mem s) (?d p) v = Some x" for p v x
  proof
    assume eq: "PGROUNDDOWN x = PGROUNDDOWN y"
    have dp: "R (?d p) = Dir" using dir p by simp
    obtain tab' f' where f': "R f' = Frm (PDX v) (PTX v)" "tab' = p2v (PTE_ADDR (entry (mem s) (?d p) (PDX v)))"
      "f' = p2v (PTE_ADDR (entry (mem s) tab' (PTX v)))" "in_region f' 4096 x" "entry (mem s) tab' (PTX v) AND PTE_P \<noteq> 0"
      using uaddr_typed [OF assms(1) dp v] by metis
    have "f' = f" using page_of [OF typed_aligned [OF assms(1)]] f(2,5) f'(1,4) eq by (metis role.distinct(19))
    then have "PDX v = PDX va" "PTX v = PTX va" using f(2) f'(1) by simp_all
    then have "PTE_ADDR (pte_of s p va) = PTE_ADDR (pte_of s c va)" "pte_of s p va AND PTE_P \<noteq> 0"
      using \<open>f' = f\<close> f(3,4) f'(2,3,5) by (simp_all add: pte_of_def pde_of_def)
    then show False using assms(3) p first_sharer_NoneD(2) [OF assms(4) p] by (auto simp: consistent_def)
  qed
  then show ?thesis
    unfolding cow_done_def Let_def using assms(6,7) dir y V by (auto simp: same_view_def)
qed

lemma visibleD:
  assumes "visible R s c va"
  shows "va < KERNBASE" "p \<in> insert c (others s c) \<Longrightarrow> R (pgdir (ptable s p)) = Dir \<and> pde_of s p va AND PTE_P \<noteq> 0"
    "p \<in> others s c \<Longrightarrow> pgdir (ptable s p) \<noteq> pgdir (ptable s c)"
  using assms unfolding visible_def by blast+

lemma cow_own:
  assumes "typed R s" "visible R s c va" "consistent s c va" "first_sharer s c va [0..<NPROC] = None"
    "uaddr (mem s) (pgdir (ptable s c)) va \<noteq> None"
  obtains t where "setptew (pgdir (ptable s c)) (PGROUNDDOWN va) s = Inr t" "typed R t" "cow_done s t c va"
proof -
  define d where "d = pgdir (ptable s c)"
  let ?tab = "p2v (PTE_ADDR (entry (mem s) d (PDX va)))"
  have dc: "R d = Dir" "entry (mem s) d (PDX va) AND PTE_P \<noteq> 0" using visibleD(2) [OF assms(2), of c] by (simp_all add: d_def pde_of_def)
  obtain t where t: "setptew d (PGROUNDDOWN va) s = Inr t" "typed R t" "same_view R (mem s) (mem t)"
    "entry (mem t) ?tab (PTX va) = entry (mem s) ?tab (PTX va) OR PTE_W" "entry (mem t) d (PDX va) = entry (mem s) d (PDX va)"
    using setptew_ok [OF assms(1) dc(1) visibleD(1) [OF assms(2)] dc(2)] by metis
  have "uwritable (mem t) d va" if "pde_of s c va AND PTE_W \<noteq> 0"
    using that assms(5) t(4,5) dc(2) by (auto simp: uwritable_entries Let_def uaddr_entries pde_of_def d_def split: if_splits)
  then have "cow_done s t c va" using cow_done_own [OF assms(1-5) t(3)] by (simp add: d_def)
  then show thesis using that t(1,2) by (simp add: d_def)
qed

lemma cow_frame:
  assumes "typed R s" "visible R s c va" "cur_pgdir s = pgdir (ptable s c)" "uaddr (mem s) (pgdir (ptable s c)) va \<noteq> None" "free_pages s \<noteq> {}"
    "\<And>p. p \<in> others s c \<Longrightarrow> PTE_ADDR (pde_of s p va) \<noteq> PTE_ADDR (pde_of s c va)"
  obtains t R' where "ebind (copy_frame who (pgdir (ptable s c)) va s) (setptew (pgdir (ptable s c)) (PGROUNDDOWN va)) = Inr t"
    "typed R' t" "extends R R'" "cow_done s t c va"
proof -
  define d where "d = pgdir (ptable s c)"
  let ?Ds = "(\<lambda>p. pgdir (ptable s p)) ` others s c"
  note V = visibleD [OF assms(2)]
  have dc: "R d = Dir" using V(2) [of c] by (simp add: d_def)
  have cd: "cur_pgdir s = d" and au: "uaddr (mem s) d va \<noteq> None" using assms(3,4) by (simp_all add: d_def)
  have priv: "R d' = Dir \<and> p2v (PTE_ADDR (entry (mem s) d' (PDX va))) \<noteq> p2v (PTE_ADDR (entry (mem s) d (PDX va)))" if "d' \<in> ?Ds" for d'
    using that V(2) assms(6) by (auto simp: pde_of_def d_def)
  obtain t k where t: "ebind (copy_frame who d va s) (setptew d (PGROUNDDOWN va)) = Inr t" "R k = Free" "k mod PGSIZE = 0"
    "typed (R(k := Frm (PDX va) (PTX va))) t" "\<And>v. v < KERNBASE \<Longrightarrow> ubyte (mem t) d v = ubyte (mem s) d v"
    "\<And>d' v. d' \<in> ?Ds \<Longrightarrow> v < KERNBASE \<Longrightarrow> uaddr (mem t) d' v = uaddr (mem s) d' v \<and> ubyte (mem t) d' v = ubyte (mem s) d' v"
    "uaddr (mem t) d va = Some (k + (va AND 0xFFF))" "entry (mem s) d (PDX va) AND PTE_W \<noteq> 0 \<Longrightarrow> uwritable (mem t) d va"
    by (rule private_copy [where Ds = ?Ds and who = who, OF assms(1) dc V(1) cd au assms(5) priv], assumption, rule that)
  have "cow_done s t c va"
    by (rule cow_done_fresh [OF assms(1,2) t(2,3)]) (use t(5-8) in \<open>simp_all add: d_def pde_of_def\<close>)
  then show thesis using that t(1,4) extends_new [of R, OF t(2)] by (simp add: d_def)
qed

text \<open>Copying the table first is invisible, and then the table is private.\<close>

lemma cow_table:
  assumes "typed R s" "visible R s c va" "curproc s = Some c" "uaddr (mem s) (pgdir (ptable s c)) va \<noteq> None" "2 \<le> card (free_pages s)"
  obtains u t R' where "copy_table (pgdir (ptable s c)) va s = Inr u" "typed R' t" "extends R R'" "cow_done s t c va"
    "ebind (copy_frame who (pgdir (ptable s c)) va u) (setptew (pgdir (ptable s c)) (PGROUNDDOWN va)) = Inr t"
proof -
  define d where "d = pgdir (ptable s c)"
  note V = visibleD [OF assms(2)]
  have dc: "R d = Dir" "entry (mem s) d (PDX va) AND PTE_P \<noteq> 0" using V(2) [of c] by (simp_all add: d_def pde_of_def)
  have fp: "free_pages s \<noteq> {}" "free_pages s - {k} \<noteq> {}" for k
    using assms(5) card_mono [of "{k}" "free_pages s"] by auto
  obtain u k where u: "copy_table d va s = Inr u" "R k = Free" "typed (R(k := Tab (PDX va))) u" "free_pages u = free_pages s - {k}"
    "u = s\<lparr>mem := mem u, freelist := freelist u\<rparr>" "entry (mem u) d (PDX va) = user_rw k"
    "\<forall>w. unat w < 1024 \<longrightarrow> w \<noteq> PDX va \<longrightarrow> entry (mem u) d w = entry (mem s) d w"
    "\<forall>w. unat w < 1024 \<longrightarrow> entry (mem u) k w = entry (mem s) (p2v (PTE_ADDR (entry (mem s) d (PDX va)))) w"
    "\<forall>k'. k' \<noteq> k \<longrightarrow> k' \<noteq> d \<longrightarrow> R k' \<noteq> Other \<longrightarrow> same_page (mem s) (mem u) k'"
    by (rule copy_table_ok [OF assms(1) dc(1) V(1) dc(2) fp(1)], rule that)
  have al: "k mod PGSIZE = 0" using typed_aligned [OF assms(1), of k] u(2) by simp
  have sv: "same_view R (mem s) (mem u)" by (rule copy_table_view [OF assms(1) dc(1) V(1) dc(2) u(2) al u(6-9)])
  let ?R = "R(k := Tab (PDX va))"
  have pu: "ptable u = ptable s" "curproc u = Some c" using assms(3) by (subst u(5), simp)+
  have ou: "others u c = others s c" by (simp add: others_def pu)
  have pd: "pde_of u p va = pde_of s p va \<and> R (p2v (PTE_ADDR (pde_of s p va))) = Tab (PDX va)" if "p \<in> others s c" for p
  proof -
    have r: "R (pgdir (ptable s p)) = Dir" "pgdir (ptable s p) \<noteq> d" "pgdir (ptable s p) \<noteq> k" "pde_of s p va AND PTE_P \<noteq> 0"
      using that V(2,3) u(2) by (force simp: d_def)+
    have "entry (mem u) (pgdir (ptable s p)) (PDX va) = entry (mem s) (pgdir (ptable s p)) (PDX va)"
      by (rule entry_cong [OF _ PDX_bound]) (use u(9) r in simp)
    then show ?thesis using typedD(4) [OF assms(1) r(1) user_PDX [OF V(1)]] r(4) by (simp add: pde_of_def pu)
  qed
  have vu: "visible ?R u c va"
    unfolding visible_def ou
  proof (intro conjI ballI)
    fix p assume p: "p \<in> insert c (others s c)"
    then show "?R (pgdir (ptable u p)) = Dir" using V(2) u(2) by (force simp: pu)
    show "pde_of u p va AND PTE_P \<noteq> 0" using p V(2) [OF p] pd u(6) by (auto simp: pde_of_def pu d_def)
  qed (use assms(2) in \<open>auto simp: pu visible_def\<close>)
  have "uaddr (mem u) (pgdir (ptable u c)) va \<noteq> None" using sv assms(4) dc(1) V(1) by (simp add: same_view_def pu d_def)
  moreover have "PTE_ADDR (pde_of u p va) \<noteq> PTE_ADDR (pde_of u c va)" if "p \<in> others u c" for p
  proof
    assume "PTE_ADDR (pde_of u p va) = PTE_ADDR (pde_of u c va)"
    then have "p2v (PTE_ADDR (pde_of s p va)) = k" using that pd [of p] u(6) al by (simp add: ou pde_of_def pu d_def)
    then show False using that pd [of p] u(2) by (simp add: ou)
  qed
  moreover have "cur_pgdir u = pgdir (ptable u c)" by (simp add: cur_pgdir_def pu)
  ultimately obtain t R' where t: "ebind (copy_frame who d va u) (setptew d (PGROUNDDOWN va)) = Inr t" "typed R' t" "extends ?R R'" "cow_done u t c va"
    using cow_frame [OF u(3) vu] fp(2) u(4) by (metis d_def pu(1))
  have "cow_done s t c va"
    using t(4) sv V(1,2) u(6) unfolding cow_done_def Let_def ou pu same_view_def
    by (auto simp: pde_of_def pu d_def)
  then show thesis using that u(1) t(1,2) extends_trans [OF extends_new [of R, OF u(2)] t(3)] by (simp add: d_def)
qed


subsection \<open>A concrete state\<close>

text \<open>
  Two processes in slots 0 and \<open>q\<close> with one page each, mapped read-only to the same frame; \<open>e\<close> is the
  directory entry of the first.  Slot 0 has faulted at address 0.
\<close>

definition cow_mem :: "uint \<Rightarrow> memory" where
  "cow_mem e = store32 (store32 (store32 (store32 (store32 (\<lambda>_. 0) 0x80200000 e) 0x80201000 0x203007) 0x80202000 0x204005)
     0x80203000 0x204005) 0x80205000 0x80206000"

definition cow_state :: "nat \<Rightarrow> uint \<Rightarrow> kern" where
  "cow_state q e = boot_kern\<lparr>mem := cow_mem e, freelist := 0x80205000, curproc := Some 0,
     ptable := (\<lambda>_. zero_proc)(0 := zero_proc\<lparr>pid := 5, state := RUNNING, pgdir := 0x80200000\<rparr>,
       q := zero_proc\<lparr>pid := 6, state := RUNNABLE, pgdir := 0x80201000\<rparr>)\<rparr>"

definition cow_roles :: "uint \<Rightarrow> role" where
  "cow_roles = (\<lambda>_. Other)(0x80200000 := Dir, 0x80201000 := Dir, 0x80202000 := Tab 0, 0x80203000 := Tab 0,
     0x80204000 := Frm 0 0, 0x80205000 := Free, 0x80206000 := Free)"

lemma entry_store_first:
  assumes "k mod PGSIZE = 0" "k' mod PGSIZE = 0" "unat w < 1024"
  shows "entry (store32 m k e) k' w = (if k' = k \<and> w = 0 then e else entry m k' w)"
proof (cases "k' = k")
  case True
  then show ?thesis using entry_store [of 0 w m k e] assms(3) by simp
next
  case False
  then show ?thesis using entry_cong [OF store_same_page [of k k' 0 m e] assms(3)] assms by auto
qed

lemma entry_zero: "entry (\<lambda>_. 0) k w = 0"
  by (simp add: entry_def load32_def of_le32_def)

lemma cow_entry:
  assumes "k mod PGSIZE = 0" "unat w < 1024"
  shows "entry (cow_mem e) k w =
    (if w \<noteq> 0 then 0 else if k = 0x80200000 then e else if k = 0x80201000 then 0x203007
     else if k = 0x80202000 \<or> k = 0x80203000 then 0x204005 else if k = 0x80205000 then 0x80206000 else 0)"
  unfolding cow_mem_def
  by (simp add: entry_store_first assms entry_zero PGSIZE_def assms(1) [unfolded PGSIZE_def])

lemma cow_roles_cases:
  "cow_roles k = Dir \<longleftrightarrow> k = 0x80200000 \<or> k = 0x80201000" "cow_roles k = Tab i \<longleftrightarrow> i = 0 \<and> (k = 0x80202000 \<or> k = 0x80203000)"
  "cow_roles k \<noteq> Other \<longleftrightarrow> k \<in> {0x80200000, 0x80201000, 0x80202000, 0x80203000, 0x80204000, 0x80205000, 0x80206000}"
  by (auto simp: cow_roles_def)

lemma cow_entries:
  "unat w < 1024 \<Longrightarrow> entry (cow_mem e) 0x80200000 w = (if w = 0 then e else 0)"
  "unat w < 1024 \<Longrightarrow> entry (cow_mem e) 0x80201000 w = (if w = 0 then 0x203007 else 0)"
  "unat w < 1024 \<Longrightarrow> entry (cow_mem e) 0x80202000 w = (if w = 0 then 0x204005 else 0)"
  "unat w < 1024 \<Longrightarrow> entry (cow_mem e) 0x80203000 w = (if w = 0 then 0x204005 else 0)"
  by (simp_all add: cow_entry PGSIZE_def)

lemma cow_typed:
  assumes "e AND PTE_P \<noteq> 0" "PTE_ADDR e = 0x202000"
  shows "typed cow_roles (cow_state q e)" "free_pages (cow_state q e) = {0x80205000, 0x80206000}"
proof -
  have "load32 (cow_mem e) 0x80205000 = 0x80206000" "load32 (cow_mem e) 0x80206000 = 0"
    using cow_entry [of "0x80205000" 0 e] cow_entry [of "0x80206000" 0 e] by (simp_all add: entry_def PGSIZE_def)
  then have inv: "kmem_inv [0x80205000, 0x80206000] (cow_state q e)"
    by (simp add: kmem_inv_def cow_state_def boot_kern_def page_ok_def PGSIZE_def v2p_def KERNBASE_def PHYSTOP_def)
  then show f: "free_pages (cow_state q e) = {0x80205000, 0x80206000}" by (simp add: free_pages_inv)
  have m: "mem (cow_state q e) = cow_mem e" by (simp add: cow_state_def)
  have p: "p2v 0x202000 = 0x80202000" "p2v 0x203000 = 0x80203000" "p2v 0x204000 = 0x80204000" by (simp_all add: p2v_def KERNBASE_def)
  have a: "PTE_ADDR 0x203007 = 0x203000" "PTE_ADDR 0x204005 = 0x204000" by (simp_all add: PTE_ADDR_eq PGROUNDDOWN_div)
  show "typed cow_roles (cow_state q e)"
    unfolding typed_def f m
  proof (intro conjI allI impI ballI)
    show "kmem_ok (cow_state q e)" using inv by (auto simp: kmem_ok_def)
    show "page_ok (cow_state q e) k" if "cow_roles k \<noteq> Other" for k
      using that unfolding cow_roles_cases
      by (auto simp: page_ok_def cow_state_def boot_kern_def PGSIZE_def v2p_def KERNBASE_def PHYSTOP_def)
    show "cow_roles k = Free" if "k \<in> {0x80205000, 0x80206000}" for k using that by (auto simp: cow_roles_def)
    fix d i assume d: "cow_roles d = Dir" "unat i < 512" "entry (cow_mem e) d i AND PTE_P \<noteq> 0"
    then show "cow_roles (p2v (PTE_ADDR (entry (cow_mem e) d i))) = Tab i"
      using assms cow_entries(1,2) [of i e] unfolding cow_roles_cases(1) by (auto simp: a p cow_roles_def split: if_splits)
  next
    fix d i j assume d: "cow_roles d = Tab i" "unat j < 1024" "entry (cow_mem e) d j AND PTE_P \<noteq> 0"
    then show "cow_roles (p2v (PTE_ADDR (entry (cow_mem e) d j))) = Frm i j"
      using cow_entries(3,4) [of j e] unfolding cow_roles_cases(2) by (auto simp: a p cow_roles_def split: if_splits)
  qed
qed

lemma cow_state_facts:
  assumes "e AND PTE_P \<noteq> 0" "PTE_ADDR e = 0x202000" "0 < q" "q < NPROC"
  shows "curproc (cow_state q e) = Some 0" "cr2 (hw (cow_state q e)) = 0" "others (cow_state q e) 0 = {q}"
    "pgdir (ptable (cow_state q e) 0) = 0x80200000" "pgdir (ptable (cow_state q e) q) = 0x80201000"
    "pde_of (cow_state q e) 0 0 = e" "pde_of (cow_state q e) q 0 = 0x203007"
    "pte_of (cow_state q e) 0 0 = 0x204005" "pte_of (cow_state q e) q 0 = 0x204005"
    "uaddr (mem (cow_state q e)) 0x80200000 0 = Some 0x80204000"
    "pid (ptable (cow_state q e) p) = (if p = 0 then 5 else if p = q then 6 else 0)"
proof -
  show f: "curproc (cow_state q e) = Some 0" "cr2 (hw (cow_state q e)) = 0" "others (cow_state q e) 0 = {q}"
    "pgdir (ptable (cow_state q e) 0) = 0x80200000" "pgdir (ptable (cow_state q e) q) = 0x80201000"
    "pid (ptable (cow_state q e) p) = (if p = 0 then 5 else if p = q then 6 else 0)"
    using assms(3,4) by (auto simp: cow_state_def others_def boot_kern_def zero_proc_def)
  have m: "mem (cow_state q e) = cow_mem e" by (simp add: cow_state_def)
  have z: "PDX 0 = 0" "PTX 0 = 0" by (simp_all add: PDX_def PTX_def)
  have p: "p2v 0x202000 = 0x80202000" "p2v 0x203000 = 0x80203000" "p2v 0x204000 = 0x80204000" by (simp_all add: p2v_def KERNBASE_def)
  have a: "PTE_ADDR 0x203007 = 0x203000" "PTE_ADDR 0x204005 = 0x204000" by (simp_all add: PTE_ADDR_eq PGROUNDDOWN_div)
  have b: "0x204005 AND PTE_P \<noteq> 0" by (simp add: PTE_P_def)
  show pd: "pde_of (cow_state q e) 0 0 = e" "pde_of (cow_state q e) q 0 = 0x203007"
    by (simp_all add: pde_of_def f m z cow_entries)
  show "pte_of (cow_state q e) 0 0 = 0x204005" "pte_of (cow_state q e) q 0 = 0x204005"
    by (simp_all add: pte_of_def pd assms(2) a p m z cow_entries)
  show "uaddr (mem (cow_state q e)) 0x80200000 0 = Some 0x80204000"
    using assms(1) b by (simp add: uaddr_entries m z cow_entries assms(2) a p)
qed


end
