(* ===== verification/CowLimits.thy ===== *)
theory CowLimits
  imports Cow
begin

text \<open>
  Where copy-on-write fails: a free slot in the process table hides a process that shares the page, and a
  process of more than 4 MB loops in its first write fault after \<open>fork\<close>.
\<close>

subsection \<open>A free slot hides the sharer\<close>

text \<open>Process \<open>p\<close> is one that \<open>isshared\<close> passes over.\<close>

definition passed :: "(uint \<Rightarrow> role) \<Rightarrow> 'z kern_scheme \<Rightarrow> nat \<Rightarrow> uint \<Rightarrow> nat \<Rightarrow> bool" where
  "passed R s c va p \<longleftrightarrow> p = c \<or> state (ptable s p) = ZOMBIE \<or>
     R (pgdir (ptable s p)) = Dir \<and> pgdir (ptable s p) \<noteq> pgdir (ptable s c) \<and> pde_of s p va AND PTE_P \<noteq> 0 \<and>
     pde_of s p va \<noteq> pde_of s c va \<and> pte_of s p va \<noteq> pte_of s c va"

lemma isshared_loop_stops:
  assumes "typed R s" "va < KERNBASE" "R (pgdir (ptable s c)) = Dir" "pde_of s c va AND PTE_P \<noteq> 0"
    "\<forall>p \<in> set ps. passed R s c va p" "pid (ptable s h) = 0"
  shows "isshared_loop va c (ps @ h # qs) s = Inr NOTHING"
  using assms(5)
proof (induction ps)
  case (Cons p ps)
  have IH: "isshared_loop va c (ps @ h # qs) s = Inr NOTHING" using Cons by simp
  consider "p = c \<or> state (ptable s p) = ZOMBIE" | "R (pgdir (ptable s p)) = Dir" "pgdir (ptable s p) \<noteq> pgdir (ptable s c)"
    "pde_of s p va AND PTE_P \<noteq> 0" "pde_of s p va \<noteq> pde_of s c va" "pte_of s p va \<noteq> pte_of s c va"
    using Cons.prems by (auto simp: passed_def)
  then show ?case
  proof cases
    case 2
    then show ?thesis
      using shared_loads [OF assms(1,2) 2(1,3)] shared_loads [OF assms(1-4)] IH by (auto simp: Let_def)
  qed (use IH in \<open>auto simp: Let_def\<close>)
qed (use assms(6) in \<open>simp add: Let_def\<close>)

text \<open>
  C27 (error).  A free slot breaks the isolation.  When the process table has a free slot \<open>h\<close> before the slot of a process
  \<open>q\<close> that shares the faulting page, and no process before \<open>h\<close> shares it, the handler takes the page for
  unshared: it only sets the write permission.  Afterwards the faulting process may write, and its
  writes go to the very frame that \<open>q\<close> has at that address.  Slots become free whenever \<open>wait\<close> collects a child.
\<close>

theorem cow_hole_shares:
  fixes s :: "'z kern_scheme"
  defines "va \<equiv> cr2 (hw s)"
  assumes "typed R s" "curproc s = Some c" "va < KERNBASE" "h < NPROC" "pid (ptable s h) = 0" "\<forall>p < h. passed R s c va p"
    "R (pgdir (ptable s c)) = Dir" "uaddr (mem s) (pgdir (ptable s c)) va = Some x" "pde_of s c va AND PTE_W \<noteq> 0"
    and "q \<in> others s c" "h < q" "R (pgdir (ptable s q)) = Dir" "uaddr (mem s) (pgdir (ptable s q)) va = Some x"
  shows "\<exists>t. trapCOW s = Inr t \<and> uwritable (mem t) (pgdir (ptable s c)) va \<and>
     uaddr (mem t) (pgdir (ptable s c)) va = Some x \<and> uaddr (mem t) (pgdir (ptable s q)) va = Some x"
proof -
  define d where "d = pgdir (ptable s c)"
  let ?tab = "p2v (PTE_ADDR (entry (mem s) d (PDX va)))"
  have p: "entry (mem s) d (PDX va) AND PTE_P \<noteq> 0" "entry (mem s) ?tab (PTX va) AND PTE_P \<noteq> 0"
    using assms(9) by (auto simp: uaddr_entries d_def split: if_splits)
  have "[0..<NPROC] = [0..<h] @ h # [Suc h..<NPROC]" 
    using upt_add_eq_append [of 0 h "NPROC - h"] upt_conv_Cons [OF assms(5)] assms(5) by simp
  then have sh: "isshared va s = Inr NOTHING"
    using isshared_loop_stops [OF assms(2,4,8), of "[0..<h]" h "[Suc h..<NPROC]"] assms(3,6,7) p(1)
    by (simp add: isshared_def pde_of_def d_def)
  have rd: "R d = Dir" using assms(8) by (simp add: d_def)
  obtain t where t: "setptew d (PGROUNDDOWN va) s = Inr t" "same_view R (mem s) (mem t)"
    "entry (mem t) ?tab (PTX va) = entry (mem s) ?tab (PTX va) OR PTE_W" "entry (mem t) d (PDX va) = entry (mem s) d (PDX va)"
    using setptew_ok [OF assms(2) rd assms(4) p(1)] by metis
  have "trapCOW s = Inr t"
    using sh t(1) assms(3) by (simp add: trapCOW_def copypage_def cur_pgdir_def d_def va_def Let_def)
  moreover have "uwritable (mem t) d va" using p t(3,4) assms(10) by (simp add: uwritable_entries Let_def pde_of_def d_def)
  ultimately show ?thesis using t(2) rd assms(4,9,13,14) by (auto simp: same_view_def d_def)
qed

theorem cow_hole_shares_witness:
  "pid (ptable (cow_state 2 0x202007) 1) = 0 \<and> 2 \<in> others (cow_state 2 0x202007) 0 \<and>
   (\<exists>t. trapCOW (cow_state 2 0x202007) = Inr t \<and> uwritable (mem t) 0x80200000 0 \<and>
     uaddr (mem t) 0x80200000 0 = Some 0x80204000 \<and> uaddr (mem t) 0x80201000 0 = Some 0x80204000)"
proof -
  let ?s = "cow_state 2 0x202007"
  have e: "0x202007 AND PTE_P \<noteq> 0" "PTE_ADDR 0x202007 = 0x202000" "0x202007 AND PTE_W \<noteq> 0"
    by (simp_all add: PTE_P_def PTE_W_def PTE_ADDR_eq PGROUNDDOWN_div)
  have q: "0 < (2 :: nat)" "2 < NPROC" by (simp_all add: NPROC_def)
  note f = cow_state_facts [OF e(1,2) q] and ty = cow_typed [OF e(1,2), of 2]
  have u: "uaddr (mem ?s) 0x80201000 0 = Some 0x80204000"
    using f(7,9) by (simp add: uaddr_entries pde_of_def pte_of_def f(5) PDX_def PTX_def PTE_P_def PTE_ADDR_eq PGROUNDDOWN_div p2v_def KERNBASE_def)
  have ps: "\<forall>p < 1. passed cow_roles ?s 0 (cr2 (hw ?s)) p" by (simp add: passed_def)
  have "\<exists>t. trapCOW ?s = Inr t \<and> uwritable (mem t) (pgdir (ptable ?s 0)) (cr2 (hw ?s)) \<and>
     uaddr (mem t) (pgdir (ptable ?s 0)) (cr2 (hw ?s)) = Some 0x80204000 \<and> uaddr (mem t) (pgdir (ptable ?s 2)) (cr2 (hw ?s)) = Some 0x80204000"
    by (rule cow_hole_shares [OF ty(1) f(1) _ _ _ ps, of _ 2])
       (use f u e in \<open>simp_all add: KERNBASE_def NPROC_def cow_roles_def\<close>)
  then show ?thesis using f by simp
qed

subsection \<open>A directory entry without write permission\<close>

lemma store32_load32: "store32 m a (load32 m a) = m"
proof -
  have "le32 (of_le32 [m a, m (a + 1), m (a + 2), m (a + 3)]) = [m a, m (a + 1), m (a + 2), m (a + 3)]"
    by (rule le32_of_le32) simp
  then show ?thesis by (auto simp: store32_def load32_def fun_eq_iff)
qed

lemma poke_same: "poke (k + 4 * w) (entry (mem s) k w) s = s"
  by (simp add: poke_def entry_def store32_load32)

lemma or_W_twice: "(e OR PTE_W) OR PTE_W = e OR (PTE_W :: uint)"
  by (simp add: or.assoc)

text \<open>Setting the permission in an own table leaves everything that \<open>isshared\<close> looks at in the others as it was.\<close>

lemma setptew_others:
  assumes "typed R s" "visible R s c va" "consistent s c va" "first_sharer s c va [0..<NPROC] = None"
    "t = poke (p2v (PTE_ADDR (pde_of s c va)) + 4 * PTX va) (pte_of s c va OR PTE_W) s"
    "pte_of s c va AND PTE_P \<noteq> 0"
  shows "visible R t c va" "first_sharer t c va [0..<NPROC] = None" "pde_of t c va = pde_of s c va" "pte_of t c va = pte_of s c va OR PTE_W"
proof -
  note V = visibleD [OF assms(2)]
  let ?tab = "p2v (PTE_ADDR (pde_of s c va))"
  have rt: "R (p2v (PTE_ADDR (pde_of s p va))) = Tab (PDX va)" if "p \<in> insert c (others s c)" for p
    using typedD(4) [OF assms(1) _ user_PDX [OF V(1)]] V(2) [OF that] by (simp add: pde_of_def)
  have same: "same_page (mem s) (mem t) k" if "k \<noteq> ?tab" "R k \<noteq> Other" for k
    using typed_apart [OF assms(1), of ?tab k "PTX va"] rt [of c] that PTX_bound by (simp add: assms(5) poke_def)
  have pt: "ptable t = ptable s" by (simp add: assms(5) poke_def)
  have ot: "others t c = others s c" by (simp add: others_def pt)
  have pd: "pde_of t p va = pde_of s p va" if "p \<in> insert c (others s c)" for p
    unfolding pde_of_def pt using V(2) [OF that] rt [of c] by (intro entry_cong [OF same PDX_bound]) auto
  then show "pde_of t c va = pde_of s c va" by simp
  show pc: "pte_of t c va = pte_of s c va OR PTE_W"
    using entry_store [where v = "PTX va" and w = "PTX va" and m = "mem s" and k = ?tab] PTX_bound pd [of c] by (simp add: pte_of_def assms(5) poke_def)
  have pp: "pte_of t p va = pte_of s p va" if p: "p \<in> others s c" for p
  proof -
    have "p2v (PTE_ADDR (pde_of s p va)) \<noteq> ?tab"
      using first_sharer_NoneD(1) [OF assms(4) p] assms(3) p by (auto simp: consistent_def)
    then show ?thesis unfolding pte_of_def using pd [of p] p rt [of p] by (auto intro: entry_cong [OF same PTX_bound])
  qed
  show "visible R t c va" using assms(2) pd unfolding visible_def ot pt by auto
  have "pde_of t p va \<noteq> pde_of t c va \<and> pte_of t p va \<noteq> pte_of t c va" if p: "p \<in> others s c" for p
  proof -
    have n: "pde_of s p va \<noteq> pde_of s c va" "pte_of s p va \<noteq> pte_of s c va" using first_sharer_NoneD [OF assms(4) p] .
    have "pte_of s p va \<noteq> pte_of s c va OR PTE_W"
    proof
      assume eq: "pte_of s p va = pte_of s c va OR PTE_W"
      then have "PTE_ADDR (pte_of s p va) = PTE_ADDR (pte_of s c va)" by simp
      then have "pte_of s p va AND PTE_P = 0" using n(2) assms(3) p by (auto simp: consistent_def)
      then show False using eq assms(6) by simp
    qed
    then show ?thesis using pd p pp pc n(1) by simp
  qed
  then show "first_sharer t c va [0..<NPROC] = None" by (auto simp: first_sharer_def find_None_iff ot)
qed

text \<open>
  C28 (liveness).  \<open>fork\<close> takes the write permission away in the page directory as well, for every 4 MB region but the last one,
  and the handler gives it back only when it copies a table.  Without it a process loops: when nobody shares the page any more,
  the handler sets the permission in the page table only, the page is as unwritable as before, and when the
  process repeats the write and faults again, the handler changes nothing at all.
\<close>

theorem cow_read_only_directory_loops:
  fixes s :: "'z kern_scheme"
  defines "va \<equiv> cr2 (hw s)"
  assumes "typed R s" "curproc s = Some c" "visible R s c va" "consistent s c va" "uaddr (mem s) (pgdir (ptable s c)) va \<noteq> None"
    "first_sharer s c va [0..<NPROC] = None" "pde_of s c va AND PTE_W = 0"
  shows "\<exists>t. trapCOW s = Inr t \<and> \<not> uwritable (mem t) (pgdir (ptable s c)) va \<and> cr2 (hw t) = va \<and> trapCOW t = Inr t"
proof -
  define d where "d = pgdir (ptable s c)"
  let ?tab = "p2v (PTE_ADDR (entry (mem s) d (PDX va)))"
  note V = visibleD [OF assms(4)]
  have rd: "R d = Dir" "entry (mem s) d (PDX va) AND PTE_P \<noteq> 0" using V(2) [of c] by (simp_all add: d_def pde_of_def)
  have pe: "pde_of s c va = entry (mem s) d (PDX va)" "pte_of s c va = entry (mem s) ?tab (PTX va)" by (simp_all add: pde_of_def pte_of_def d_def)
  have pp: "pte_of s c va AND PTE_P \<noteq> 0" using assms(6) unfolding pe(2) by (auto simp: uaddr_entries d_def split: if_splits)
  obtain t where t: "setptew d (PGROUNDDOWN va) s = Inr t" "t = poke (?tab + 4 * PTX va) (entry (mem s) ?tab (PTX va) OR PTE_W) s"
    "typed R t" "entry (mem t) ?tab (PTX va) = entry (mem s) ?tab (PTX va) OR PTE_W" "entry (mem t) d (PDX va) = entry (mem s) d (PDX va)"
    using setptew_ok [OF assms(2) rd(1) V(1) rd(2)] by metis
  have o: "visible R t c va" "first_sharer t c va [0..<NPROC] = None"
    using setptew_others [OF assms(2,4,5,7) _ pp, of t] t(2) unfolding pe by simp_all
  have f: "curproc t = Some c" "hw t = hw s" "pgdir (ptable t c) = d" using assms(3) by (simp_all add: t(2) poke_def d_def)
  have sh: "isshared va u = Inr NOTHING" if "typed R u" "visible R u c va" "first_sharer u c va [0..<NPROC] = None" "curproc u = Some c"
    for u :: "'z kern_scheme"
    using isshared_loop_eq [OF that(1,2), of "[0..<NPROC]"] that(3,4) by (simp add: isshared_def lessThan_atLeast0)
  have "trapCOW s = Inr t"
    using sh [OF assms(2,4,7,3)] t(1) assms(3) by (simp add: trapCOW_def copypage_def cur_pgdir_def va_def Let_def d_def)
  moreover have "trapCOW t = Inr t"
  proof -
    have ed: "entry (mem t) d (PDX va) AND PTE_P \<noteq> 0" using rd(2) t(5) by simp
    obtain u where "setptew d (PGROUNDDOWN va) t = Inr u" "u = poke (?tab + 4 * PTX va) (entry (mem t) ?tab (PTX va) OR PTE_W) t"
      using setptew_ok [OF t(3) rd(1) V(1) ed] unfolding t(5) by metis
    moreover have "entry (mem t) ?tab (PTX va) OR PTE_W = entry (mem t) ?tab (PTX va)" by (simp only: t(4) or_W_twice)
    ultimately have "setptew d (PGROUNDDOWN va) t = Inr t" by (simp add: poke_same)
    then show ?thesis using sh [OF t(3) o f(1)] f by (simp add: trapCOW_def copypage_def cur_pgdir_def va_def Let_def)
  qed
  moreover have "\<not> uwritable (mem t) d va" using assms(8) t(5) by (simp add: uwritable_entries pe Let_def)
  ultimately show ?thesis using f(2) by (auto simp: d_def va_def)
qed

text \<open>One process, whose directory entry is present and readable only.\<close>

theorem cow_read_only_directory_loops_witness:
  "\<exists>s t. s = (cow_state 1 0x202005)\<lparr>ptable := (ptable (cow_state 1 0x202005))(1 := zero_proc)\<rparr> \<and>
     trapCOW s = Inr t \<and> \<not> uwritable (mem t) 0x80200000 0 \<and> trapCOW t = Inr t"
proof -
  let ?s0 = "cow_state 1 0x202005"
  define s where "s = ?s0\<lparr>ptable := (ptable ?s0)(1 := zero_proc)\<rparr>"
  have e: "0x202005 AND PTE_P \<noteq> 0" "PTE_ADDR 0x202005 = 0x202000" "0x202005 AND PTE_W = 0"
    by (simp_all add: PTE_P_def PTE_W_def PTE_ADDR_eq PGROUNDDOWN_div)
  have q: "0 < (1 :: nat)" "1 < NPROC" by (simp_all add: NPROC_def)
  note f = cow_state_facts [OF e(1,2) q]
  have ty: "typed cow_roles s" by (rule typed_mem [OF cow_typed(1) [OF e(1,2), of 1]]) (simp_all add: s_def)
  have g: "curproc s = Some 0" "cr2 (hw s) = 0" "pgdir (ptable s 0) = 0x80200000" "mem s = mem ?s0" using f by (simp_all add: s_def)
  have os: "others s 0 = {}" using f(3) by (auto simp: others_def s_def zero_proc_def)
  have pd: "pde_of s 0 0 = 0x202005" using f(4,6) g by (simp add: pde_of_def)
  have v: "visible cow_roles s 0 0" "consistent s 0 0" "first_sharer s 0 0 [0..<NPROC] = None"
    using os pd e g by (simp_all add: visible_def consistent_def first_sharer_def find_None_iff cow_roles_def KERNBASE_def)
  have "\<exists>t. trapCOW s = Inr t \<and> \<not> uwritable (mem t) (pgdir (ptable s 0)) (cr2 (hw s)) \<and> cr2 (hw t) = cr2 (hw s) \<and> trapCOW t = Inr t"
    by (rule cow_read_only_directory_loops [OF ty g(1)]) (use v g pd e f in simp_all)
  then show ?thesis using g s_def by auto
qed

subsection \<open>Shared frames are freed\<close>

lemma page_aligned:
  assumes "a mod PGSIZE = 0"
  shows "a AND 0xFFF = 0" "a < KERNBASE \<Longrightarrow> PGROUNDUP a = a" "PGROUNDDOWN a = a"
proof -
  have m: "unat a div 4096 * 4096 = unat a"
    using assms div_mult_mod_eq [of "unat a" 4096] by (simp add: aligned_unat)
  then show d: "PGROUNDDOWN a = a" by (simp add: word_unat_eq_iff unat_PGROUNDDOWN)
  then show "a AND 0xFFF = 0" using PGROUNDDOWN_parts(3) [of a] by simp
  assume "a < KERNBASE"
  then have "unat (PGROUNDUP a) = (unat a + 4095) div 4096 * 4096"
    by (intro unat_PGROUNDUP) (simp add: KERNBASE_def word_less_nat_alt)
  also have "\<dots> = unat a"
  proof -
    obtain k where k: "unat a = k * 4096" using m by metis
    show ?thesis unfolding k by simp
  qed
  finally show "PGROUNDUP a = a" by (simp add: word_unat_eq_iff)
qed

text \<open>One page given back by \<open>deallocuvm\<close>.\<close>

lemma dealloc_page:
  assumes "typed R s" "R d = Dir" "a mod PGSIZE = 0" "a < KERNBASE" "KERNBASE < kend s" "uaddr (mem s) d a = Some f"
  defines "tab \<equiv> p2v (PTE_ADDR (entry (mem s) d (PDX a)))"
  obtains t where "deallocuvm d (a + PGSIZE) a s = Inr (a, t)" "t = s\<lparr>mem := mem t, freelist := f\<rparr>"
    "\<forall>k. R k \<noteq> Other \<longrightarrow> k \<noteq> f \<longrightarrow> k \<noteq> tab \<longrightarrow> same_page (mem s) (mem t) k"
proof -
  from uaddr_typed [OF assms(1,2,4,6)] obtain f'
    where t: "R tab = Tab (PDX a)" "R f' = Frm (PDX a) (PTX a)" "f' = p2v (PTE_ADDR (entry (mem s) tab (PTX a)))"
      "f = f' + (a AND 0xFFF)" "entry (mem s) d (PDX a) AND PTE_P \<noteq> 0" "entry (mem s) tab (PTX a) AND PTE_P \<noteq> 0"
    unfolding tab_def by metis
  have f: "f' = f" using t(4) page_aligned(1) [OF assms(3)] by simp
  note D = typedD [OF assms(1)]
  have pf: "page_ok s f" "page_ok s tab" using D(2) t(1,2) f by auto
  let ?e = "entry (mem s) tab (PTX a)" and ?pte = "tab + 4 * PTX a"
  have "KERNBASE \<le> ?pte" by (rule entry_addr(1) [OF pf(2) PTX_bound])
  moreover have "\<not> KERNBASE \<le> 0" by (simp add: KERNBASE_def)
  ultimately have nz: "?pte \<noteq> 0" by metis
  have ez: "PTE_ADDR ?e \<noteq> 0" using t(3) f pf(1) assms(5) by (auto simp: page_ok_def p2v_def)
  obtain u where u: "kfree f s = Inr u" using kfree_succeeds [OF pf(1)] ..
  define w where "w = poke ?pte 0 u"
  have w: "walkpgdir d a False s = (?pte, s)"
    using t(5) by (simp add: walkpgdir_def entry_def pde_at_def tab_def)
  have fr: "mem u x = mem s x" if "\<not> in_region f 4096 x" for x by (rule kfree_frame [OF u that])
  have ueq: "u = s\<lparr>mem := mem u, freelist := f\<rparr>" using u by (simp add: kfree_Inr_iff)
  have "unat (a + PGSIZE) = unat a + 4096" "\<not> a + PGSIZE \<le> a"
    using assms(4) by (simp_all add: unat_word_ariths PGSIZE_def KERNBASE_def word_less_nat_alt word_le_nat_alt)
  then have "deallocuvm d (a + PGSIZE) a s = Inr (a, w)"
    using nz ez u w t(3,6) f
    by (simp add: deallocuvm_def page_aligned(2) [OF assms(3,4)] deallocuvm_loop.simps [of d "unat a"]
        deallocuvm_loop.simps [of d "unat a + 4096"] w_def Let_def flip: entry_def)
  moreover have "w = s\<lparr>mem := mem w, freelist := f\<rparr>" unfolding w_def poke_def by (subst ueq) simp
  moreover have "same_page (mem s) (mem w) k" if k: "R k \<noteq> Other" "k \<noteq> f" "k \<noteq> tab" for k
  proof -
    have al: "k mod PGSIZE = 0" "f mod PGSIZE = 0" "tab mod PGSIZE = 0"
      using typed_aligned [OF assms(1)] k(1) t(1,2) f by auto
    have "same_page (mem s) (mem u) k"
      unfolding same_page_def using fr pages_disjoint [OF al(1,2) k(2)] by blast
    moreover have "same_page (mem u) (mem w) k"
      unfolding w_def poke_def using store_same_page [OF al(3,1) _ PTX_bound] k(3) by auto
    ultimately show ?thesis by (rule same_page_trans)
  qed
  ultimately show thesis using that [of w] by blast
qed

text \<open>
  C40 (error).  A process that gives memory back frees frames that others still use.  When the last page of a process is
  shared with a process \<open>q\<close> that has its own page table, \<open>sbrk(-4096)\<close> puts the frame at the head of the
  free list: \<open>q\<close> is still mapped to it, and the next \<open>kalloc\<close> hands it out again.  When it was the only page, the
  call moreover reports failure although the page is gone.
\<close>

theorem shrink_frees_shared_frame:
  fixes s :: "'z kern_scheme"
  assumes "typed R s" "curproc s = Some c" "a mod PGSIZE = 0" "a < KERNBASE" "KERNBASE < kend s"
    "sz (ptable s c) = a + PGSIZE" "R (pgdir (ptable s c)) = Dir" "uaddr (mem s) (pgdir (ptable s c)) a = Some f"
    "R (pgdir (ptable s q)) = Dir" "uaddr (mem s) (pgdir (ptable s q)) a = Some f"
    "PTE_ADDR (pde_of s q a) \<noteq> PTE_ADDR (pde_of s c a)"
  shows "\<exists>t. growproc (- 4096) s = Inr (if a = 0 then - 1 else 0, t)
           \<and> uaddr (mem t) (pgdir (ptable s q)) a = Some f \<and> fst (kalloc t) = f"
proof -
  let ?d = "pgdir (ptable s c)" and ?e = "pgdir (ptable s q)"
  let ?tab = "p2v (PTE_ADDR (entry (mem s) ?d (PDX a)))" and ?tab' = "p2v (PTE_ADDR (entry (mem s) ?e (PDX a)))"
  obtain t where t: "deallocuvm ?d (a + PGSIZE) a s = Inr (a, t)" "t = s\<lparr>mem := mem t, freelist := f\<rparr>"
    "\<forall>k. R k \<noteq> Other \<longrightarrow> k \<noteq> f \<longrightarrow> k \<noteq> ?tab \<longrightarrow> same_page (mem s) (mem t) k"
    by (rule dealloc_page [OF assms(1,7,3,4,5,8)])
  from uaddr_typed [OF assms(1,7,4,8)] have rt: "R ?tab = Tab (PDX a)" by metis
  from uaddr_typed [OF assms(1,9,4,10)] obtain f'
    where rt': "R ?tab' = Tab (PDX a)" and f': "R f' = Frm (PDX a) (PTX a)" "f = f' + (a AND 0xFFF)" by metis
  have rf: "R f = Frm (PDX a) (PTX a)" using f' page_aligned(1) [OF assms(3)] by simp
  have "?tab' \<noteq> ?tab" using assms(11) by (auto simp: pde_of_def p2v_def)
  moreover have "?e \<noteq> f" "?e \<noteq> ?tab" "?tab' \<noteq> f" using assms(9) rt rt' rf by force+
  moreover have "R ?e \<noteq> Other" "R ?tab' \<noteq> Other" using assms(9) rt' by simp_all
  ultimately have same: "same_page (mem s) (mem t) ?e" "same_page (mem s) (mem t) ?tab'"
    using t(3) by blast+
  have "uaddr (mem t) ?e a = uaddr (mem s) ?e a"
    unfolding uaddr_entries using entry_cong [OF same(1) PDX_bound] entry_cong [OF same(2) PTX_bound] by simp
  moreover have "?d \<noteq> 0" using typedD(2) [OF assms(1), of ?d] assms(7) page_ok_nonzero by auto
  moreover have "sz (ptable s c) + of_int (- 4096) = a" using assms(6) by (simp add: PGSIZE_def)
  ultimately show ?thesis
    using t(1) assms(2,6,10)
    by (subst (asm) (1 2) t(2)) (auto simp: growproc_def Let_def switchuvm_def upd_proc_def kalloc_def)
qed

definition sole_page :: "kern" where
  "sole_page = upd_proc 0 (\<lambda>p. p\<lparr>sz := PGSIZE\<rparr>) (cow_state 2 0x202007)"

theorem shrink_frees_shared_frame_witness:
  "\<exists>t. growproc (- 4096) sole_page = Inr (- 1, t) \<and> uaddr (mem t) 0x80201000 0 = Some 0x80204000
     \<and> fst (kalloc t) = 0x80204000"
proof -
  have e: "0x202007 AND PTE_P \<noteq> 0" "PTE_ADDR 0x202007 = 0x202000" "PTE_ADDR 0x203007 = 0x203000"
    by (simp_all add: PTE_P_def PTE_ADDR_eq PGROUNDDOWN_div)
  have q: "0 < (2 :: nat)" "2 < NPROC" by (simp_all add: NPROC_def)
  note f = cow_state_facts [OF e(1,2) q]
  have m: "mem sole_page = mem (cow_state 2 0x202007)" "kend sole_page = kend (cow_state 2 0x202007)"
    "freelist sole_page = freelist (cow_state 2 0x202007)"
    by (simp_all add: sole_page_def upd_proc_def)
  then have ty: "typed cow_roles sole_page"
    using typed_mem(1) [OF cow_typed(1) [OF e(1,2), of 2], of sole_page] by simp
  have p: "ptable sole_page = (ptable (cow_state 2 0x202007))(0 := (ptable (cow_state 2 0x202007) 0)\<lparr>sz := PGSIZE\<rparr>)"
    "curproc sole_page = Some 0" using f(1) by (simp_all add: sole_page_def upd_proc_def)
  have pde: "pde_of sole_page 0 0 = 0x202007" "pde_of sole_page 2 0 = 0x203007"
    using f(6,7) by (simp_all add: pde_of_def p m)
  have u: "uaddr (mem sole_page) 0x80201000 0 = Some 0x80204000"
    using f(7,9) by (simp add: m uaddr_entries pde_of_def pte_of_def f(5) PDX_def PTX_def PTE_P_def PTE_ADDR_eq PGROUNDDOWN_div p2v_def KERNBASE_def)
  have "\<exists>t. growproc (- 4096) sole_page = Inr (if (0 :: uint) = 0 then - 1 else 0, t)
      \<and> uaddr (mem t) (pgdir (ptable sole_page 2)) 0 = Some 0x80204000 \<and> fst (kalloc t) = 0x80204000"
    by (rule shrink_frees_shared_frame [OF ty p(2)])
      (use f e u pde in \<open>simp_all add: p m KERNBASE_def cow_roles_def cow_state_def boot_kern_def\<close>)
  then show ?thesis using f by (simp add: p)
qed

end
