(* ===== verification/UserMem.thy ===== *)
theory UserMem
  imports CowLimits
begin

text \<open>
  Growing a process: \<open>allocuvm\<close> with \<open>mappages\<close> and \<open>walkpgdir\<close> of \<open>vm.c\<close> keep the roles of the pages and give the process
  zeroed memory of its own.
\<close>

subsection \<open>Zeroed pages\<close>

lemma zero_alloc:
  assumes "typed R s" "free_pages s \<noteq> {}"
  obtains k u where "kalloc s = (k, s\<lparr>freelist := load32 (mem s) k\<rparr>)"
    "u = s\<lparr>freelist := load32 (mem s) k, mem := memset k 0 PGSIZE (mem s)\<rparr>" "k \<noteq> 0" "R k = Free" "k mod PGSIZE = 0"
    "typed R u" "free_pages u = free_pages s - {k}" "k \<in> free_pages s"
    "\<forall>k'. k' \<noteq> k \<longrightarrow> R k' \<noteq> Other \<longrightarrow> same_page (mem s) (mem u) k'"
    "\<forall>y. unat y < 4096 \<longrightarrow> mem u (k + y) = 0" "\<forall>w. unat w < 1024 \<longrightarrow> entry (mem u) k w = 0"
proof -
  obtain k where k: "kalloc s = (k, s\<lparr>freelist := load32 (mem s) k\<rparr>)" "k \<in> free_pages s" "R k = Free" "k \<noteq> 0" "page_ok s k"
    "typed R (s\<lparr>freelist := load32 (mem s) k\<rparr>)" "free_pages (s\<lparr>freelist := load32 (mem s) k\<rparr>) = free_pages s - {k}"
    by (rule alloc_page [OF assms])
  let ?s1 = "s\<lparr>freelist := load32 (mem s) k\<rparr>"
  define u where "u = s\<lparr>freelist := load32 (mem s) k, mem := memset k 0 PGSIZE (mem s)\<rparr>"
  have al: "k mod PGSIZE = 0" using k(5) by (simp add: page_ok_def)
  have m: "mem u x = (if in_region k 4096 x then 0 else mem s x)" for x
    by (simp add: u_def memset_region PGSIZE_def)
  have same: "same_page (mem s) (mem u) k'" if "k' \<noteq> k" "R k' \<noteq> Other" for k'
    using pages_disjoint [OF typed_aligned [OF assms(1) that(2)] al that(1)] by (auto simp: same_page_def m)
  have keep: "same_page (mem ?s1) (mem u) k'" if "k' \<in> free_pages ?s1 \<or> R k' = Dir \<or> (\<exists>i. R k' = Tab i)" for k'
  proof -
    have "R k' = Free" if "k' \<in> free_pages ?s1" using typedD(3) [OF k(6) that] .
    moreover have "k \<notin> free_pages ?s1" unfolding k(7) by blast
    ultimately have "k' \<noteq> k" "R k' \<noteq> Other" using that k(3) by (metis role.distinct)+
    from same [OF this] show ?thesis by simp
  qed
  have f: "freelist u = freelist ?s1" "kend u = kend ?s1" by (simp_all add: u_def)
  note t = typed_mem [OF k(6) f keep]
  show thesis
  proof (rule that [of k u])
    show "typed R u" "free_pages u = free_pages s - {k}" using t k(7) by simp_all
    show y: "\<forall>y. unat y < 4096 \<longrightarrow> mem u (k + y) = 0" by (simp add: m in_region_def)
    show "\<forall>w. unat w < 1024 \<longrightarrow> entry (mem u) k w = 0"
    proof (intro allI impI)
      fix w :: uint assume w: "unat w < 1024"
      have "mem u (k + 4 * w + of_nat i) = 0" if "i < 4" for i
      proof -
        have "unat (4 * w + of_nat i :: uint) < 4096" using w that by (simp add: unat_word_ariths unat_of_nat)
        then show ?thesis using y by (simp add: add.assoc)
      qed
      from this [of 0] this [of 1] this [of 2] this [of 3] show "entry (mem u) k w = 0"
        by (simp add: entry_def load32_def of_le32_def)
    qed
  qed (use k same al u_def in simp_all)
qed

subsection \<open>The table of an address\<close>

lemma walk_alloc:
  assumes "typed R s" "R d = Dir" "va < KERNBASE" "free_pages s \<noteq> {}" "finite (free_pages s)"
  obtains u tab R' where "walkpgdir d va True s = (tab + 4 * PTX va, u)" "u = s\<lparr>mem := mem u, freelist := freelist u\<rparr>"
    "typed R' u" "extends R R'" "R' tab = Tab (PDX va)"
    "tab + 4 * PTX va \<noteq> 0" "entry (mem u) d (PDX va) AND PTE_P \<noteq> 0" "p2v (PTE_ADDR (entry (mem u) d (PDX va))) = tab"
    "card (free_pages s) \<le> Suc (card (free_pages u))" "finite (free_pages u)"
    "\<forall>va. va < KERNBASE \<longrightarrow> ubyte (mem u) d va = ubyte (mem s) d va"
    "\<forall>va. va < KERNBASE \<longrightarrow> uaddr (mem u) d va = uaddr (mem s) d va"
    "\<forall>i j k. R k = Frm i j \<longrightarrow> same_page (mem s) (mem u) k"
proof (cases "entry (mem s) d (PDX va) AND PTE_P = 0")
  case False
  let ?tab = "p2v (PTE_ADDR (entry (mem s) d (PDX va)))"
  have t: "R ?tab = Tab (PDX va)" by (rule typedD(4) [OF assms(1,2) user_PDX [OF assms(3)] False])
  have "KERNBASE \<le> ?tab + 4 * PTX va" by (rule entry_addr(1) [OF typedD(2) [OF assms(1)] PTX_bound]) (use t in simp)
  moreover have "\<not> KERNBASE \<le> 0" by (simp add: KERNBASE_def)
  ultimately have "?tab + 4 * PTX va \<noteq> 0" by metis
  then show thesis
    using that [of ?tab s R] False t assms(1,5) by (simp add: walkpgdir_def entry_def pde_at_def extends_refl)
next
  case True
  obtain k v where k: "kalloc s = (k, s\<lparr>freelist := load32 (mem s) k\<rparr>)"
    "v = s\<lparr>freelist := load32 (mem s) k, mem := memset k 0 PGSIZE (mem s)\<rparr>" "k \<noteq> 0" "R k = Free" "k mod PGSIZE = 0"
    "typed R v" "free_pages v = free_pages s - {k}" "k \<in> free_pages s"
    "\<forall>k'. k' \<noteq> k \<longrightarrow> R k' \<noteq> Other \<longrightarrow> same_page (mem s) (mem v) k'"
    "\<forall>w. unat w < 1024 \<longrightarrow> entry (mem v) k w = 0"
    by (rule zero_alloc [OF assms(1,4)])
  let ?R = "R(k := Tab (PDX va))"
  have kd: "k \<noteq> d" using k(4) assms(2) by auto
  have nf: "k \<notin> free_pages v" using k(7) by simp
  have t2: "typed ?R v" by (rule typed_role [OF k(6,4) nf]) (use k(10) in simp_all)
  define u where "u = poke (d + 4 * PDX va) (user_rw k) v"
  have st: "(?R d = Dir \<and> unat (PDX va) < 1024 \<and> (unat (PDX va) < 512 \<longrightarrow> user_rw k AND PTE_P \<noteq> 0 \<longrightarrow> ?R (p2v (PTE_ADDR (user_rw k))) = Tab (PDX va))) \<or>
     (\<exists>i. ?R d = Tab i \<and> unat (PDX va) < 1024 \<and> (user_rw k AND PTE_P \<noteq> 0 \<longrightarrow> ?R (p2v (PTE_ADDR (user_rw k))) = Frm i (PDX va)))"
    using kd assms(2) PDX_bound k(5) by simp
  note s = typed_store [OF t2 st, folded u_def]
  have ed: "entry (mem u) d w = (if w = PDX va then user_rw k else entry (mem s) d w)" if "unat w < 1024" for w
    using s(4) [OF that] entry_cong [of "mem s" "mem v" d w] k(9) kd assms(2) that by auto
  have kz: "entry (mem u) k w = 0" if "unat w < 1024" for w
    using entry_cong [of "mem v" "mem u" k w] s(3) [of k] kd k(10) that by auto
  have ot: "same_page (mem s) (mem u) k'" if "k' \<noteq> k" "k' \<noteq> d" "R k' \<noteq> Other" for k'
    using same_page_trans [of "mem s" "mem v" k' "mem u"] k(9) s(3) [of k'] that by auto
  have ua: "uaddr (mem u) d va2 = uaddr (mem s) d va2" if "va2 < KERNBASE" for va2
  proof (cases "PDX va2 = PDX va")
    case same: True
    then show ?thesis using True k(5) kz [OF PTX_bound] ed [OF PDX_bound] by (simp add: uaddr_entries)
  next
    case False
    let ?t = "p2v (PTE_ADDR (entry (mem s) d (PDX va2)))"
    have "entry (mem u) ?t (PTX va2) = entry (mem s) ?t (PTX va2)" if p: "entry (mem s) d (PDX va2) AND PTE_P \<noteq> 0"
    proof (rule entry_cong [OF ot PTX_bound])
      have "R ?t = Tab (PDX va2)" by (rule typedD(4) [OF assms(1,2) user_PDX [OF \<open>va2 < KERNBASE\<close>] p])
      then show "?t \<noteq> k" "?t \<noteq> d" "R ?t \<noteq> Other" using k(4) assms(2) by auto
    qed
    then show ?thesis using False ed [OF PDX_bound, of va2] by (auto simp: uaddr_entries)
  qed
  have frm: "same_page (mem s) (mem u) f" if "R f = Frm i j" for f i j
    using that k(4) assms(2) by (intro ot) auto
  have ub: "ubyte (mem u) d va2 = ubyte (mem s) d va2" if "va2 < KERNBASE" for va2
    by (rule ubyte_same [OF assms(1,2) that ua [OF that]]) (rule frm)
  have pde: "v2p k OR PTE_P OR PTE_W OR PTE_U = user_rw k"
    by (simp add: user_rw_def or.assoc or.commute or.left_commute)
  have w: "walkpgdir d va True s = (k + 4 * PTX va, u)"
    using True k(1,3) by (simp add: walkpgdir_def entry_def pde_at_def u_def k(2) Let_def pde)
  have ka: "KERNBASE \<le> k + 4 * PTX va" by (rule entry_addr(1) [OF typedD(2) [OF s(1)] PTX_bound]) simp
  have "\<not> KERNBASE \<le> 0" by (simp add: KERNBASE_def)
  then have nz: "k + 4 * PTX va \<noteq> 0" using ka by metis
  show thesis
  proof (rule that [OF w])
    show "u = s\<lparr>mem := mem u, freelist := freelist u\<rparr>" by (simp add: u_def k(2) poke_def)
    show "typed ?R u" by (rule s(1))
    show "extends R ?R" using k(4) by (rule extends_new)
    show "card (free_pages s) \<le> Suc (card (free_pages u))" "finite (free_pages u)"
      using s(2) k(7,8) assms(5) by (simp_all add: card_Diff_singleton)
  qed (use nz ed [OF PDX_bound] k(5) ua ub frm in \<open>simp_all, blast?\<close>)
qed

subsection \<open>Mapping one page\<close>

lemma same_parts:
  assumes "PDX va = PDX vb" "PTX va = PTX vb"
  shows "PGROUNDDOWN va = PGROUNDDOWN vb"
proof (rule bit_word_eqI)
  have b: "bit (PGROUNDDOWN x) n \<longleftrightarrow> 12 \<le> n \<and> bit x n" for x n
    using PTE_ADDR_bit unfolding PTE_ADDR_eq .
  have d: "bit (PDX x) n \<longleftrightarrow> n < 10 \<and> bit x (n + 22)" "bit (PTX x) n \<longleftrightarrow> n < 10 \<and> bit x (n + 12)" for x n
    unfolding PDX_def PTX_def masks by (auto simp: bit_simps ac_simps)
  fix n assume n: "n < LENGTH(32)"
  show "bit (PGROUNDDOWN va) n = bit (PGROUNDDOWN vb) n"
  proof (cases "n < 22")
    case True
    then show ?thesis using d(2) [of va "n - 12"] d(2) [of vb "n - 12"] assms(2) by (auto simp: b)
  next
    case False
    then show ?thesis using n d(1) [of va "n - 22"] d(1) [of vb "n - 22"] assms(1) by (auto simp: b)
  qed
qed

lemma mappages_one:
  assumes "a mod PGSIZE = 0" "a < KERNBASE"
  shows "mappages d a PGSIZE pa perm s =
    ebind (mappage_step d a pa perm s) (\<lambda>(ok, s). Inr (if ok then 0 else - 1, s))"
proof -
  have "PGROUNDUP a = a" by (rule page_aligned(2) [OF assms])
  then have "PGROUNDDOWN (a + PGSIZE - 1) = a" by (simp add: PGROUNDUP_eq PGSIZE_def add.commute)
  moreover note page_aligned(3) [OF assms(1)]
  ultimately show ?thesis
    by (auto simp: mappages_def mappages_loop.simps [of 0] Let_def intro!: ebind_cong)
qed

lemma map_page:
  assumes "typed R s" "R d = Dir" "a mod PGSIZE = 0" "a < KERNBASE" "ubyte (mem s) d a = None" "2 \<le> card (free_pages s)"
  obtains k t R' where "fst (kalloc s) = k" "k \<noteq> 0"
    "mappages d a PGSIZE (v2p k) (PTE_W OR PTE_U) ((snd (kalloc s))\<lparr>mem := memset k 0 PGSIZE (mem (snd (kalloc s)))\<rparr>) = Inr (0, t)"
    "typed R' t" "extends R R'" "card (free_pages s) \<le> card (free_pages t) + 2"
    "\<forall>va. va < KERNBASE \<longrightarrow> ubyte (mem t) d va = (if PGROUNDDOWN va = PGROUNDDOWN a then Some 0 else ubyte (mem s) d va)"
proof -
  have fin: "finite (free_pages s)" and ne: "free_pages s \<noteq> {}" using assms(6) card.infinite by fastforce+
  obtain k v where k: "kalloc s = (k, s\<lparr>freelist := load32 (mem s) k\<rparr>)"
    "v = s\<lparr>freelist := load32 (mem s) k, mem := memset k 0 PGSIZE (mem s)\<rparr>" "k \<noteq> 0" "R k = Free" "k mod PGSIZE = 0"
    "typed R v" "free_pages v = free_pages s - {k}" "k \<in> free_pages s"
    "\<forall>k'. k' \<noteq> k \<longrightarrow> R k' \<noteq> Other \<longrightarrow> same_page (mem s) (mem v) k'"
    "\<forall>y. unat y < 4096 \<longrightarrow> mem v (k + y) = 0"
    by (rule zero_alloc [OF assms(1) ne])
  let ?i = "PDX a" and ?j = "PTX a"
  let ?R1 = "R(k := Frm ?i ?j)"
  have kv: "k \<notin> free_pages v" using k(7) by simp
  have t1: "typed ?R1 v" by (rule typed_role [OF k(6,4) kv]) simp_all
  have d1: "?R1 d = Dir" using assms(2) k(4) by auto
  have ub1: "ubyte (mem v) d va = ubyte (mem s) d va" if "va < KERNBASE" for va
  proof (rule ubyte_same [OF assms(1,2) that uaddr_same [OF assms(1,2) that]])
    show "same_page (mem s) (mem v) d" using k(4,9) assms(2) by (metis role.distinct)
    show "same_page (mem s) (mem v) t" if "R t = Tab (PDX va)" for t using k(4,9) that by (metis role.distinct)
    show "same_page (mem s) (mem v) f" if "R f = Frm (PDX va) (PTX va)" for f using k(4,9) that by (metis role.distinct)
  qed
  have c1: "card (free_pages v) = card (free_pages s) - 1" "finite (free_pages v)"
    using k(7,8) fin by (simp_all add: card_Diff_singleton)
  then have ne1: "free_pages v \<noteq> {}" using assms(6) by auto
  obtain u tab R2 where u: "walkpgdir d a True v = (tab + 4 * ?j, u)" "typed R2 u" "extends ?R1 R2" "R2 tab = Tab ?i"
    "tab + 4 * ?j \<noteq> 0" "entry (mem u) d ?i AND PTE_P \<noteq> 0" "p2v (PTE_ADDR (entry (mem u) d ?i)) = tab"
    "card (free_pages v) \<le> Suc (card (free_pages u))"
    "\<forall>va. va < KERNBASE \<longrightarrow> ubyte (mem u) d va = ubyte (mem v) d va"
    "\<forall>i j k. ?R1 k = Frm i j \<longrightarrow> same_page (mem v) (mem u) k"
    by (rule walk_alloc [OF t1 d1 assms(4) ne1 c1(2)])
  have r2: "R2 k = Frm ?i ?j" "R2 d = Dir" using u(3) d1 by (auto simp: extends_def)
  have "ubyte (mem u) d a = None" using u(9) ub1 assms(4,5) by simp
  then have np: "entry (mem u) tab ?j AND PTE_P = 0" using u(6,7) by (auto simp: ubyte_def uaddr_entries split: if_splits)
  define t where "t = poke (tab + 4 * ?j) (user_rw k) u"
  have st: "(R2 tab = Dir \<and> unat ?j < 1024 \<and> (unat ?j < 512 \<longrightarrow> user_rw k AND PTE_P \<noteq> 0 \<longrightarrow> R2 (p2v (PTE_ADDR (user_rw k))) = Tab ?j)) \<or>
     (\<exists>i. R2 tab = Tab i \<and> unat ?j < 1024 \<and> (user_rw k AND PTE_P \<noteq> 0 \<longrightarrow> R2 (p2v (PTE_ADDR (user_rw k))) = Frm i ?j))"
    using u(4) r2 PTX_bound k(5) by simp
  note st = typed_store [OF u(2) st, folded t_def]
  have same: "same_page (mem u) (mem t) k'" if "R2 k' \<noteq> Other" "k' \<noteq> tab" for k' using st(3) [of k'] that by blast
  have frm: "same_page (mem u) (mem t) f" if "R2 f = Frm i j" for f i j using that u(4) by (intro same) auto
  have ed: "entry (mem t) d w = entry (mem u) d w" if "unat w < 1024" for w
    using r2(2) u(4) that by (intro entry_cong same) auto
  have here: "ubyte (mem t) d va = Some 0" if "PDX va = ?i" "PTX va = ?j" for va
  proof -
    have "mem v (k + (va AND 0xFFF)) = 0" using k(10) offset_bound by blast
    moreover have "in_region k 4096 (k + (va AND 0xFFF))" using offset_bound by (simp add: in_region_def)
    moreover have "same_page (mem v) (mem t) k"
      using u(10) frm [OF r2(1)] same_page_trans by (metis fun_upd_same)
    ultimately have "mem t (k + (va AND 0xFFF)) = 0" by (simp add: same_page_def)
    moreover have "uaddr (mem t) d va = Some (k + (va AND 0xFFF))"
      using that u(6,7) ed [OF PDX_bound] st(4) [OF PTX_bound] k(5) by (simp add: uaddr_entries)
    ultimately show ?thesis by (simp add: ubyte_def)
  qed
  have there: "ubyte (mem t) d va = ubyte (mem u) d va" if va: "va < KERNBASE" and ne: "PDX va \<noteq> ?i \<or> PTX va \<noteq> ?j" for va
  proof (rule ubyte_same [OF u(2) r2(2) va])
    let ?t = "p2v (PTE_ADDR (entry (mem u) d (PDX va)))"
    have "entry (mem t) ?t (PTX va) = entry (mem u) ?t (PTX va)" if p: "entry (mem u) d (PDX va) AND PTE_P \<noteq> 0"
    proof (cases "PDX va = ?i")
      case True
      then show ?thesis using ne u(7) st(4) [OF PTX_bound, of va] by simp
    next
      case False
      have "R2 ?t = Tab (PDX va)" by (rule typedD(4) [OF u(2) r2(2) user_PDX [OF va] p])
      then show ?thesis using False u(4) by (intro entry_cong same PTX_bound) auto
    qed
    then show "uaddr (mem t) d va = uaddr (mem u) d va" unfolding uaddr_entries ed [OF PDX_bound] by auto
  qed (rule frm)
  have run: "mappages d a PGSIZE (v2p k) (PTE_W OR PTE_U) v = Inr (0, t)"
    using u(1,5) np unfolding mappages_one [OF assms(3,4)]
    by (simp add: mappage_step_def entry_def t_def user_rw_def or.assoc Let_def)
  show thesis
  proof (rule that [of k t R2])
    show "extends R R2" using extends_trans [OF extends_new [of R k] u(3)] k(4) by blast
    show "card (free_pages s) \<le> card (free_pages t) + 2" using st(2) u(8) c1(1) by simp
    show "\<forall>va. va < KERNBASE \<longrightarrow> ubyte (mem t) d va = (if PGROUNDDOWN va = PGROUNDDOWN a then Some 0 else ubyte (mem s) d va)"
    proof (intro allI impI)
      fix va assume va: "va < KERNBASE"
      show "ubyte (mem t) d va = (if PGROUNDDOWN va = PGROUNDDOWN a then Some 0 else ubyte (mem s) d va)"
      proof (cases "PDX va = ?i \<and> PTX va = ?j")
        case True
        then show ?thesis using here [of va] same_parts [of va a] by simp
      next
        case False
        then have "PGROUNDDOWN va \<noteq> PGROUNDDOWN a" using PGROUNDDOWN_parts(1,2) by metis
        then show ?thesis using there [OF va] False u(9) ub1 [OF va] va by auto
      qed
    qed
  qed (use k(1-3) st(1) run in simp_all)
qed

subsection \<open>Growing\<close>

text \<open>The end of the last page that holds a byte below \<open>n\<close>.\<close>

definition page_top :: "nat \<Rightarrow> nat" where
  "page_top n = (n + 4095) div 4096 * 4096"

lemma page_top_step:
  assumes "a mod 4096 = 0" "a < n"
  shows "a + 4096 \<le> page_top n" "(page_top n - a) div 4096 = Suc ((page_top n - (a + 4096)) div 4096)"
proof -
  obtain k where k: "a = k * 4096" using assms(1) by auto
  have "k < (n + 4095) div 4096" using assms(2) unfolding k by simp
  then show "a + 4096 \<le> page_top n" "(page_top n - a) div 4096 = Suc ((page_top n - (a + 4096)) div 4096)"
    unfolding k page_top_def by (simp_all add: diff_mult_distrib [symmetric])
qed

lemma in_this_page:
  assumes "unat b mod 4096 = 0"
  shows "PGROUNDDOWN va = PGROUNDDOWN b \<longleftrightarrow> unat b \<le> unat va \<and> unat va < unat b + 4096"
proof -
  obtain k where k: "unat b = k * 4096" using assms by auto
  have "PGROUNDDOWN va = PGROUNDDOWN b \<longleftrightarrow> unat va div 4096 = k"
    by (simp add: word_unat_eq_iff unat_PGROUNDDOWN k)
  also have "\<dots> \<longleftrightarrow> k * 4096 \<le> unat va \<and> unat va < k * 4096 + 4096" by auto
  finally show ?thesis by (simp add: k)
qed

lemma allocuvm_loop_zeroed:
  assumes "typed R s" "R d = Dir" "newsz < KERNBASE" "a mod 4096 = 0" "a \<le> page_top (unat newsz)"
    "2 * ((page_top (unat newsz) - a) div 4096) \<le> card (free_pages s)"
    "\<forall>va. a \<le> unat va \<longrightarrow> unat va < page_top (unat newsz) \<longrightarrow> ubyte (mem s) d va = None"
  shows "\<exists>t R'. allocuvm_loop d a oldsz newsz s = Inr (newsz, t) \<and> typed R' t \<and> extends R R'
     \<and> (\<forall>va. va < KERNBASE \<longrightarrow> ubyte (mem t) d va =
          (if a \<le> unat va \<and> unat va < page_top (unat newsz) then Some 0 else ubyte (mem s) d va))"
  using assms
proof (induction "unat newsz - a" arbitrary: a s R rule: less_induct)
  case less
  show ?case
  proof (cases "a < unat newsz")
    case False
    have "page_top (unat newsz) = a"
    proof -
      obtain k where "a = k * 4096" using less.prems(4) by auto
      then show ?thesis using False less.prems(5) by (auto simp: page_top_def)
    qed
    then show ?thesis
      using False less.prems(1) by (auto simp: allocuvm_loop.simps extends_refl)
  next
    case True
    note top = page_top_step [OF less.prems(4) True]
    let ?b = "of_nat a :: uint"
    have "unat newsz < 2 ^ 32" using less.prems(3) by (simp add: KERNBASE_def word_less_nat_alt)
    then have b: "unat ?b = a" using True by (simp add: unat_of_nat)
    have bk: "?b < KERNBASE" using b True less.prems(3) by (simp add: word_less_nat_alt)
    have al: "?b mod PGSIZE = 0" using less.prems(4) by (simp only: aligned_unat b)
    have "ubyte (mem s) d ?b = None" using less.prems(7) top(1) b by simp
    moreover have "2 \<le> card (free_pages s)" using less.prems(6) top(2) by simp
    ultimately obtain k t R1 where k: "fst (kalloc s) = k" "k \<noteq> 0"
      "mappages d ?b PGSIZE (v2p k) (PTE_W OR PTE_U) ((snd (kalloc s))\<lparr>mem := memset k 0 PGSIZE (mem (snd (kalloc s)))\<rparr>) = Inr (0, t)"
      "typed R1 t" "extends R R1" "card (free_pages s) \<le> card (free_pages t) + 2"
      "\<forall>va. va < KERNBASE \<longrightarrow> ubyte (mem t) d va = (if PGROUNDDOWN va = PGROUNDDOWN ?b then Some 0 else ubyte (mem s) d va)"
      by (rule map_page [OF less.prems(1,2) al bk])
    have page: "PGROUNDDOWN va = PGROUNDDOWN ?b \<longleftrightarrow> a \<le> unat va \<and> unat va < a + 4096" for va
      using in_this_page [of ?b va] less.prems(4) by (simp add: b)
    have kt: "page_top (unat newsz) \<le> unat KERNBASE"
      using less.prems(3) by (simp add: page_top_def KERNBASE_def word_less_nat_alt)
    have "\<exists>t' R'. allocuvm_loop d (a + 4096) oldsz newsz t = Inr (newsz, t') \<and> typed R' t' \<and> extends R1 R'
        \<and> (\<forall>va. va < KERNBASE \<longrightarrow> ubyte (mem t') d va =
             (if a + 4096 \<le> unat va \<and> unat va < page_top (unat newsz) then Some 0 else ubyte (mem t) d va))"
    proof (rule less.hyps [OF _ k(4) _ less.prems(3)])
      show "unat newsz - (a + 4096) < unat newsz - a" using True by simp
      show "R1 d = Dir" using k(5) less.prems(2) by (auto simp: extends_def)
      show "(a + 4096) mod 4096 = 0" using less.prems(4) by simp
      show "2 * ((page_top (unat newsz) - (a + 4096)) div 4096) \<le> card (free_pages t)"
        using less.prems(6) top(2) k(6) by simp
      show "\<forall>va. a + 4096 \<le> unat va \<longrightarrow> unat va < page_top (unat newsz) \<longrightarrow> ubyte (mem t) d va = None"
        using k(7) less.prems(7) kt page by (auto simp: word_less_nat_alt)
    qed (rule top(1))
    then obtain t' R' where t': "allocuvm_loop d (a + 4096) oldsz newsz t = Inr (newsz, t')" "typed R' t'" "extends R1 R'"
        "\<forall>va. va < KERNBASE \<longrightarrow> ubyte (mem t') d va =
             (if a + 4096 \<le> unat va \<and> unat va < page_top (unat newsz) then Some 0 else ubyte (mem t) d va)" by blast
    moreover have "allocuvm_loop d a oldsz newsz s = Inr (newsz, t')"
      using True k(1-3) t'(1) by (simp add: allocuvm_loop.simps [of d a] split_beta Let_def)
    moreover have "extends R R'" using extends_trans k(5) t'(3) by blast
    moreover have "\<forall>va. va < KERNBASE \<longrightarrow> ubyte (mem t') d va =
          (if a \<le> unat va \<and> unat va < page_top (unat newsz) then Some 0 else ubyte (mem s) d va)"
      using t'(4) k(7) page top(1) by auto
    ultimately show ?thesis by blast
  qed
qed

text \<open>
  C3 (type).  Growing keeps the page tables well typed: when memory suffices, \<open>allocuvm\<close> succeeds, every page keeps its role or
  gets one for the first time, so that directories lead to tables and tables to frames of their own address only;
  the process finds zeros in all new pages and its old memory as it was.
\<close>

theorem allocuvm_typed:
  assumes "typed R s" "R d = Dir" "oldsz \<le> newsz" "newsz < KERNBASE"
    "2 * (unat (PGROUNDUP newsz - PGROUNDUP oldsz) div 4096) \<le> card (free_pages s)"
    "\<forall>va. PGROUNDUP oldsz \<le> va \<longrightarrow> va < PGROUNDUP newsz \<longrightarrow> uaddr (mem s) d va = None"
  shows "\<exists>t R'. allocuvm d oldsz newsz s = Inr (newsz, t) \<and> typed R' t \<and> extends R R'
     \<and> (\<forall>va. va < KERNBASE \<longrightarrow> ubyte (mem t) d va =
          (if PGROUNDUP oldsz \<le> va \<and> va < PGROUNDUP newsz then Some 0 else ubyte (mem s) d va))"
proof -
  have n: "unat newsz < 2147483648" "unat oldsz \<le> unat newsz"
    using assms(3,4) by (simp_all add: KERNBASE_def word_less_nat_alt word_le_nat_alt)
  then have u: "unat (PGROUNDUP newsz) = page_top (unat newsz)" "unat (PGROUNDUP oldsz) = page_top (unat oldsz)"
    by (simp_all add: unat_PGROUNDUP page_top_def)
  have le: "page_top (unat oldsz) \<le> page_top (unat newsz)" using n(2) by (simp add: page_top_def div_le_mono)
  then have "unat (PGROUNDUP newsz - PGROUNDUP oldsz) = page_top (unat newsz) - page_top (unat oldsz)"
    by (simp add: unat_sub_if_size u)
  moreover have "\<forall>va. page_top (unat oldsz) \<le> unat va \<longrightarrow> unat va < page_top (unat newsz) \<longrightarrow> ubyte (mem s) d va = None"
    using assms(6) by (simp add: word_le_nat_alt word_less_nat_alt u ubyte_def)
  ultimately have "\<exists>t R'. allocuvm_loop d (page_top (unat oldsz)) oldsz newsz s = Inr (newsz, t) \<and> typed R' t \<and> extends R R'
     \<and> (\<forall>va. va < KERNBASE \<longrightarrow> ubyte (mem t) d va =
          (if page_top (unat oldsz) \<le> unat va \<and> unat va < page_top (unat newsz) then Some 0 else ubyte (mem s) d va))"
    using assms(5) le by (intro allocuvm_loop_zeroed [OF assms(1,2,4)]) (simp_all add: page_top_def)
  moreover have "allocuvm d oldsz newsz s = allocuvm_loop d (page_top (unat oldsz)) oldsz newsz s"
    using assms(3,4) by (auto simp: allocuvm_def u)
  moreover have "PGROUNDUP oldsz \<le> va \<and> va < PGROUNDUP newsz \<longleftrightarrow>
      page_top (unat oldsz) \<le> unat va \<and> unat va < page_top (unat newsz)" for va
    by (simp add: word_le_nat_alt word_less_nat_alt u)
  ultimately show ?thesis by (simp only:)
qed

theorem allocuvm_typed_witness:
  "\<exists>t R'. allocuvm 0x80200000 4096 8192 (cow_state 2 0x202007) = Inr (8192, t) \<and> typed R' t
     \<and> ubyte (mem t) 0x80200000 5000 = Some 0"
proof -
  let ?s = "cow_state 2 0x202007"
  have e: "0x202007 AND PTE_P \<noteq> 0" "PTE_ADDR 0x202007 = 0x202000" by (simp_all add: PTE_P_def PTE_ADDR_eq PGROUNDDOWN_div)
  note ty = cow_typed [OF e, of 2]
  have r: "PGROUNDUP 8192 = 8192" "PGROUNDUP 4096 = 4096" by (simp_all add: PGROUNDUP_eq PGROUNDDOWN_div)
  have m: "mem ?s = cow_mem 0x202007" by (simp add: cow_state_def)
  have un: "uaddr (mem ?s) 0x80200000 va = None" if "4096 \<le> va" "va < 8192" for va
  proof -
    have v: "4096 \<le> unat va" "unat va < 8192" using that by (simp_all add: word_le_nat_alt word_less_nat_alt)
    have "va div 4194304 = 0" using v(2) by (simp add: word_unat_eq_iff unat_div)
    then have pd: "PDX va = 0" by (simp add: PDX_def drop_bit_eq_div)
    have "PTX va \<noteq> 0"
    proof
      assume "PTX va = 0"
      then have "PGROUNDDOWN va = PGROUNDDOWN 0" using pd by (intro same_parts) (simp_all add: PDX_def PTX_def)
      then have "unat va div 4096 * 4096 = 0" using unat_PGROUNDDOWN [of va] by (simp add: PGROUNDDOWN_div)
      then show False using v(1) by simp
    qed
    then show ?thesis
      by (simp add: uaddr_entries pd m cow_entries e(2) p2v_def KERNBASE_def PTX_bound)
  qed
  have "\<exists>t R'. allocuvm 0x80200000 4096 8192 ?s = Inr (8192, t) \<and> typed R' t \<and> extends cow_roles R'
     \<and> (\<forall>va. va < KERNBASE \<longrightarrow> ubyte (mem t) 0x80200000 va =
          (if PGROUNDUP 4096 \<le> va \<and> va < PGROUNDUP 8192 then Some 0 else ubyte (mem ?s) 0x80200000 va))"
    by (rule allocuvm_typed [OF ty(1)]) (use ty(2) un in \<open>simp_all add: r cow_roles_def KERNBASE_def\<close>)
  then show ?thesis by (auto simp: r KERNBASE_def)
qed

end
