(* ===== verification/Paths.thy ===== *)
theory Paths
  imports Fs
begin

text \<open>
  Path names.  The loop of \<open>namex\<close> in \<open>fs.c\<close> takes a path apart with \<open>skipelem\<close> as it goes; here it is shown to be a
  walk along the components of the path, the non-empty pieces between the slashes.
\<close>

subsection \<open>Components\<close>

fun split_slash :: "uchar list \<Rightarrow> uchar list list" where
  "split_slash [] = [[]]"
| "split_slash (c # p) =
     (if c = slash then [] # split_slash p else (c # hd (split_slash p)) # tl (split_slash p))"

definition components :: "uchar list \<Rightarrow> uchar list list" where
  "components path = filter (\<lambda>w. w \<noteq> []) (split_slash path)"

lemma split_slash_nonempty: "split_slash p \<noteq> []"
  by (cases p) auto

lemma split_slash_word:
  "slash \<notin> set w \<Longrightarrow> split_slash (w @ slash # p) = w # split_slash p"
  "slash \<notin> set w \<Longrightarrow> split_slash w = [w]"
  by (induction w) auto

lemma components_slashes: "components (dropWhile (\<lambda>c. c = slash) p) = components p"
  by (induction p) (auto simp: components_def)

lemma components_skipelem:
  "components path = (case skipelem path of None \<Rightarrow> [] | Some (rest, _) \<Rightarrow> hd (components path) # components rest)"
  "skipelem path = Some (rest, name) \<Longrightarrow> name = take DIRSIZ (hd (components path)) \<and> (rest = [] \<longleftrightarrow> components rest = [])"
proof -
  define p where "p = dropWhile (\<lambda>c. c = slash) path"
  define w where "w = takeWhile (\<lambda>c. c \<noteq> slash) p"
  define r where "r = dropWhile (\<lambda>c. c \<noteq> slash) p"
  have cp: "components path = components p" unfolding p_def by (rule components_slashes [symmetric])
  have wr: "w @ r = p" unfolding w_def r_def by (rule takeWhile_dropWhile_id)
  have first: "hd (dropWhile (\<lambda>c. c = slash) q) \<noteq> slash" if "dropWhile (\<lambda>c. c = slash) q \<noteq> []" for q
    using hd_dropWhile [of "\<lambda>c. c = slash" q] that by simp
  have w: "w \<noteq> []" if "p \<noteq> []"
    using first [of path] that unfolding w_def p_def [symmetric] by (cases p) auto
  have ns: "slash \<notin> set w" unfolding w_def by (auto dest: set_takeWhileD)
  have split: "components p = w # components r" if "p \<noteq> []"
  proof (cases r)
    case Nil
    then have "components p = components w" using wr by simp
    then show ?thesis using split_slash_word(2) [OF ns] w [OF that] Nil by (simp add: components_def)
  next
    case (Cons c q)
    then have "c = slash" using hd_dropWhile [of "\<lambda>c. c \<noteq> slash" p] by (simp add: r_def)
    then have "components p = components (w @ slash # q)" "components r = components q"
      using Cons wr by (auto simp: components_def)
    then show ?thesis using split_slash_word(1) [OF ns, of q] w [OF that] by (simp add: components_def)
  qed
  have sk: "skipelem path = (if p = [] then None else Some (dropWhile (\<lambda>c. c = slash) r, take DIRSIZ w))"
    by (simp add: skipelem_def Let_def p_def w_def r_def)
  have empty: "components [] = []" by (simp add: components_def)
  show "components path = (case skipelem path of None \<Rightarrow> [] | Some (rest, _) \<Rightarrow> hd (components path) # components rest)"
    using split empty by (auto simp: sk cp components_slashes)
  assume "skipelem path = Some (rest, name)"
  then have p: "p \<noteq> []" "rest = dropWhile (\<lambda>c. c = slash) r" "name = take DIRSIZ w"
    unfolding sk by (auto split: if_splits)
  have "components rest \<noteq> []" if "rest \<noteq> []"
  proof (cases rest)
    case (Cons c q)
    then have "c \<noteq> slash" using first [of r] p(2) by simp
    then show ?thesis using Cons by (simp add: components_def)
  qed (use that in simp)
  then show "name = take DIRSIZ (hd (components path)) \<and> (rest = [] \<longleftrightarrow> components rest = [])"
    using p(3) split [OF p(1)] empty by (auto simp: cp)
qed

subsection \<open>Walking\<close>

text \<open>The walk along a list of names; \<open>par\<close> stops it one short of the end.\<close>

fun walk :: "'z fs_scheme devsw \<Rightarrow> bool \<Rightarrow> uchar list list \<Rightarrow> nat \<Rightarrow> 'z fs_scheme \<Rightarrow>
    ((nat \<times> uchar list) option \<times> 'z fs_scheme) outcome" where
  "walk dv par [] ip s =
     (if par then ebind (iput ip s) (\<lambda>s. Inr (None, s)) else Inr (Some (ip, []), s))"
| "walk dv par (name # names) ip s =
     ebind (ilock ip s) (\<lambda>s.
       if itype (inodes s ip) \<noteq> T_DIR then ebind (iunlockput ip s) (\<lambda>s. Inr (None, s))
       else if par \<and> names = [] then ebind (iunlock ip s) (\<lambda>s. Inr (Some (ip, name), s))
       else ebind (dirlookup dv ip name s) (\<lambda>(r, s).
              ebind (iunlockput ip s) (\<lambda>s.
                case r of None \<Rightarrow> Inr (None, s) | Some (nxt, _) \<Rightarrow> walk dv par names nxt s)))"

text \<open>
  C16.  \<open>namex\<close> looks up the components of the path one after the other: repeated, leading and trailing slashes make no
  difference, every name is cut to \<open>DIRSIZ\<close> bytes, and the variant for the parent directory stops before the last
  component.
\<close>

theorem namex_walks_components:
  "namex_loop dv par path ip s = walk dv par (map (take DIRSIZ) (components path)) ip s"
proof (induction dv par path ip s rule: namex_loop.induct)
  case (1 dv par path ip s)
  show ?case
  proof (cases "skipelem path")
    case None
    then show ?thesis using components_skipelem(1) [of path] by (simp add: namex_loop.simps [of dv par path])
  next
    case (Some x)
    obtain rest name where x: "skipelem path = Some (rest, name)" using Some by (cases x) auto
    note c = components_skipelem(2) [OF x]
    have cs: "map (take DIRSIZ) (components path) = name # map (take DIRSIZ) (components rest)"
      using components_skipelem(1) [of path] c by (simp add: x) (metis list.simps(9))
    show ?thesis
      unfolding cs walk.simps namex_loop.simps [of dv par path] x option.case prod.case
      using c "1.IH" [OF x] by (cases par) (auto simp del: namex_loop.simps split: option.splits prod.splits intro!: ebind_cong)
  qed
qed

end
