(* ===== verification/Exec.thy ===== *)
theory Exec
  imports Process
begin

text \<open>
  \<open>exec.c\<close> with \<open>elf.h\<close>, and \<open>loaduvm\<close> of \<open>vm.c\<close>: replacing the memory of the current process by a program
  file with its arguments.  The strings of \<open>argv\<close> are lists of characters.
\<close>

subsection \<open>ELF headers\<close>

definition ELF_MAGIC :: uint where "ELF_MAGIC = 0x464C457F"
definition ELF_PROG_LOAD :: uint where "ELF_PROG_LOAD = 1"
definition MAXARG :: nat where "MAXARG = 32"

record elfhdr =
  e_magic :: uint
  e_entry :: uint
  e_phoff :: uint
  e_phnum :: ushort

record proghdr =
  ph_type :: uint
  ph_off :: uint
  ph_vaddr :: uint
  ph_filesz :: uint
  ph_memsz :: uint

text \<open>The fields that \<open>exec\<close> uses, at their offsets in the 52 bytes of \<open>struct elfhdr\<close> and the 32 bytes of \<open>struct proghdr\<close>.\<close>

definition elfhdr_of :: "uchar list \<Rightarrow> elfhdr" where
  "elfhdr_of bs = \<lparr>e_magic = get32 bs 0, e_entry = get32 bs 24, e_phoff = get32 bs 28, e_phnum = get16 bs 44\<rparr>"

definition proghdr_of :: "uchar list \<Rightarrow> proghdr" where
  "proghdr_of bs = \<lparr>ph_type = get32 bs 0, ph_off = get32 bs 4, ph_vaddr = get32 bs 8, ph_filesz = get32 bs 16,
     ph_memsz = get32 bs 20\<rparr>"

subsection \<open>Loading\<close>

function loaduvm_loop :: "'z fs_scheme devsw \<Rightarrow> uint \<Rightarrow> uint \<Rightarrow> nat \<Rightarrow> uint \<Rightarrow> nat \<Rightarrow> nat \<Rightarrow> 'z fs_scheme \<Rightarrow> (int \<times> 'z fs_scheme) outcome" where
  "loaduvm_loop dv pd addr ip offset i n s =
     (if i < n
      then let (pte, s) = walkpgdir pd (addr + of_nat i) False s
           in if pte = 0 then Inl (Panic ''loaduvm: address should exist'')
              else let pa = PTE_ADDR (load32 (mem s) pte);
                       k = min (n - i) 4096
                   in ebind (readi dv ip (offset + of_nat i) (of_nat k) s) (\<lambda>(r, bs, s).
                        let s = s\<lparr>mem := store_bytes (p2v pa) bs (mem s)\<rparr>
                        in if r \<noteq> int k then Inr (- 1, s) else loaduvm_loop dv pd addr ip offset (i + 4096) n s)
      else Inr (0, s))"
  by pat_completeness auto
termination
  by (relation "measure (\<lambda>(dv, pd, addr, ip, offset, i, n, s). n - i)") auto

declare loaduvm_loop.simps [simp del]

definition loaduvm :: "'z fs_scheme devsw \<Rightarrow> uint \<Rightarrow> uint \<Rightarrow> nat \<Rightarrow> uint \<Rightarrow> uint \<Rightarrow> 'z fs_scheme \<Rightarrow> (int \<times> 'z fs_scheme) outcome" where
  "loaduvm dv pd addr ip offset n s =
     (if addr mod PGSIZE \<noteq> 0 then Inl (Panic ''loaduvm: addr must be page aligned'')
      else loaduvm_loop dv pd addr ip offset 0 (unat n) s)"

text \<open>
  The loop over the program headers: the new size, or \<open>None\<close> for \<open>goto bad\<close>.  \<open>k\<close> headers are left.
\<close>

fun exec_load :: "'z fs_scheme devsw \<Rightarrow> uint \<Rightarrow> nat \<Rightarrow> nat \<Rightarrow> uint \<Rightarrow> uint \<Rightarrow> 'z fs_scheme \<Rightarrow> (uint option \<times> 'z fs_scheme) outcome" where
  "exec_load dv pd ip 0 off new s = Inr (Some new, s)"
| "exec_load dv pd ip (Suc k) off new s =
     ebind (readi dv ip off 32 s) (\<lambda>(r, bs, s).
       if r \<noteq> 32 then Inr (None, s)
       else let ph = proghdr_of bs
            in if ph_type ph \<noteq> ELF_PROG_LOAD then exec_load dv pd ip k (off + 32) new s
               else if ph_memsz ph < ph_filesz ph then Inr (None, s)
               else ebind (allocuvm pd new (ph_vaddr ph + ph_memsz ph) s) (\<lambda>(new, s).
                      if new = 0 then Inr (None, s)
                      else ebind (loaduvm dv pd (ph_vaddr ph) ip (ph_off ph) (ph_filesz ph) s) (\<lambda>(r, s).
                             if r < 0 then Inr (None, s) else exec_load dv pd ip k (off + 32) new s)))"

text \<open>
  Pushing the argument strings: their addresses in the order of \<open>argv\<close> and the stack pointer, or
  \<open>None\<close> for \<open>goto bad\<close>.
\<close>

fun exec_args :: "uint \<Rightarrow> nat \<Rightarrow> uchar list list \<Rightarrow> uint \<Rightarrow> 'z mach_scheme \<Rightarrow> ((uint list \<times> uint) option \<times> 'z mach_scheme) outcome" where
  "exec_args pd argc [] sp s = Inr (Some ([], sp), s)"
| "exec_args pd argc (a # argv) sp s =
     (if argc \<ge> MAXARG then Inr (None, s)
      else let sp = (sp - (of_nat (length a) + 1)) AND NOT 3
           in ebind (copyout pd sp (a @ [0]) s) (\<lambda>(r, s).
                if r < 0 then Inr (None, s)
                else ebind (exec_args pd (argc + 1) argv sp s) (\<lambda>(x, s).
                       Inr (map_option (\<lambda>(us, sp'). (sp # us, sp')) x, s))))"

definition words_bytes :: "uint list \<Rightarrow> uchar list" where
  "words_bytes ws = concat (map le32 ws)"

definition exec_bad :: "uint \<Rightarrow> nat option \<Rightarrow> 'z fs_scheme \<Rightarrow> (int \<times> 'z fs_scheme) outcome" where
  "exec_bad pd ip s =
     ebind (if pd \<noteq> 0 then freevm pd s else Inr s) (\<lambda>s.
     ebind (case ip of None \<Rightarrow> Inr s | Some ip \<Rightarrow> iunlockput ip s) (\<lambda>s. Inr (- 1, s)))"

text \<open>The part of a path behind its last slash.\<close>

definition base_name :: "uchar list \<Rightarrow> uchar list" where
  "base_name path = rev (takeWhile (\<lambda>c. c \<noteq> slash) (rev path))"

definition exec_commit :: "nat \<Rightarrow> uchar list \<Rightarrow> uint \<Rightarrow> uint \<Rightarrow> uint \<Rightarrow> uint \<Rightarrow> 'z kern_scheme \<Rightarrow> (int \<times> 'z kern_scheme) outcome" where
  "exec_commit c path pd new entry sp s =
     (let old = pgdir (ptable s c);
          s = upd_proc c (\<lambda>q. q\<lparr>pname := take 15 (base_name path), pgdir := pd, sz := new\<rparr>) s;
          s = poke (tf (ptable s c) + TF_EIP) entry s;
          s = poke (tf (ptable s c) + TF_ESP) sp s
      in ebind (switchuvm c s) (\<lambda>s. ebind (freevm old s) (\<lambda>s. Inr (0, s))))"

definition exec_stack :: "nat \<Rightarrow> uchar list \<Rightarrow> uchar list list \<Rightarrow> uint \<Rightarrow> uint \<Rightarrow> uint \<Rightarrow> 'z fs_scheme \<Rightarrow> (int \<times> 'z fs_scheme) outcome" where
  "exec_stack c path argv pd new entry s =
     (let new = PGROUNDUP new
      in ebind (allocuvm pd new (new + 2 * PGSIZE) s) (\<lambda>(new, s).
           if new = 0 then exec_bad pd None s
           else ebind (clearpteu pd (new - 2 * PGSIZE) s) (\<lambda>s.
                ebind (exec_args pd 0 argv new s) (\<lambda>(r, s).
                  case r of
                    None \<Rightarrow> exec_bad pd None s
                  | Some (us, sp) \<Rightarrow>
                      let argc = of_nat (length argv);
                          ustack = [0xffffffff, argc, sp - (argc + 1) * 4] @ us @ [0];
                          sp = sp - (3 + argc + 1) * 4
                      in ebind (copyout pd sp (words_bytes ustack) s) (\<lambda>(r, s).
                           if r < 0 then exec_bad pd None s else exec_commit c path pd new entry sp s)))))"

text \<open>
  The test \<open>readi(...) < sizeof(elf)\<close> is unsigned: a negative result passes it, and the header is then
  read from uninitialised memory.
\<close>

definition exec :: "'z fs_scheme devsw \<Rightarrow> uchar list \<Rightarrow> uchar list list \<Rightarrow> 'z fs_scheme \<Rightarrow> (int \<times> 'z fs_scheme) outcome" where
  "exec dv path argv s =
     (case curproc s of None \<Rightarrow> Inl (Undef ''proc'') | Some c \<Rightarrow>
      ebind (namei dv path s) (\<lambda>(r, s).
        case r of None \<Rightarrow> Inr (- 1, s) | Some ip \<Rightarrow>
        ebind (ilock ip s) (\<lambda>s.
        ebind (readi dv ip 0 52 s) (\<lambda>(n, bs, s).
          if of_int n < (52 :: uint) then exec_bad 0 (Some ip) s
          else if n < 0 then Inl (Undef ''exec: elf'')
          else let elf = elfhdr_of bs
               in if e_magic elf \<noteq> ELF_MAGIC then exec_bad 0 (Some ip) s
                  else ebind (setupkvm s) (\<lambda>(pd, s).
                         if pd = 0 then exec_bad 0 (Some ip) s
                         else ebind (exec_load dv pd ip (unat (e_phnum elf)) (e_phoff elf) 0 s) (\<lambda>(new, s).
                                case new of
                                  None \<Rightarrow> exec_bad pd (Some ip) s
                                | Some new \<Rightarrow>
                                    ebind (iunlockput ip s) (\<lambda>s.
                                      exec_stack c path argv pd new (e_entry elf) s)))))))"

end
