(* ===== verification/Sysfile.thy ===== *)
theory Sysfile
  imports Exec
begin

text \<open>
  The arguments of system calls (\<open>syscall.c\<close>) and the system calls on files (\<open>sysfile.c\<close>).  A user address is
  read and written through the page table of the calling process.
\<close>

subsection \<open>Arguments\<close>

definition cur :: "'z kern_scheme \<Rightarrow> proc" where
  "cur s = (case curproc s of Some c \<Rightarrow> ptable s c | None \<Rightarrow> ptable s NPROC)"

definition fetchint :: "uint \<Rightarrow> 'z kern_scheme \<Rightarrow> uint option outcome" where
  "fetchint addr s =
     (if addr \<ge> sz (cur s) \<or> addr + 4 > sz (cur s) then Inr None
      else ebind (kload32 addr s) (\<lambda>w. Inr (Some w)))"

text \<open>The characters from \<open>addr\<close> up to the first zero byte among the next \<open>k\<close>.\<close>

fun fetchstr_loop :: "nat \<Rightarrow> uint \<Rightarrow> 'z kern_scheme \<Rightarrow> uchar list option outcome" where
  "fetchstr_loop 0 a s = Inr None"
| "fetchstr_loop (Suc k) a s =
     ebind (kbyte a s) (\<lambda>b.
       if b = 0 then Inr (Some []) else ebind (fetchstr_loop k (a + 1) s) (\<lambda>r. Inr (map_option ((#) b) r)))"

definition fetchstr :: "uint \<Rightarrow> 'z kern_scheme \<Rightarrow> uchar list option outcome" where
  "fetchstr addr s =
     (if addr \<ge> sz (cur s) then Inr None else fetchstr_loop (unat (sz (cur s)) - unat addr) addr s)"

definition argint :: "nat \<Rightarrow> 'z kern_scheme \<Rightarrow> uint option outcome" where
  "argint n s = fetchint (load32 (mem s) (tf (cur s) + TF_ESP) + 4 + 4 * of_nat n) s"

definition argptr :: "nat \<Rightarrow> uint \<Rightarrow> 'z kern_scheme \<Rightarrow> uint option outcome" where
  "argptr n len s =
     ebind (argint n s) (\<lambda>r.
       case r of None \<Rightarrow> Inr None
       | Some i \<Rightarrow> if i \<ge> sz (cur s) \<or> i + len > sz (cur s) then Inr None else Inr (Some i))"

definition argstr :: "nat \<Rightarrow> 'z kern_scheme \<Rightarrow> uchar list option outcome" where
  "argstr n s = ebind (argint n s) (\<lambda>r. case r of None \<Rightarrow> Inr None | Some a \<Rightarrow> fetchstr a s)"

subsection \<open>File descriptors\<close>

definition argfd :: "nat \<Rightarrow> 'z kern_scheme \<Rightarrow> (nat \<times> nat) option outcome" where
  "argfd n s =
     ebind (argint n s) (\<lambda>r.
       case r of None \<Rightarrow> Inr None
       | Some w \<Rightarrow>
           let fd = sint w
           in if fd < 0 \<or> fd \<ge> int NOFILE then Inr None
              else (case ofile (cur s) (nat fd) of None \<Rightarrow> Inr None | Some f \<Rightarrow> Inr (Some (nat fd, f))))"

definition upd_cur :: "(proc \<Rightarrow> proc) \<Rightarrow> 'z kern_scheme \<Rightarrow> 'z kern_scheme" where
  "upd_cur f s = (case curproc s of None \<Rightarrow> s | Some c \<Rightarrow> upd_proc c f s)"

definition fdalloc :: "nat \<Rightarrow> 'z kern_scheme \<Rightarrow> int \<times> 'z kern_scheme" where
  "fdalloc f s =
     (case List.find (\<lambda>fd. ofile (cur s) fd = None) [0..<NOFILE] of
        Some fd \<Rightarrow> (int fd, upd_cur (\<lambda>q. q\<lparr>ofile := (ofile q)(fd := Some f)\<rparr>) s)
      | None \<Rightarrow> (- 1, s))"

definition sys_dup :: "'z files_scheme \<Rightarrow> (int \<times> 'z files_scheme) outcome" where
  "sys_dup s =
     ebind (argfd 0 s) (\<lambda>r.
       case r of None \<Rightarrow> Inr (- 1, s)
       | Some (_, f) \<Rightarrow>
           let (fd, s) = fdalloc f s
           in if fd < 0 then Inr (- 1, s) else ebind (filedup f s) (\<lambda>s. Inr (fd, s)))"

text \<open>The three arguments of \<open>read\<close> and \<open>write\<close>: file, address, count.\<close>

definition rw_args :: "'z kern_scheme \<Rightarrow> (nat \<times> uint \<times> int) option outcome" where
  "rw_args s =
     ebind (argfd 0 s) (\<lambda>r.
       case r of None \<Rightarrow> Inr None
       | Some (_, f) \<Rightarrow>
           ebind (argint 2 s) (\<lambda>r.
             case r of None \<Rightarrow> Inr None
             | Some n \<Rightarrow>
                 ebind (argptr 1 n s) (\<lambda>r. Inr (map_option (\<lambda>p. (f, p, sint n)) r))))"

definition sys_read :: "'z cons_scheme \<Rightarrow> (int \<times> 'z cons_scheme) outcome" where
  "sys_read s =
     ebind (rw_args s) (\<lambda>r.
       case r of None \<Rightarrow> Inr (- 1, s)
       | Some (f, p, n) \<Rightarrow>
           ebind (fileread console_devsw f n s) (\<lambda>(r, bs, s). ebind (kstores p bs s) (\<lambda>s. Inr (r, s))))"

definition sys_write :: "'z cons_scheme \<Rightarrow> (int \<times> 'z cons_scheme) outcome" where
  "sys_write s =
     ebind (rw_args s) (\<lambda>r.
       case r of None \<Rightarrow> Inr (- 1, s)
       | Some (f, p, n) \<Rightarrow>
           ebind (kbytes p (nat n) s) (\<lambda>bs. filewrite console_devsw f bs n s))"

definition sys_close :: "'z files_scheme \<Rightarrow> (int \<times> 'z files_scheme) outcome" where
  "sys_close s =
     ebind (argfd 0 s) (\<lambda>r.
       case r of None \<Rightarrow> Inr (- 1, s)
       | Some (fd, f) \<Rightarrow>
           ebind (fileclose f (upd_cur (\<lambda>q. q\<lparr>ofile := (ofile q)(fd := None)\<rparr>) s)) (\<lambda>s. Inr (0, s)))"

text \<open>The 20 bytes of \<open>struct stat\<close>, with the padding that aligns its fields.\<close>

definition stat_bytes :: "stat \<Rightarrow> uchar list" where
  "stat_bytes st = le16 (st_type st) @ [0, 0] @ le32 (st_dev st) @ le32 (st_ino st) @ le16 (st_nlink st) @ [0, 0] @ le32 (st_size st)"

definition sys_fstat :: "'z files_scheme \<Rightarrow> (int \<times> 'z files_scheme) outcome" where
  "sys_fstat s =
     ebind (argfd 0 s) (\<lambda>r.
       case r of None \<Rightarrow> Inr (- 1, s)
       | Some (_, f) \<Rightarrow>
           ebind (argptr 1 20 s) (\<lambda>r.
             case r of None \<Rightarrow> Inr (- 1, s)
             | Some p \<Rightarrow>
                 ebind (filestat f s) (\<lambda>(st, s).
                   case st of None \<Rightarrow> Inr (- 1, s)
                   | Some st \<Rightarrow> ebind (kstores p (stat_bytes st) s) (\<lambda>s. Inr (0, s)))))"

subsection \<open>Names\<close>

text \<open>The label \<open>bad\<close> of \<open>sys_link\<close>.\<close>

definition link_bad :: "nat \<Rightarrow> 'z fs_scheme \<Rightarrow> (int \<times> 'z fs_scheme) outcome" where
  "link_bad ip s =
     ebind (ilock ip s) (\<lambda>s.
     ebind (iupdate ip (upd_inode ip (\<lambda>n. n\<lparr>inlink := inlink n - 1\<rparr>) s)) (\<lambda>s.
     ebind (iunlockput ip s) (\<lambda>s.
     ebind (commit_trans s) (\<lambda>s. Inr (- 1, s)))))"

definition sys_link :: "'z cons_scheme \<Rightarrow> (int \<times> 'z cons_scheme) outcome" where
  "sys_link s =
     ebind (argstr 0 s) (\<lambda>old. ebind (if old = None then Inr None else argstr 1 s) (\<lambda>new.
       case (old, new) of
         (Some old, Some new) \<Rightarrow>
           ebind (namei console_devsw old s) (\<lambda>(r, s).
             case r of None \<Rightarrow> Inr (- 1, s) | Some ip \<Rightarrow>
             ebind (begin_trans s) (\<lambda>s.
             ebind (ilock ip s) (\<lambda>s.
               if itype (inodes s ip) = T_DIR
               then ebind (iunlockput ip s) (\<lambda>s. ebind (commit_trans s) (\<lambda>s. Inr (- 1, s)))
               else ebind (iupdate ip (upd_inode ip (\<lambda>n. n\<lparr>inlink := inlink n + 1\<rparr>) s)) (\<lambda>s.
                    ebind (iunlock ip s) (\<lambda>s.
                    ebind (nameiparent console_devsw new s) (\<lambda>(r, s).
                      case r of None \<Rightarrow> link_bad ip s | Some (dp, name) \<Rightarrow>
                      ebind (ilock dp s) (\<lambda>s.
                      ebind (if idev (inodes s dp) \<noteq> idev (inodes s ip) then Inr (- 1, s)
                             else dirlink console_devsw dp name (inum (inodes s ip)) s) (\<lambda>(r, s).
                        ebind (iunlockput dp s) (\<lambda>s.
                          if r < 0 then link_bad ip s
                          else ebind (iput ip s) (\<lambda>s. ebind (commit_trans s) (\<lambda>s. Inr (0, s))))))))))))
       | _ \<Rightarrow> Inr (- 1, s)))"

fun isdirempty_loop :: "'z fs_scheme devsw \<Rightarrow> nat \<Rightarrow> nat list \<Rightarrow> 'z fs_scheme \<Rightarrow> (bool \<times> 'z fs_scheme) outcome" where
  "isdirempty_loop dv dp [] s = Inr (True, s)"
| "isdirempty_loop dv dp (off # offs) s =
     ebind (readi dv dp (of_nat off) 16 s) (\<lambda>(r, bs, s).
       if r \<noteq> 16 then Inl (Panic ''isdirempty: readi'')
       else if d_inum (dirent_of bs) \<noteq> 0 then Inr (False, s) else isdirempty_loop dv dp offs s)"

definition isdirempty :: "'z fs_scheme devsw \<Rightarrow> nat \<Rightarrow> 'z fs_scheme \<Rightarrow> (bool \<times> 'z fs_scheme) outcome" where
  "isdirempty dv dp s = isdirempty_loop dv dp (drop 2 (dir_offs (isize (inodes s dp)))) s"

definition unlink_bad :: "nat \<Rightarrow> 'z fs_scheme \<Rightarrow> (int \<times> 'z fs_scheme) outcome" where
  "unlink_bad dp s =
     ebind (iunlockput dp s) (\<lambda>s. ebind (commit_trans s) (\<lambda>s. Inr (- 1, s)))"

text \<open>The part of \<open>sys_unlink\<close> behind the checks: erase the entry and drop the link.\<close>

definition unlink_entry :: "nat \<Rightarrow> nat \<Rightarrow> uint \<Rightarrow> 'z cons_scheme \<Rightarrow> (int \<times> 'z cons_scheme) outcome" where
  "unlink_entry dp ip off s =
     ebind (writei console_devsw dp (replicate 16 0) off 16 s) (\<lambda>(r, s).
       if r \<noteq> 16 then Inl (Panic ''unlink: writei'')
       else ebind (if itype (inodes s ip) = T_DIR
                   then iupdate dp (upd_inode dp (\<lambda>n. n\<lparr>inlink := inlink n - 1\<rparr>) s) else Inr s) (\<lambda>s.
            ebind (iunlockput dp s) (\<lambda>s.
            ebind (iupdate ip (upd_inode ip (\<lambda>n. n\<lparr>inlink := inlink n - 1\<rparr>) s)) (\<lambda>s.
            ebind (iunlockput ip s) (\<lambda>s.
            ebind (commit_trans s) (\<lambda>s. Inr (0, s)))))))"

definition sys_unlink :: "'z cons_scheme \<Rightarrow> (int \<times> 'z cons_scheme) outcome" where
  "sys_unlink s =
     ebind (argstr 0 s) (\<lambda>path.
       case path of None \<Rightarrow> Inr (- 1, s) | Some path \<Rightarrow>
       ebind (nameiparent console_devsw path s) (\<lambda>(r, s).
         case r of None \<Rightarrow> Inr (- 1, s) | Some (dp, name) \<Rightarrow>
         ebind (begin_trans s) (\<lambda>s.
         ebind (ilock dp s) (\<lambda>s.
           if namecmp name (bytes_of ''.'') = 0 \<or> namecmp name (bytes_of ''..'') = 0 then unlink_bad dp s
           else ebind (dirlookup console_devsw dp name s) (\<lambda>(r, s).
                  case r of None \<Rightarrow> unlink_bad dp s | Some (ip, off) \<Rightarrow>
                  ebind (ilock ip s) (\<lambda>s.
                    if sint (inlink (inodes s ip)) < 1 then Inl (Panic ''unlink: nlink < 1'')
                    else ebind (if itype (inodes s ip) = T_DIR then isdirempty console_devsw ip s else Inr (True, s)) (\<lambda>(e, s).
                           if \<not> e then ebind (iunlockput ip s) (unlink_bad dp)
                           else unlink_entry dp ip off s)))))))"

text \<open>\<open>create\<close> once the directory is locked and does not hold the name.\<close>

definition create_new :: "nat \<Rightarrow> uchar list \<Rightarrow> ushort \<Rightarrow> ushort \<Rightarrow> ushort \<Rightarrow> 'z cons_scheme \<Rightarrow> (nat option \<times> 'z cons_scheme) outcome" where
  "create_new dp name ty major minor s =
     ebind (ialloc (idev (inodes s dp)) ty s) (\<lambda>(ip, s).
     ebind (ilock ip s) (\<lambda>s.
     ebind (iupdate ip (upd_inode ip (\<lambda>n. n\<lparr>imajor := major, iminor := minor, inlink := 1\<rparr>) s)) (\<lambda>s.
     ebind (if ty = T_DIR
            then ebind (iupdate dp (upd_inode dp (\<lambda>n. n\<lparr>inlink := inlink n + 1\<rparr>) s)) (\<lambda>s.
                 ebind (dirlink console_devsw ip (bytes_of ''.'') (inum (inodes s ip)) s) (\<lambda>(r, s).
                   if r < 0 then Inl (Panic ''create dots'')
                   else ebind (dirlink console_devsw ip (bytes_of ''..'') (inum (inodes s dp)) s) (\<lambda>(r, s).
                          if r < 0 then Inl (Panic ''create dots'') else Inr s)))
            else Inr s) (\<lambda>s.
     ebind (dirlink console_devsw dp name (inum (inodes s ip)) s) (\<lambda>(r, s).
       if r < 0 then Inl (Panic ''create: dirlink'')
       else ebind (iunlockput dp s) (\<lambda>s. Inr (Some ip, s)))))))"

definition create :: "uchar list \<Rightarrow> ushort \<Rightarrow> ushort \<Rightarrow> ushort \<Rightarrow> 'z cons_scheme \<Rightarrow> (nat option \<times> 'z cons_scheme) outcome" where
  "create path ty major minor s =
     ebind (nameiparent console_devsw path s) (\<lambda>(r, s).
       case r of None \<Rightarrow> Inr (None, s) | Some (dp, name) \<Rightarrow>
       ebind (ilock dp s) (\<lambda>s.
       ebind (dirlookup console_devsw dp name s) (\<lambda>(r, s).
         case r of
           Some (ip, _) \<Rightarrow>
             ebind (iunlockput dp s) (\<lambda>s.
             ebind (ilock ip s) (\<lambda>s.
               if ty = T_FILE \<and> itype (inodes s ip) = T_FILE then Inr (Some ip, s)
               else ebind (iunlockput ip s) (\<lambda>s. Inr (None, s))))
         | None \<Rightarrow> create_new dp name ty major minor s)))"

subsection \<open>Opening\<close>

text \<open>\<open>sys_open\<close> with the inode locked: allocate a file and a descriptor.\<close>

definition open_inode :: "nat \<Rightarrow> uint \<Rightarrow> 'z files_scheme \<Rightarrow> (int \<times> 'z files_scheme) outcome" where
  "open_inode ip omode s =
     (let (f, s) = filealloc s
      in case f of
           None \<Rightarrow> ebind (iunlockput ip s) (\<lambda>s. Inr (- 1, s))
         | Some f \<Rightarrow>
             let (fd, s) = fdalloc f s
             in if fd < 0
                then ebind (fileclose f s) (\<lambda>s. ebind (iunlockput ip s) (\<lambda>s. Inr (- 1, s)))
                else ebind (iunlock ip s) (\<lambda>s.
                       Inr (fd, upd_file f (\<lambda>q. q\<lparr>ftype := FD_INODE, fip := ip, foff := 0,
                                  freadable := omode AND O_WRONLY = 0,
                                  fwritable := omode AND O_WRONLY \<noteq> 0 \<or> omode AND O_RDWR \<noteq> 0\<rparr>) s)))"

definition sys_open :: "'z cons_scheme \<Rightarrow> (int \<times> 'z cons_scheme) outcome" where
  "sys_open s =
     ebind (argstr 0 s) (\<lambda>path. ebind (if path = None then Inr None else argint 1 s) (\<lambda>omode.
       case (path, omode) of
         (Some path, Some omode) \<Rightarrow>
           if omode AND O_CREATE \<noteq> 0
           then ebind (begin_trans s) (\<lambda>s.
                ebind (create path T_FILE 0 0 s) (\<lambda>(ip, s).
                ebind (commit_trans s) (\<lambda>s.
                  case ip of None \<Rightarrow> Inr (- 1, s) | Some ip \<Rightarrow> open_inode ip omode s)))
           else ebind (namei console_devsw path s) (\<lambda>(ip, s).
                  case ip of None \<Rightarrow> Inr (- 1, s) | Some ip \<Rightarrow>
                  ebind (ilock ip s) (\<lambda>s.
                    if itype (inodes s ip) = T_DIR \<and> omode \<noteq> O_RDONLY
                    then ebind (iunlockput ip s) (\<lambda>s. Inr (- 1, s))
                    else open_inode ip omode s))
       | _ \<Rightarrow> Inr (- 1, s)))"

text \<open>The common end of \<open>sys_mkdir\<close> and \<open>sys_mknod\<close>.\<close>

definition made :: "nat option \<times> 'z fs_scheme \<Rightarrow> (int \<times> 'z fs_scheme) outcome" where
  "made r = (case r of
       (None, s) \<Rightarrow> ebind (commit_trans s) (\<lambda>s. Inr (- 1, s))
     | (Some ip, s) \<Rightarrow> ebind (iunlockput ip s) (\<lambda>s. ebind (commit_trans s) (\<lambda>s. Inr (0, s))))"

definition sys_mkdir :: "'z cons_scheme \<Rightarrow> (int \<times> 'z cons_scheme) outcome" where
  "sys_mkdir s =
     ebind (begin_trans s) (\<lambda>s.
     ebind (argstr 0 s) (\<lambda>path.
       case path of None \<Rightarrow> made (None, s) | Some path \<Rightarrow> ebind (create path T_DIR 0 0 s) made))"

definition sys_mknod :: "'z cons_scheme \<Rightarrow> (int \<times> 'z cons_scheme) outcome" where
  "sys_mknod s =
     ebind (begin_trans s) (\<lambda>s.
     ebind (argstr 0 s) (\<lambda>path.
       case path of None \<Rightarrow> made (None, s) | Some path \<Rightarrow>
       ebind (argint 1 s) (\<lambda>major.
         case major of None \<Rightarrow> made (None, s) | Some major \<Rightarrow>
         ebind (argint 2 s) (\<lambda>minor.
           case minor of None \<Rightarrow> made (None, s) | Some minor \<Rightarrow>
           ebind (create path T_DEV (ucast major) (ucast minor) s) made))))"

definition sys_chdir :: "'z cons_scheme \<Rightarrow> (int \<times> 'z cons_scheme) outcome" where
  "sys_chdir s =
     ebind (argstr 0 s) (\<lambda>path.
       case path of None \<Rightarrow> Inr (- 1, s) | Some path \<Rightarrow>
       ebind (namei console_devsw path s) (\<lambda>(ip, s).
         case ip of None \<Rightarrow> Inr (- 1, s) | Some ip \<Rightarrow>
         ebind (ilock ip s) (\<lambda>s.
           if itype (inodes s ip) \<noteq> T_DIR then ebind (iunlockput ip s) (\<lambda>s. Inr (- 1, s))
           else ebind (iunlock ip s) (\<lambda>s.
                ebind (case cwd (cur s) of None \<Rightarrow> Inl (Undef ''proc->cwd'') | Some d \<Rightarrow> iput d s) (\<lambda>s.
                  Inr (0, upd_cur (\<lambda>q. q\<lparr>cwd := Some ip\<rparr>) s))))))"

text \<open>The loop of \<open>sys_exec\<close> over the argument vector; \<open>k\<close> is \<open>NELEM(argv) - i\<close>.\<close>

fun exec_argv :: "nat \<Rightarrow> uint \<Rightarrow> 'z kern_scheme \<Rightarrow> uchar list list option outcome" where
  "exec_argv 0 ua s = Inr None"
| "exec_argv (Suc k) ua s =
     ebind (fetchint ua s) (\<lambda>r.
       case r of None \<Rightarrow> Inr None
       | Some w \<Rightarrow>
           if w = 0 then Inr (Some [])
           else ebind (fetchstr w s) (\<lambda>r.
                  case r of None \<Rightarrow> Inr None
                  | Some a \<Rightarrow> ebind (exec_argv k (ua + 4) s) (\<lambda>r. Inr (map_option ((#) a) r))))"

definition sys_exec :: "'z cons_scheme \<Rightarrow> (int \<times> 'z cons_scheme) outcome" where
  "sys_exec s =
     ebind (argstr 0 s) (\<lambda>path. ebind (if path = None then Inr None else argint 1 s) (\<lambda>uargv.
       case (path, uargv) of
         (Some path, Some uargv) \<Rightarrow>
           ebind (exec_argv MAXARG uargv s) (\<lambda>argv.
             case argv of None \<Rightarrow> Inr (- 1, s) | Some argv \<Rightarrow> exec console_devsw path argv s)
       | _ \<Rightarrow> Inr (- 1, s)))"

text \<open>\<open>fd0\<close> is reset when the second descriptor cannot be allocated.\<close>

definition sys_pipe :: "'z files_scheme \<Rightarrow> (int \<times> 'z files_scheme) outcome" where
  "sys_pipe s =
     ebind (argptr 0 8 s) (\<lambda>p.
       case p of None \<Rightarrow> Inr (- 1, s) | Some p \<Rightarrow>
       ebind (pipealloc s) (\<lambda>(r, s).
         case r of None \<Rightarrow> Inr (- 1, s) | Some (rfl, wfl) \<Rightarrow>
         let (fd0, s) = fdalloc rfl s;
             (fd1, s) = (if fd0 < 0 then (- 1, s) else fdalloc wfl s)
         in if fd0 < 0 \<or> fd1 < 0
            then let s = (if fd0 \<ge> 0 then upd_cur (\<lambda>q. q\<lparr>ofile := (ofile q)(nat fd0 := None)\<rparr>) s else s)
                 in ebind (fileclose rfl s) (\<lambda>s. ebind (fileclose wfl s) (\<lambda>s. Inr (- 1, s)))
            else ebind (kstores p (le32 (of_int fd0) @ le32 (of_int fd1)) s) (\<lambda>s. Inr (0, s))))"

end
