(* ===== verification/Kbd.thy ===== *)
theory Kbd
  imports Console
begin

text \<open>
  \<open>kbd.c\<close> and the key maps of \<open>kbd.h\<close>: scan codes to characters, with the state of the modifier keys.
  The byte that the controller's data port delivers is an argument, \<open>None\<close> when the status port
  announces none.
\<close>

subsection \<open>Tables\<close>

definition SHIFT :: uint where "SHIFT = 1"
definition CTL :: uint where "CTL = 2"
definition ALT :: uint where "ALT = 4"
definition CAPSLOCK :: uint where "CAPSLOCK = 8"
definition NUMLOCK :: uint where "NUMLOCK = 16"
definition SCROLLLOCK :: uint where "SCROLLLOCK = 32"
definition E0ESC :: uint where "E0ESC = 64"

definition shiftcode :: "nat \<Rightarrow> uint" where
  "shiftcode d = (if d = 0x1D \<or> d = 0x9D then CTL else if d = 0x2A \<or> d = 0x36 then SHIFT
     else if d = 0x38 \<or> d = 0xB8 then ALT else 0)"

definition togglecode :: "nat \<Rightarrow> uint" where
  "togglecode d = (if d = 0x3A then CAPSLOCK else if d = 0x45 then NUMLOCK else if d = 0x46 then SCROLLLOCK else 0)"

text \<open>An array with leading entries, further designated entries, and zeros elsewhere.\<close>

definition keymap :: "uchar list \<Rightarrow> (nat \<times> uchar) list \<Rightarrow> nat \<Rightarrow> uchar" where
  "keymap xs ds d = (case map_of ds d of Some c \<Rightarrow> c | None \<Rightarrow> if d < length xs then xs ! d else 0)"

definition normalmap :: "nat \<Rightarrow> uchar" where
  "normalmap = keymap
     [0, 27, 49, 50, 51, 52, 53, 54, 55, 56, 57, 48, 45, 61, 8, 9,
      113, 119, 101, 114, 116, 121, 117, 105, 111, 112, 91, 93, 10, 0, 97, 115,
      100, 102, 103, 104, 106, 107, 108, 59, 39, 96, 0, 92, 122, 120, 99, 118,
      98, 110, 109, 44, 46, 47, 0, 42, 0, 32, 0, 0, 0, 0, 0, 0,
      0, 0, 0, 0, 0, 0, 0, 55, 56, 57, 45, 52, 53, 54, 43, 49,
      50, 51, 48, 46, 0, 0, 0, 0]
     [(0x9C, 0xA), (0xB5, 0x2F), (0xC8, 0xE2), (0xD0, 0xE3), (0xC9, 0xE6), (0xD1, 0xE7), (0xCB, 0xE4), (0xCD, 0xE5), (0x97, 0xE0), (0xCF, 0xE1), (0xD2, 0xE8), (0xD3, 0xE9)]"

definition shiftmap :: "nat \<Rightarrow> uchar" where
  "shiftmap = keymap
     [0, 27, 33, 64, 35, 36, 37, 94, 38, 42, 40, 41, 95, 43, 8, 9,
      81, 87, 69, 82, 84, 89, 85, 73, 79, 80, 123, 125, 10, 0, 65, 83,
      68, 70, 71, 72, 74, 75, 76, 58, 34, 126, 0, 124, 90, 88, 67, 86,
      66, 78, 77, 60, 62, 63, 0, 42, 0, 32, 0, 0, 0, 0, 0, 0,
      0, 0, 0, 0, 0, 0, 0, 55, 56, 57, 45, 52, 53, 54, 43, 49,
      50, 51, 48, 46, 0, 0, 0, 0]
     [(0x9C, 0xA), (0xB5, 0x2F), (0xC8, 0xE2), (0xD0, 0xE3), (0xC9, 0xE6), (0xD1, 0xE7), (0xCB, 0xE4), (0xCD, 0xE5), (0x97, 0xE0), (0xCF, 0xE1), (0xD2, 0xE8), (0xD3, 0xE9)]"

definition ctlmap :: "nat \<Rightarrow> uchar" where
  "ctlmap = keymap
     [0, 0, 0, 0, 0, 0, 0, 0, 0, 0, 0, 0, 0, 0, 0, 0,
      17, 23, 5, 18, 20, 25, 21, 9, 15, 16, 0, 0, 13, 0, 1, 19,
      4, 6, 7, 8, 10, 11, 12, 0, 0, 0, 0, 28, 26, 24, 3, 22,
      2, 14, 13, 0, 0, 239, 0, 0]
     [(0x9C, 0xD), (0xB5, 0xEF), (0xC8, 0xE2), (0xD0, 0xE3), (0xC9, 0xE6), (0xD1, 0xE7), (0xCB, 0xE4), (0xCD, 0xE5), (0x97, 0xE0), (0xCF, 0xE1), (0xD2, 0xE8), (0xD3, 0xE9)]"

subsection \<open>Routines\<close>

definition charcode :: "uint \<Rightarrow> nat \<Rightarrow> uchar" where
  "charcode sh = (if sh = 0 then normalmap else if sh = SHIFT then shiftmap else ctlmap)"

definition swap_case :: "uchar \<Rightarrow> uchar" where
  "swap_case c = (if 97 \<le> c \<and> c \<le> 122 then c - 32 else if 65 \<le> c \<and> c \<le> 90 then c + 32 else c)"

text \<open>The result and the new modifier state.\<close>

definition kbdgetc :: "uchar option \<Rightarrow> uint \<Rightarrow> int \<times> uint" where
  "kbdgetc inp shift =
     (case inp of
        None \<Rightarrow> (- 1, shift)
      | Some b \<Rightarrow>
          let d = unat b
          in if d = 0xE0 then (0, shift OR E0ESC)
             else if d \<ge> 0x80
             then let d = (if shift AND E0ESC \<noteq> 0 then d else d - 0x80)
                  in (0, shift AND NOT (shiftcode d OR E0ESC))
             else let (d, shift) = (if shift AND E0ESC \<noteq> 0 then (d + 0x80, shift AND NOT E0ESC) else (d, shift));
                      shift = (shift OR shiftcode d) XOR togglecode d;
                      c = charcode (shift AND (CTL OR SHIFT)) d
                  in (uint (if shift AND CAPSLOCK \<noteq> 0 then swap_case c else c), shift))"

text \<open>What \<open>getc\<close> returns to \<open>consoleintr\<close> for a sequence of scan codes, and the state after it.\<close>

fun kbd_chars :: "uchar list \<Rightarrow> uint \<Rightarrow> uchar list \<times> uint" where
  "kbd_chars [] shift = ([], shift)"
| "kbd_chars (b # bs) shift =
     (let (c, shift) = kbdgetc (Some b) shift; (cs, shift) = kbd_chars bs shift in (of_int c # cs, shift))"

definition kbdintr :: "uchar list \<Rightarrow> uint \<Rightarrow> 'z cons_scheme \<Rightarrow> (uint \<times> 'z cons_scheme) outcome" where
  "kbdintr codes shift s =
     (let (cs, shift) = kbd_chars codes shift
      in ebind (consoleintr cs s) (\<lambda>s. Inr (shift, s)))"

end
