(* ===== verification/Trap.thy ===== *)
theory Trap
  imports Sysfile Kbd
begin

text \<open>
  \<open>sysproc.c\<close>, the table and dispatcher of \<open>syscall.c\<close>, and \<open>trap.c\<close>.  What a trap does in the end is
  \<open>after\<close>: it returns to the interrupted code, the process exits, or it gives up the CPU.
\<close>

subsection \<open>System calls on processes\<close>

definition sys_fork :: "'z files_scheme \<Rightarrow> (int \<times> 'z files_scheme) outcome" where
  "sys_fork s = fork s"

definition sys_wait :: "'z files_scheme \<Rightarrow> (int \<times> 'z files_scheme) outcome" where
  "sys_wait s = wait s"

definition sys_kill :: "'z kern_scheme \<Rightarrow> (int \<times> 'z kern_scheme) outcome" where
  "sys_kill s =
     ebind (argint 0 s) (\<lambda>r. case r of None \<Rightarrow> Inr (- 1, s) | Some n \<Rightarrow> Inr (kill (sint n) s))"

definition sys_getpid :: "'z kern_scheme \<Rightarrow> (int \<times> 'z kern_scheme) outcome" where
  "sys_getpid s = Inr (pid (cur s), s)"

definition sys_sbrk :: "'z kern_scheme \<Rightarrow> (int \<times> 'z kern_scheme) outcome" where
  "sys_sbrk s =
     ebind (argint 0 s) (\<lambda>r.
       case r of None \<Rightarrow> Inr (- 1, s)
       | Some n \<Rightarrow>
           let addr = sz (cur s)
           in ebind (growproc (sint n) s) (\<lambda>(r, s). if r < 0 then Inr (- 1, s) else Inr (sint addr, s)))"

text \<open>
  \<open>sys_sleep\<close>: the first argument is \<open>ticks0\<close>, the time when the call began.  It sleeps until \<open>n\<close> ticks have
  passed; the comparison is unsigned, so a negative \<open>n\<close> is a long time.
\<close>

definition sys_sleep_from :: "uint \<Rightarrow> uint \<Rightarrow> 'z kern_scheme \<Rightarrow> (int \<times> 'z kern_scheme) outcome" where
  "sys_sleep_from ticks0 n s =
     (if ticks s - ticks0 < n
      then if proc_killed s then Inr (- 1, s) else Inl (Sleep ChTicks)
      else Inr (0, s))"

definition sys_sleep :: "'z kern_scheme \<Rightarrow> (int \<times> 'z kern_scheme) outcome" where
  "sys_sleep s =
     ebind (argint 0 s) (\<lambda>r. case r of None \<Rightarrow> Inr (- 1, s) | Some n \<Rightarrow> sys_sleep_from (ticks s) n s)"

definition sys_uptime :: "'z kern_scheme \<Rightarrow> (int \<times> 'z kern_scheme) outcome" where
  "sys_uptime s = Inr (sint (ticks s), s)"

subsection \<open>The dispatcher\<close>

text \<open>\<open>Exit\<close> is the call that does not come back.\<close>

datatype 's entry = Call "'s \<Rightarrow> (int \<times> 's) outcome" | Exit

definition syscalls :: "int \<Rightarrow> 'z cons_scheme entry option" where
  "syscalls num =
     (if num = 1 then Some (Call sys_fork) else if num = 2 then Some Exit
      else if num = 3 then Some (Call sys_wait) else if num = 4 then Some (Call sys_pipe)
      else if num = 5 then Some (Call sys_read) else if num = 6 then Some (Call sys_kill)
      else if num = 7 then Some (Call sys_exec) else if num = 8 then Some (Call sys_fstat)
      else if num = 9 then Some (Call sys_chdir) else if num = 10 then Some (Call sys_dup)
      else if num = 11 then Some (Call sys_getpid) else if num = 12 then Some (Call sys_sbrk)
      else if num = 13 then Some (Call sys_sleep) else if num = 14 then Some (Call sys_uptime)
      else if num = 15 then Some (Call sys_open) else if num = 16 then Some (Call sys_write)
      else if num = 17 then Some (Call sys_mknod) else if num = 18 then Some (Call sys_unlink)
      else if num = 19 then Some (Call sys_link) else if num = 20 then Some (Call sys_mkdir)
      else if num = 21 then Some (Call sys_close) else None)"

datatype after = Back | Gone | Yield

text \<open>The result goes into the saved \<open>%eax\<close> of the trap frame that the process has at that point.\<close>

definition syscall :: "'z cons_scheme \<Rightarrow> (after \<times> 'z cons_scheme) outcome" where
  "syscall s =
     (let num = sint (load32 (mem s) (tf (cur s) + TF_EAX))
      in case syscalls num of
           Some (Call f) \<Rightarrow> ebind (f s) (\<lambda>(r, s). Inr (Back, poke (tf (cur s) + TF_EAX) (of_int r) s))
         | Some Exit \<Rightarrow> ebind (exit s) (\<lambda>s. Inr (Gone, s))
         | None \<Rightarrow>
             ebind (cprintf ''%d %s: unknown sys call %d'' [AWord (of_int (pid (cur s))), AStr (Some (pname (cur s))), AWord (of_int num)] s) (\<lambda>s.
             ebind (putcs [newline] s) (\<lambda>s.
               Inr (Back, poke (tf (cur s) + TF_EAX) (- 1) s))))"

subsection \<open>Traps\<close>

definition T_SYSCALL :: uint where "T_SYSCALL = 64"
definition T_PGFLT :: uint where "T_PGFLT = 14"
definition T_IRQ0 :: uint where "T_IRQ0 = 32"
definition IRQ_TIMER :: uint where "IRQ_TIMER = 0"
definition IRQ_KBD :: uint where "IRQ_KBD = 1"
definition IRQ_COM1 :: uint where "IRQ_COM1 = 4"
definition IRQ_IDE :: uint where "IRQ_IDE = 14"
definition IRQ_SPURIOUS :: uint where "IRQ_SPURIOUS = 31"

text \<open>
  The interrupt descriptor table of 256 gates, given the entry points in \<open>vectors\<close>.
\<close>

definition tvinit :: "(nat \<Rightarrow> uint) \<Rightarrow> gatedesc list \<Rightarrow> gatedesc list" where
  "tvinit vectors idt =
     (let idt = fold (\<lambda>i idt. idt[i := SETGATE False (of_nat (SEG_KCODE * 8)) (vectors i) 0]) [0..<256] idt
      in idt[unat T_SYSCALL := SETGATE True (of_nat (SEG_KCODE * 8)) (vectors (unat T_SYSCALL)) DPL_USER])"

definition killed_exit :: "'z files_scheme \<Rightarrow> (after \<times> 'z files_scheme) outcome" where
  "killed_exit s = (if proc_killed s then ebind (exit s) (\<lambda>s. Inr (Gone, s)) else Inr (Back, s))"

definition trap_syscall :: "uint \<Rightarrow> 'z cons_scheme \<Rightarrow> (after \<times> 'z cons_scheme) outcome" where
  "trap_syscall f s =
     ebind (killed_exit s) (\<lambda>(a, s).
       if a = Gone then Inr (a, s)
       else ebind (syscall (upd_cur (\<lambda>q. q\<lparr>tf := f\<rparr>) s)) (\<lambda>(a, s).
              if a = Gone then Inr (a, s) else killed_exit s))"

text \<open>
  The \<open>default\<close> case: in the kernel the machine stops, in user mode the process is marked.  The
  kernel's message dereferences \<open>proc\<close>, which may be null there.
\<close>

definition from_kernel :: "uint \<Rightarrow> 'z mach_scheme \<Rightarrow> bool" where
  "from_kernel f s \<longleftrightarrow> load32 (mem s) (f + TF_CS) AND 3 = 0"

definition trap_default :: "nat \<Rightarrow> uint \<Rightarrow> 'z cons_scheme \<Rightarrow> 'z cons_scheme outcome" where
  "trap_default cpuid f s =
     (if curproc s = None then Inl (Undef ''trap: proc'')
      else if from_kernel f s then Inl (Panic ''trap'')
      else ebind (cprintf ''pid %d %s: trap %d err %d on cpu %d eip 0x%x addr 0x%x--kill proc''
                    [AWord (of_int (pid (cur s))), AStr (Some (pname (cur s))), AWord (load32 (mem s) (f + TF_TRAPNO)),
                     AWord (load32 (mem s) (f + TF_ERR)), AWord (of_nat cpuid), AWord (load32 (mem s) (f + TF_EIP)), AWord (cr2 (hw s))] s) (\<lambda>s.
           ebind (putcs [newline] s) (\<lambda>s.
             Inr (upd_cur (\<lambda>q. q\<lparr>killed := True\<rparr>) s))))"

text \<open>
  The page fault case.  The error code is read from \<open>proc->tf\<close>, the frame of the last entry from user
  mode, and the upper bound is inclusive.
\<close>

definition trap_pgflt :: "nat \<Rightarrow> uint \<Rightarrow> 'z cons_scheme \<Rightarrow> 'z cons_scheme outcome" where
  "trap_pgflt cpuid f s =
     (if curproc s = None then Inl (Undef ''trap: proc'')
      else if load32 (mem s) (tf (cur s) + TF_ERR) AND PTE_W \<noteq> 0
      then if cr2 (hw s) \<le> sz (cur s) then trapCOW s
           else Inl (Panic ''trap.c--->trap()   Acceso a memoria fuera del proceso...'')
      else trap_default cpuid f s)"

text \<open>
  The interrupt cases.  The characters that the keyboard and the serial port deliver are
  arguments: the scan codes with the modifier state, and the received bytes.  The acknowledgement
  to the interrupt controller has no effect on the state.
\<close>

definition trap_device :: "nat \<Rightarrow> uchar list \<Rightarrow> uint \<Rightarrow> uchar list \<Rightarrow> uint \<Rightarrow> 'z cons_scheme \<Rightarrow> 'z cons_scheme outcome" where
  "trap_device cpuid codes shift serial f s =
     (let n = load32 (mem s) (f + TF_TRAPNO)
      in if n = T_IRQ0 + IRQ_TIMER then Inr (if cpuid = 0 then wakeup (Some ChTicks) (s\<lparr>ticks := ticks s + 1\<rparr>) else s)
         else if n = T_IRQ0 + IRQ_IDE then Inr s
         else if n = T_IRQ0 + IRQ_IDE + 1 then Inr s
         else if n = T_IRQ0 + IRQ_KBD then ebind (kbdintr codes shift s) (\<lambda>(_, s). Inr s)
         else if n = T_IRQ0 + IRQ_COM1 then consoleintr serial s
         else if n = T_IRQ0 + 7 \<or> n = T_IRQ0 + IRQ_SPURIOUS
         then ebind (cprintf ''cpu%d: spurious interrupt at %x:%x''
                       [AWord (of_nat cpuid), AWord (load32 (mem s) (f + TF_CS) AND 0xFFFF), AWord (load32 (mem s) (f + TF_EIP))] s)
                (putcs [newline])
         else if n = T_PGFLT then trap_pgflt cpuid f s
         else trap_default cpuid f s)"

definition in_user :: "uint \<Rightarrow> 'z mach_scheme \<Rightarrow> bool" where
  "in_user f s \<longleftrightarrow> load32 (mem s) (f + TF_CS) AND 3 = DPL_USER"

text \<open>A \<open>Yield\<close> is followed by a last check of \<open>killed\<close> when the process runs again, \<open>trap_tail\<close>.\<close>

definition trap_tail :: "uint \<Rightarrow> 'z files_scheme \<Rightarrow> (after \<times> 'z files_scheme) outcome" where
  "trap_tail f s =
     (if curproc s \<noteq> None \<and> proc_killed s \<and> in_user f s then ebind (exit s) (\<lambda>s. Inr (Gone, s)) else Inr (Back, s))"

definition trap :: "nat \<Rightarrow> uchar list \<Rightarrow> uint \<Rightarrow> uchar list \<Rightarrow> uint \<Rightarrow> 'z cons_scheme \<Rightarrow> (after \<times> 'z cons_scheme) outcome" where
  "trap cpuid codes shift serial f s =
     (if load32 (mem s) (f + TF_TRAPNO) = T_SYSCALL then trap_syscall f s
      else ebind (trap_device cpuid codes shift serial f s) (\<lambda>s.
           ebind (trap_tail f s) (\<lambda>(a, s).
             if a = Gone then Inr (a, s)
             else if curproc s \<noteq> None \<and> state (cur s) = RUNNING \<and> load32 (mem s) (f + TF_TRAPNO) = T_IRQ0 + IRQ_TIMER
             then Inr (Yield, s)
             else Inr (Back, s))))"

subsection \<open>Properties\<close>

lemma gate_offset_SETGATE: "gate_offset (SETGATE istrap sel off d) = off"
proof (rule bit_word_eqI)
  fix n assume n: "n < LENGTH(32)"
  show "bit (gate_offset (SETGATE istrap sel off d)) n = bit off n"
  proof (cases "n < 16")
    case True
    then show ?thesis by (simp add: gate_offset_def SETGATE_def masks bit_simps)
  next
    case False
    then show ?thesis using n by (auto simp: gate_offset_def SETGATE_def masks bit_simps)
  qed
qed

text \<open>The gates of the table; only the one of the system calls may be raised by a user program.\<close>

lemma tvinit_nth:
  assumes "length idt = 256" "i < 256"
  shows "gate_offset (tvinit v idt ! i) = v i" "gd_dpl (tvinit v idt ! i) = (if i = 64 then 3 else 0)"
    "gd_type (tvinit v idt ! i) = (if i = 64 then 15 else 14)"
proof -
  have "256 \<le> length idt" using assms by simp
  note fl = fold_list_update [OF this, where f = "\<lambda>i. SETGATE False (of_nat (SEG_KCODE * 8)) (v i) 0"]
  have "tvinit v idt ! i = (if i = 64 then SETGATE True (of_nat (SEG_KCODE * 8)) (v i) DPL_USER
      else SETGATE False (of_nat (SEG_KCODE * 8)) (v i) 0)"
    using assms fl(1) fl(2) [of i] by (simp add: tvinit_def Let_def T_SYSCALL_def nth_list_update)
  then show "gate_offset (tvinit v idt ! i) = v i" "gd_dpl (tvinit v idt ! i) = (if i = 64 then 3 else 0)"
    "gd_type (tvinit v idt ! i) = (if i = 64 then 15 else 14)"
    by (simp_all add: gate_offset_SETGATE) (simp_all add: SETGATE_def DPL_USER_def STS_TG32_def STS_IG32_def)
qed

text \<open>
  C39 (error).  A page fault that the kernel takes itself stops the machine.  The handler looks at the error code of the last
  entry from user mode; while it works for a system call that code does not report a write, so a store of the kernel
  to a page that is read-only because it is shared, a \<open>read\<close> into it for instance, is not passed to
  \<open>trapCOW\<close> but ends in a panic, although the address belongs to the process.
\<close>

theorem kernel_write_fault_panics:
  assumes "curproc s = Some c" "load32 (mem s) (f + TF_TRAPNO) = T_PGFLT" "from_kernel f s"
    "load32 (mem s) (tf (ptable s c) + TF_ERR) AND PTE_W = 0"
  shows "trap cpuid codes shift serial f s = Inl (Panic ''trap'')"
  using assms
  by (simp add: trap_def trap_device_def trap_pgflt_def trap_default_def cur_def Let_def
      T_PGFLT_def T_SYSCALL_def T_IRQ0_def IRQ_TIMER_def IRQ_KBD_def IRQ_COM1_def IRQ_IDE_def IRQ_SPURIOUS_def)

definition boot_cons :: cons where
  "boot_cons =
     files.extend
       (pipes.extend boot_pipes
         (files.fields (\<lambda>_. \<lparr>ftype = FD_NONE, fref = 0, freadable = False, fwritable = False, fpipe = 0, fip = 0, foff = 0\<rparr>)))
       (cons.fields (\<lambda>_. 0) 0 [] False (replicate INPUT_BUF 0) 0 0 0)"

definition faulting :: cons where
  "faulting = boot_cons\<lparr>curproc := Some 0, ptable := \<lambda>_. zero_proc, mem := store32 (\<lambda>_. 0) 0x80300030 14\<rparr>"

theorem kernel_write_fault_panics_witness:
  "trap 0 [] 0 [] 0x80300000 faulting = Inl (Panic ''trap'')"
proof (rule kernel_write_fault_panics)
  show "curproc faulting = Some 0" by (simp add: faulting_def)
  show "load32 (mem faulting) (0x80300000 + TF_TRAPNO) = T_PGFLT"
    by (simp add: faulting_def TF_TRAPNO_def T_PGFLT_def load32_store32)
  show "from_kernel 0x80300000 faulting"
    by (simp add: from_kernel_def faulting_def TF_CS_def load32_def store32_def of_le32_def)
  show "load32 (mem faulting) (tf (ptable faulting 0) + TF_ERR) AND PTE_W = 0"
    by (simp add: faulting_def TF_ERR_def zero_proc_def load32_def store32_def of_le32_def)
qed

end
