(* ===== verification/Ulib.thy ===== *)
theory Ulib
  imports Console
begin

text \<open>
  The C library of the user programs: \<open>user/ulib.c\<close>, \<open>user/printf.c\<close> and \<open>user/wc.c\<close>.
  A C string is the list of its bytes before the terminating NUL, a buffer is the list of all its
  bytes, and a descriptor to read from is the list of the results of the successive calls of
  \<open>read\<close>: \<open>Some\<close> of the bytes that one call delivers, none at the end of the file, or
  \<open>None\<close> for the error return.  After the last result in the list the file is at its end.
\<close>

subsection \<open>Strings\<close>

text \<open>
  \<open>strchr\<close> in a buffer: the offset of the first occurrence before the NUL, which itself is
  never found; without a NUL the search reads past the end.
\<close>

fun strchr :: "uchar list \<Rightarrow> uchar \<Rightarrow> nat option outcome" where
  "strchr [] c = Inl (Undef ''strchr'')"
| "strchr (x # s) c =
     (if x = 0 then Inr None else if x = c then Inr (Some 0)
      else ebind (strchr s c) (\<lambda>r. Inr (map_option Suc r)))"

fun strcmp :: "uchar list \<Rightarrow> uchar list \<Rightarrow> int" where
  "strcmp [] [] = 0"
| "strcmp [] (y # q) = - uint y"
| "strcmp (x # p) [] = uint x"
| "strcmp (x # p) (y # q) = (if x = y then strcmp p q else uint x - uint y)"

text \<open>\<open>strlen\<close> of a buffer; without a NUL it reads past the end.\<close>

fun strlen_buf :: "uchar list \<Rightarrow> nat outcome" where
  "strlen_buf [] = Inl (Undef ''strlen'')"
| "strlen_buf (x # s) = (if x = 0 then Inr 0 else ebind (strlen_buf s) (\<lambda>n. Inr (Suc n)))"

text \<open>\<open>strcpy\<close> of a string into a buffer.\<close>

definition strcpy :: "uchar list \<Rightarrow> uchar list \<Rightarrow> uchar list outcome" where
  "strcpy dst t =
     (if length t < length dst then Inr (t @ [0] @ drop (length t + 1) dst) else Inl (Undef ''strcpy''))"

text \<open>
  A value of type \<open>int\<close>: a computation that leaves its range has no defined result.  \<open>atoi\<close>
  evaluates \<open>n*10 + *s++ - '0'\<close> from the left, and the sum with the character is formed before
  \<open>'0'\<close> is taken off.
\<close>

definition cint :: "int \<Rightarrow> int outcome" where
  "cint x = (if - (2 ^ 31) \<le> x \<and> x < 2 ^ 31 then Inr x else Inl (Undef ''signed overflow''))"

fun atoi_loop :: "int \<Rightarrow> uchar list \<Rightarrow> int outcome" where
  "atoi_loop n [] = Inr n"
| "atoi_loop n (c # s) =
     (if chr CHR ''0'' \<le> c \<and> c \<le> chr CHR ''9''
      then ebind (cint (n * 10)) (\<lambda>m. ebind (cint (m + uint c)) (\<lambda>m. ebind (cint (m - 48)) (\<lambda>n. atoi_loop n s)))
      else Inr n)"

definition atoi :: "uchar list \<Rightarrow> int outcome" where
  "atoi s = atoi_loop 0 s"

text \<open>\<open>memmove\<close> inside one array, byte by byte from the front whatever the overlap.\<close>

fun umemmove :: "uchar list \<Rightarrow> nat \<Rightarrow> nat \<Rightarrow> nat \<Rightarrow> uchar list outcome" where
  "umemmove a dst src 0 = Inr a"
| "umemmove a dst src (Suc n) =
     (if dst < length a \<and> src < length a then umemmove (a[dst := a ! src]) (Suc dst) (Suc src) n
      else Inl (Undef ''memmove''))"

lemma strchr_found:
  assumes "0 \<notin> set s" "c \<notin> set s" "c \<noteq> 0"
  shows "strchr (s @ c # t) c = Inr (Some (length s))"
  using assms by (induction s) auto

lemma strchr_none:
  assumes "0 \<notin> set s" "c \<notin> set s"
  shows "strchr (s @ 0 # t) c = Inr None"
  using assms by (induction s) auto

lemma strchr_SomeD: "strchr s c = Inr (Some k) \<Longrightarrow> k < length s \<and> s ! k = c \<and> 0 \<notin> set (take (Suc k) s)"
  by (induction s arbitrary: k) (auto simp: outcome_simps split: if_splits)

subsection \<open>Reading\<close>

type_synonym reads = "uchar list option list"

text \<open>\<open>read (fd, \<dots>, n)\<close>: a call never delivers more than it is asked for.\<close>

definition uread :: "nat \<Rightarrow> reads \<Rightarrow> uchar list option \<times> reads" where
  "uread n rs = (case rs of [] \<Rightarrow> (Some [], [])
                 | None # rs \<Rightarrow> (None, rs)
                 | Some bs # rs \<Rightarrow>
                     (Some (take n bs), if n < length bs then Some (drop n bs) # rs else rs))"

text \<open>\<open>gets\<close>: the bytes it stores before the terminating NUL.\<close>

fun gets_loop :: "nat \<Rightarrow> reads \<Rightarrow> uchar list \<times> reads" where
  "gets_loop 0 rs = ([], rs)"
| "gets_loop (Suc k) rs =
     (case uread 1 rs of
        (Some [c], rs) \<Rightarrow>
          if c = newline \<or> c = 13 then ([c], rs)
          else let (cs, rs) = gets_loop k rs in (c # cs, rs)
      | (_, rs) \<Rightarrow> ([], rs))"

definition gets :: "nat \<Rightarrow> reads \<Rightarrow> uchar list \<times> reads" where
  "gets mx rs = gets_loop (mx - 1) rs"

subsection \<open>Formatted output\<close>

definition udigit :: "nat \<Rightarrow> uchar" where
  "udigit d = map chr ''0123456789ABCDEF'' ! d"

function udigits_rev :: "nat \<Rightarrow> nat \<Rightarrow> uchar list" where
  "udigits_rev base x =
     udigit (x mod base) # (if x div base = 0 \<or> base < 2 then [] else udigits_rev base (x div base))"
  by pat_completeness auto
termination
  by (relation "measure (\<lambda>(base, x). x)") (auto intro!: div_less_dividend gr0I simp: not_less)

declare udigits_rev.simps [simp del]

definition uprintint :: "uint \<Rightarrow> nat \<Rightarrow> bool \<Rightarrow> uchar list" where
  "uprintint xx base sg =
     (let neg = sg \<and> sint xx < 0;
          x = (if neg then - xx else xx)
      in rev (udigits_rev base (unat x) @ (if neg then [chr CHR ''-''] else [])))"

text \<open>
  \<open>printf\<close>: the bytes it writes, one \<open>write\<close> each.  The flag says whether the last
  character was a \<open>%\<close>.
\<close>

fun printf_loop :: "bool \<Rightarrow> uchar list \<Rightarrow> carg list \<Rightarrow> uchar list outcome" where
  "printf_loop st [] args = Inr []"
| "printf_loop False (c # fmt) args =
     (if c = chr CHR ''%'' then printf_loop True fmt args
      else ebind (printf_loop False fmt args) (\<lambda>out. Inr (c # out)))"
| "printf_loop True (c # fmt) args =
     (if c = chr CHR ''d''
      then (case args of AWord w # args \<Rightarrow>
              ebind (printf_loop False fmt args) (\<lambda>out. Inr (uprintint w 10 True @ out))
            | _ \<Rightarrow> Inl (Undef ''printf''))
      else if c = chr CHR ''x'' \<or> c = chr CHR ''p''
      then (case args of AWord w # args \<Rightarrow>
              ebind (printf_loop False fmt args) (\<lambda>out. Inr (uprintint w 16 False @ out))
            | _ \<Rightarrow> Inl (Undef ''printf''))
      else if c = chr CHR ''s''
      then (case args of
              AStr None # args \<Rightarrow>
                ebind (printf_loop False fmt args) (\<lambda>out. Inr (map chr ''(null)'' @ out))
            | AStr (Some cs) # args \<Rightarrow>
                ebind (printf_loop False fmt args) (\<lambda>out. Inr (cs @ out))
            | _ \<Rightarrow> Inl (Undef ''printf''))
      else if c = chr CHR ''c''
      then (case args of AWord w # args \<Rightarrow>
              ebind (printf_loop False fmt args) (\<lambda>out. Inr (ucast w # out))
            | _ \<Rightarrow> Inl (Undef ''printf''))
      else if c = chr CHR ''%'' then ebind (printf_loop False fmt args) (\<lambda>out. Inr (c # out))
      else ebind (printf_loop False fmt args) (\<lambda>out. Inr (chr CHR ''%'' # c # out)))"

definition printf :: "string \<Rightarrow> carg list \<Rightarrow> uchar list outcome" where
  "printf fmt args = printf_loop False (map chr fmt) args"

subsection \<open>Counting words\<close>

record wcst =
  wc_l :: uint
  wc_w :: uint
  wc_c :: uint
  inword :: bool

definition wc_byte :: "uchar \<Rightarrow> wcst \<Rightarrow> wcst" where
  "wc_byte b s =
     (let s = s\<lparr>wc_c := wc_c s + 1\<rparr>;
          s = (if b = newline then s\<lparr>wc_l := wc_l s + 1\<rparr> else s)
      in if strchr [32, 13, 9, 10, 11, 0] b \<noteq> Inr None then s\<lparr>inword := False\<rparr>
         else if \<not> inword s then s\<lparr>wc_w := wc_w s + 1, inword := True\<rparr>
         else s)"

text \<open>
  \<open>wc\<close>: it reads 512 bytes at a time until a read delivers nothing or fails, and prints the
  counts or a message.
\<close>

function wc_loop :: "reads \<Rightarrow> wcst \<Rightarrow> bool \<times> wcst" where
  "wc_loop rs s =
     (case uread 512 rs of
        (None, rs) \<Rightarrow> (False, s)
      | (Some [], rs) \<Rightarrow> (True, s)
      | (Some bs, rs') \<Rightarrow> wc_loop rs' (fold wc_byte bs s))"
  by pat_completeness auto

definition reads_left :: "reads \<Rightarrow> nat" where
  "reads_left rs = (\<Sum>r\<leftarrow>rs. case r of None \<Rightarrow> 1 | Some bs \<Rightarrow> length bs + 1)"

lemma uread_left:
  assumes "uread n rs = (Some bs, rs')" and "bs \<noteq> []"
  shows "reads_left rs' < reads_left rs"
  using assms by (auto simp: uread_def reads_left_def split: list.splits option.splits if_splits)

termination wc_loop
  by (relation "measure (\<lambda>(rs, s). reads_left rs)") (auto dest!: uread_left [OF sym])

declare wc_loop.simps [simp del]

definition wc :: "reads \<Rightarrow> uchar list \<Rightarrow> uchar list outcome" where
  "wc rs name =
     (let (ok, s) = wc_loop rs \<lparr>wc_l = 0, wc_w = 0, wc_c = 0, inword = False\<rparr>
      in if ok then printf (''%d %d %d %s'' @ [CHR 0x0A]) [AWord (wc_l s), AWord (wc_w s), AWord (wc_c s), AStr (Some name)]
         else printf (''wc: read error'' @ [CHR 0x0A]) [])"

subsection \<open>Numbers\<close>

text \<open>The value of decimal digits, the least significant first.\<close>

fun rev_value :: "uchar list \<Rightarrow> nat" where
  "rev_value [] = 0"
| "rev_value (c # cs) = (unat c - 48) + 10 * rev_value cs"

definition decimal :: "uchar \<Rightarrow> bool" where
  "decimal c \<longleftrightarrow> 48 \<le> c \<and> c \<le> 57"

lemma udigit_decimal:
  assumes "d < 10"
  shows "udigit d = of_nat (48 + d)" "decimal (udigit d)" "unat (udigit d) = 48 + d"
proof -
  have "d \<in> {0, 1, 2, 3, 4, 5, 6, 7, 8, 9}" using assms by auto
  then show "udigit d = of_nat (48 + d)" "decimal (udigit d)" "unat (udigit d) = 48 + d"
    by (auto simp: udigit_def chr_def decimal_def)
qed

lemma digit_udigit: "d < 10 \<Longrightarrow> digit d = udigit d"
proof -
  assume "d < 10"
  then have "d \<in> {0, 1, 2, 3, 4, 5, 6, 7, 8, 9}" by auto
  then show ?thesis by (auto simp: udigit_def digit_def)
qed

lemma udigits_decimal: "c \<in> set (udigits_rev 10 x) \<Longrightarrow> decimal c"
  by (induction "10 :: nat" x rule: udigits_rev.induct)
    (subst (asm) (2) udigits_rev.simps, auto intro: udigit_decimal(2) split: if_splits)

lemma udigits_value: "rev_value (udigits_rev 10 x) = x"
proof (induction "10 :: nat" x rule: udigits_rev.induct)
  case (1 x)
  show ?case
    by (subst udigits_rev.simps) (use 1 in \<open>auto simp: udigit_decimal(3)\<close>)
qed

lemma udigits_length: "x < 10 ^ Suc k \<Longrightarrow> length (udigits_rev 10 x) \<le> Suc k"
proof (induction k arbitrary: x)
  case 0
  then show ?case by (simp add: udigits_rev.simps)
next
  case (Suc k)
  have "x div 10 < 10 ^ Suc k" using Suc.prems by (simp add: div_less_iff_less_mult)
  with Suc.IH show ?case by (subst udigits_rev.simps) auto
qed

lemma digits_udigits: "digits_rev 10 x = udigits_rev 10 x"
proof (induction "10 :: nat" x rule: udigits_rev.induct)
  case (1 x)
  show ?case
    by (subst digits_rev.simps, subst udigits_rev.simps) (use 1 in \<open>auto simp: digit_udigit\<close>)
qed

lemma atoi_digit:
  assumes "decimal c" "0 \<le> n"
  shows "n * 10 + int (unat c - 48) + 48 < 2 ^ 31 \<Longrightarrow> atoi_loop n (c # s) = atoi_loop (n * 10 + int (unat c - 48)) s"
    and "2 ^ 31 \<le> n * 10 + int (unat c - 48) + 48 \<Longrightarrow> \<exists>m. atoi_loop n (c # s) = Inl (Undef m)"
proof -
  have c: "48 \<le> unat c" "chr CHR ''0'' \<le> c \<and> c \<le> chr CHR ''9''"
    using assms(1) by (auto simp: decimal_def word_le_nat_alt chr_def)
  then have u: "uint c = int (unat c - 48) + 48" by simp
  show "atoi_loop n (c # s) = atoi_loop (n * 10 + int (unat c - 48)) s" if "n * 10 + int (unat c - 48) + 48 < 2 ^ 31"
    using that assms(2) c(2) unfolding atoi_loop.simps u by (simp add: cint_def)
  show "\<exists>m. atoi_loop n (c # s) = Inl (Undef m)" if "2 ^ 31 \<le> n * 10 + int (unat c - 48) + 48"
    using that assms(2) c(2) unfolding atoi_loop.simps u by (simp add: cint_def)
qed

lemma atoi_rev:
  assumes "\<forall>c \<in> set cs. decimal c" "rev_value cs + 48 < 2 ^ 31"
  shows "atoi_loop 0 (rev cs @ ds) = atoi_loop (int (rev_value cs)) ds"
  using assms
proof (induction cs arbitrary: ds)
  case (Cons c cs)
  then have "atoi_loop 0 (rev (c # cs) @ ds) = atoi_loop (int (rev_value cs)) (c # ds)" by simp
  also have "\<dots> = atoi_loop (int (rev_value (c # cs))) ds"
    by (subst atoi_digit(1)) (use Cons.prems in \<open>auto simp: algebra_simps\<close>)
  finally show ?case .
qed simp

text \<open>The decimal text of a number is read back, or the last digit overflows.\<close>

lemma atoi_udigits:
  shows "x + 48 < 2 ^ 31 \<Longrightarrow> atoi (rev (udigits_rev 10 x)) = Inr (int x)"
    and "2 ^ 31 \<le> x + 48 \<Longrightarrow> x < 2 ^ 31 \<Longrightarrow> \<exists>m. atoi (rev (udigits_rev 10 x)) = Inl (Undef m)"
proof -
  have dec: "\<forall>c \<in> set (udigits_rev 10 y). decimal c" for y by (simp add: udigits_decimal)
  show "atoi (rev (udigits_rev 10 x)) = Inr (int x)" if "x + 48 < 2 ^ 31"
    using atoi_rev [OF dec, of x "[]"] that by (simp add: atoi_def udigits_value)
  assume x: "2 ^ 31 \<le> x + 48" "x < 2 ^ 31"
  let ?c = "udigit (x mod 10)"
  have d: "decimal ?c" "unat ?c - 48 = x mod 10" using udigit_decimal [of "x mod 10"] by simp_all
  have "udigits_rev 10 x = ?c # udigits_rev 10 (x div 10)" using x by (subst udigits_rev.simps) auto
  then have "atoi (rev (udigits_rev 10 x)) = atoi_loop (int (x div 10)) [?c]"
    using atoi_rev [OF dec, of "x div 10" "[?c]"] x by (simp add: atoi_def udigits_value)
  moreover have "int (x div 10) * 10 + int (x mod 10) = int x" by presburger
  ultimately show "\<exists>m. atoi (rev (udigits_rev 10 x)) = Inl (Undef m)"
    using atoi_digit(2) [OF d(1), of "int (x div 10)" "[]"] x d(2) by simp
qed

lemma unat_sint:
  fixes w :: "32 word"
  shows "0 \<le> sint w \<Longrightarrow> int (unat w) = sint w"
    and "- (2 ^ 31) < sint w \<Longrightarrow> sint w < 0 \<Longrightarrow> int (unat (- w)) = - sint w"
proof -
  have s: "sint x = (if uint x < 2 ^ 31 then uint x else uint x - 2 ^ 32)" for x :: "32 word"
  proof -
    have "sint x = (uint x + 2 ^ 31) mod 2 ^ 32 - 2 ^ 31"
      by (simp add: sint_uint signed_take_bit_eq_take_bit_shift take_bit_eq_mod)
    moreover have "(uint x + 2 ^ 31) mod 2 ^ 32 = uint x + 2 ^ 31 - 2 ^ 32" if "\<not> uint x < 2 ^ 31"
      using that uint_lt2p [of x] by (subst mod_pos_geq) simp_all
    ultimately show ?thesis by simp
  qed
  show "int (unat w) = sint w" if "0 \<le> sint w" using that s [of w] uint_lt2p [of w] by (auto split: if_splits)
  show "int (unat (- w)) = - sint w" if "- (2 ^ 31) < sint w" "sint w < 0"
    using that s [of w] uint_lt2p [of w] by (auto simp: uint_word_ariths zmod_zminus1_eq_if split: if_splits)
qed

lemma wc_loop_fold:
  assumes "\<forall>r \<in> set rs. \<exists>b bs. r = Some (b # bs)"
  shows "wc_loop rs s = (True, fold wc_byte (concat (map the rs)) s)"
  using assms
proof (induction rs s rule: wc_loop.induct)
  case (1 rs s)
  show ?case
  proof (cases rs)
    case Nil
    then show ?thesis by (simp add: wc_loop.simps uread_def)
  next
    case (Cons r rs')
    then obtain b bs where r: "r = Some (b # bs)" using "1.prems" by auto
    let ?c = "take 512 (b # bs)"
    define rs2 where "rs2 = snd (uread 512 rs)"
    have u: "uread 512 rs = (Some ?c, rs2)"
      and ok: "\<forall>r \<in> set rs2. \<exists>b bs. r = Some (b # bs)"
      and cat: "concat (map the rs) = ?c @ concat (map the rs2)"
      using "1.prems" Cons r
      by (auto simp: rs2_def uread_def drop_Cons' neq_Nil_conv [symmetric] simp flip: append_assoc)
    obtain d ds where d: "?c = d # ds" by (cases ?c) auto
    have "wc_loop rs2 (fold wc_byte (d # ds) s) = (True, fold wc_byte (concat (map the rs2)) (fold wc_byte (d # ds) s))"
      using "1.IH" [OF u [symmetric] refl d] ok by blast
    then show ?thesis
      unfolding cat by (subst wc_loop.simps) (simp only: u d prod.case option.case list.case fold_append o_apply)
  qed
qed



subsection \<open>Words\<close>

definition blank :: "uchar \<Rightarrow> bool" where
  "blank b \<longleftrightarrow> b \<in> {32, 13, 9, 10, 11}"

text \<open>The positions at which a word begins.\<close>

definition word_starts :: "uchar list \<Rightarrow> nat set" where
  "word_starts bs = {i. i < length bs \<and> \<not> blank (bs ! i) \<and> (i = 0 \<or> blank (bs ! (i - 1)))}"

lemma word_starts_snoc:
  "word_starts (bs @ [b]) =
     word_starts bs \<union> (if \<not> blank b \<and> (bs = [] \<or> blank (last bs)) then {length bs} else {})"
  by (cases "bs = []") (auto simp: word_starts_def nth_append last_conv_nth less_Suc_eq)

lemma word_starts_new: "finite (word_starts bs)" "length bs \<notin> word_starts bs"
  by (simp_all add: word_starts_def)

lemma wc_bytes:
  "fold wc_byte bs \<lparr>wc_l = 0, wc_w = 0, wc_c = 0, inword = False\<rparr> =
     \<lparr>wc_l = of_nat (count_list bs newline), wc_w = of_nat (card (word_starts bs)),
      wc_c = of_nat (length bs), inword = (bs \<noteq> [] \<and> \<not> blank (last bs))\<rparr>"
proof (induction bs rule: rev_induct)
  case (snoc b bs)
  have "strchr [32, 13, 9, 10, 11, 0] b \<noteq> Inr None \<longleftrightarrow> blank b"
    by (auto simp: blank_def)
  then show ?case
    using snoc word_starts_new [of bs]
    by (auto simp: wc_byte_def Let_def word_starts_snoc newline_def blank_def)
qed (simp add: word_starts_def)

text \<open>
  C37.  \<open>wc\<close> counts newlines, words and bytes of the whole input (modulo the size of an
  \<open>int\<close>), however \<open>read\<close> cuts the input into pieces: a word begins at a byte that is not
  white space and is the first one or follows white space.
\<close>

theorem wc_counts:
  assumes "\<forall>r \<in> set rs. \<exists>b bs. r = Some (b # bs)"
  shows "wc_loop rs \<lparr>wc_l = 0, wc_w = 0, wc_c = 0, inword = False\<rparr> =
           (True, \<lparr>wc_l = of_nat (count_list (concat (map the rs)) newline),
                   wc_w = of_nat (card (word_starts (concat (map the rs)))),
                   wc_c = of_nat (length (concat (map the rs))),
                   inword = (concat (map the rs) \<noteq> [] \<and> \<not> blank (last (concat (map the rs))))\<rparr>)"
  by (simp only: wc_loop_fold [OF assms] wc_bytes)

theorem wc_counts_witness:
  "snd (wc_loop [Some [97, 32, 98], Some [98, 10]] \<lparr>wc_l = 0, wc_w = 0, wc_c = 0, inword = False\<rparr>) =
     \<lparr>wc_l = 1, wc_w = 2, wc_c = 5, inword = False\<rparr>"
proof -
  have "word_starts [97, 32, 98, 98, 10] = {0, 2}"
    by (auto simp: word_starts_def blank_def nth_Cons' less_Suc_eq split: if_splits)
  then show ?thesis
    by (subst wc_counts) (auto simp: newline_def blank_def)
qed

end
