(* ===== verification/Grep.thy ===== *)
theory Grep
  imports Ulib
begin

text \<open>
  \<open>user/grep.c\<close>: the regular expression matcher and the loop that cuts the input into lines in
  a fixed buffer.  The matcher is shown equivalent to the language that the pattern denotes.
\<close>

subsection \<open>The matcher\<close>

text \<open>Patterns and texts are C strings: the bytes before the NUL.\<close>

function (sequential) matchhere :: "uchar list \<Rightarrow> uchar list \<Rightarrow> bool"
  and matchstar :: "uchar \<Rightarrow> uchar list \<Rightarrow> uchar list \<Rightarrow> bool" where
  "matchhere [] str = True"
| "matchhere (c # re) str =
     (if re \<noteq> [] \<and> hd re = chr CHR ''*'' then matchstar c (tl re) str
      else if c = chr CHR ''$'' \<and> re = [] then str = []
      else if str \<noteq> [] \<and> (c = chr CHR ''.'' \<or> c = hd str) then matchhere re (tl str)
      else False)"
| "matchstar c re str =
     (if matchhere re str then True
      else if str \<noteq> [] \<and> (hd str = c \<or> c = chr CHR ''.'') then matchstar c re (tl str)
      else False)"
  by pat_completeness auto
termination
  by (relation "measures [\<lambda>x. case x of Inl (re, str) \<Rightarrow> length re | Inr (c, re, str) \<Rightarrow> length re,
                          \<lambda>x. case x of Inl (re, str) \<Rightarrow> length str | Inr (c, re, str) \<Rightarrow> length str,
                          \<lambda>x. case x of Inl _ \<Rightarrow> 0 | Inr _ \<Rightarrow> 1]")
    (auto simp: neq_Nil_conv)

fun match_loop :: "uchar list \<Rightarrow> uchar list \<Rightarrow> bool" where
  "match_loop re [] = matchhere re []"
| "match_loop re (t # str) = (if matchhere re (t # str) then True else match_loop re str)"

definition match :: "uchar list \<Rightarrow> uchar list \<Rightarrow> bool" where
  "match re str =
     (case re of c # re' \<Rightarrow> if c = chr CHR ''^'' then matchhere re' str else match_loop re str
      | [] \<Rightarrow> match_loop re str)"

subsection \<open>The main loop\<close>

text \<open>
  One pass over the buffer: each newline found from \<open>p\<close> on is overwritten by a NUL, the line
  before it is matched, and the newline is put back only when the line matches and is written.
\<close>

function grep_lines :: "uchar list \<Rightarrow> uchar list \<Rightarrow> nat \<Rightarrow> uchar list
    \<Rightarrow> (uchar list \<times> nat \<times> uchar list) outcome" where
  "grep_lines pattern buf p out =
     ebind (strchr (drop p buf) newline) (\<lambda>r.
       case r of
         None \<Rightarrow> Inr (buf, p, out)
       | Some k \<Rightarrow>
           let q = p + k;
               buf = buf[q := 0];
               line = take k (drop p buf)
           in if match pattern line
              then let buf = buf[q := newline] in grep_lines pattern buf (q + 1) (out @ take (k + 1) (drop p buf))
              else grep_lines pattern buf (q + 1) out)"
  by pat_completeness auto
termination
  by (relation "measure (\<lambda>(pattern, buf, p, out). length buf - p)")
    (auto dest!: strchr_SomeD)

declare grep_lines.simps [simp del]

text \<open>
  The loop around \<open>read\<close>: \<open>m\<close> is the number of bytes kept from the previous pass.  A negative
  \<open>m\<close> makes \<open>read\<close> store before the buffer.
\<close>

function grep_loop :: "uchar list \<Rightarrow> reads \<Rightarrow> uchar list \<Rightarrow> int \<Rightarrow> uchar list
    \<Rightarrow> (uchar list \<times> uchar list) outcome" where
  "grep_loop pattern rs buf m out =
     (if m < 0 then Inl (Undef ''read'')
      else case uread (length buf - nat m) rs of
        (Some (b # bs), rs) \<Rightarrow>
          let buf = take (nat m) buf @ (b # bs) @ drop (nat m + length (b # bs)) buf;
              m = m + int (length (b # bs))
          in ebind (grep_lines pattern buf 0 out) (\<lambda>(buf, p, out).
               let m = (if p = 0 then 0 else m)
               in if m > 0
                  then let m = m - int p
                       in ebind (umemmove buf 0 p (nat m)) (\<lambda>buf. grep_loop pattern rs buf m out)
                  else grep_loop pattern rs buf m out)
      | _ \<Rightarrow> Inr (buf, out))"
  by pat_completeness auto
termination
  by (relation "measure (\<lambda>(pattern, rs, buf, m, out). reads_left rs)")
    (auto dest!: uread_left [OF sym])

declare grep_loop.simps [simp del]

text \<open>\<open>buf\<close> is a global variable: it keeps its contents from one file to the next.\<close>

definition grep :: "uchar list \<Rightarrow> reads \<Rightarrow> uchar list \<Rightarrow> (uchar list \<times> uchar list) outcome" where
  "grep pattern rs buf = grep_loop pattern rs buf 0 []"

fun grep_files :: "uchar list \<Rightarrow> (uchar list \<Rightarrow> reads option) \<Rightarrow> uchar list list \<Rightarrow> uchar list
    \<Rightarrow> uchar list outcome" where
  "grep_files pattern opens [] buf = Inr []"
| "grep_files pattern opens (name # names) buf =
     (case opens name of
        None \<Rightarrow> printf (''grep: cannot open %s'' @ [CHR 0x0A]) [AStr (Some name)]
      | Some rs \<Rightarrow>
          ebind (grep pattern rs buf) (\<lambda>(buf, out).
            ebind (grep_files pattern opens names buf) (\<lambda>rest. Inr (out @ rest))))"

text \<open>\<open>main\<close>: what it writes to the standard output and to the standard error.\<close>

definition grep_main :: "uchar list list \<Rightarrow> reads \<Rightarrow> (uchar list \<Rightarrow> reads option)
    \<Rightarrow> (uchar list \<times> uchar list) outcome" where
  "grep_main argv stdin opens =
     (case argv of
        _ # pattern # [] \<Rightarrow>
          ebind (grep pattern stdin (replicate 1024 0)) (\<lambda>(buf, out). Inr (out, []))
      | _ # pattern # names \<Rightarrow>
          ebind (grep_files pattern opens names (replicate 1024 0)) (\<lambda>out. Inr (out, []))
      | _ \<Rightarrow> ebind (printf (''usage: grep pattern [file ...]'' @ [CHR 0x0A]) []) (\<lambda>err. Inr ([], err)))"

subsection \<open>The language of a pattern\<close>

text \<open>
  A pattern is a sequence of items, each a set of bytes that is taken once or any number of
  times, with an optional anchor at either end.
\<close>

datatype item = One "uchar set" | Many "uchar set"

definition class_of :: "uchar \<Rightarrow> uchar set" where
  "class_of c = (if c = chr CHR ''.'' then UNIV else {c})"

text \<open>The items of a pattern, and whether it ends in an anchor.\<close>

function (sequential) parse :: "uchar list \<Rightarrow> item list \<times> bool" where
  "parse [] = ([], False)"
| "parse (c # re) =
     (if re \<noteq> [] \<and> hd re = chr CHR ''*''
      then let (items, anchor) = parse (tl re) in (Many (class_of c) # items, anchor)
      else if c = chr CHR ''$'' \<and> re = [] then ([], True)
      else let (items, anchor) = parse re in (One (class_of c) # items, anchor))"
  by pat_completeness auto
termination by (relation "measure length") (auto simp: neq_Nil_conv)

fun lang :: "item list \<Rightarrow> uchar list set" where
  "lang [] = {[]}"
| "lang (One A # items) = {a # w | a w. a \<in> A \<and> w \<in> lang items}"
| "lang (Many A # items) = {u @ w | u w. set u \<subseteq> A \<and> w \<in> lang items}"

definition matches :: "item list \<times> bool \<Rightarrow> uchar list \<Rightarrow> bool" where
  "matches p str \<longleftrightarrow> (\<exists>v w. str = v @ w \<and> v \<in> lang (fst p) \<and> (snd p \<longrightarrow> w = []))"

lemma matches_nil: "matches ([], anchor) str \<longleftrightarrow> \<not> anchor \<or> str = []"
  by (auto simp: matches_def)

lemma matches_one:
  "matches (One A # items, anchor) str \<longleftrightarrow>
     str \<noteq> [] \<and> hd str \<in> A \<and> matches (items, anchor) (tl str)"
  by (cases str) (auto simp: matches_def Cons_eq_append_conv)

lemma lang_many: "w \<in> lang (Many A # items) \<longleftrightarrow>
    w \<in> lang items \<or> (\<exists>a w'. w = a # w' \<and> a \<in> A \<and> w' \<in> lang (Many A # items))"
proof
  assume "w \<in> lang (Many A # items)"
  then obtain u v where uv: "w = u @ v" "set u \<subseteq> A" "v \<in> lang items" by auto
  then show "w \<in> lang items \<or> (\<exists>a w'. w = a # w' \<and> a \<in> A \<and> w' \<in> lang (Many A # items))"
    by (cases u) auto
next
  assume "w \<in> lang items \<or> (\<exists>a w'. w = a # w' \<and> a \<in> A \<and> w' \<in> lang (Many A # items))"
  then show "w \<in> lang (Many A # items)"
  proof (elim disjE exE conjE)
    assume "w \<in> lang items"
    then have "w = [] @ w \<and> set [] \<subseteq> A \<and> w \<in> lang items" by simp
    then show ?thesis unfolding lang.simps by blast
  next
    fix a w' assume *: "w = a # w'" "a \<in> A" "w' \<in> lang (Many A # items)"
    then obtain u v where "w' = u @ v" "set u \<subseteq> A" "v \<in> lang items" by auto
    with * have "w = (a # u) @ v" "set (a # u) \<subseteq> A" by auto
    with \<open>v \<in> lang items\<close> show ?thesis unfolding lang.simps by blast
  qed
qed

lemma matches_many:
  "matches (Many A # items, anchor) str \<longleftrightarrow>
     matches (items, anchor) str
     \<or> str \<noteq> [] \<and> hd str \<in> A \<and> matches (Many A # items, anchor) (tl str)"
    (is "?l \<longleftrightarrow> ?r")
proof
  assume ?l
  then obtain v w where vw: "str = v @ w" "v \<in> lang (Many A # items)" "anchor \<longrightarrow> w = []"
    unfolding matches_def fst_conv snd_conv by blast
  from vw(2) lang_many consider "v \<in> lang items"
    | a v' where "v = a # v'" "a \<in> A" "v' \<in> lang (Many A # items)" by metis
  then show ?r
    using vw(1, 3) unfolding matches_def fst_conv snd_conv by cases (auto simp del: lang.simps)
next
  assume ?r
  then show ?l
  proof (elim disjE conjE)
    assume "matches (items, anchor) str"
    then show ?l
      unfolding matches_def fst_conv snd_conv by (metis lang_many)
  next
    assume *: "str \<noteq> []" "hd str \<in> A" "matches (Many A # items, anchor) (tl str)"
    then obtain v w where vw: "tl str = v @ w" "v \<in> lang (Many A # items)" "anchor \<longrightarrow> w = []"
      unfolding matches_def fst_conv snd_conv by blast
    then have "str = (hd str # v) @ w" "hd str # v \<in> lang (Many A # items)"
      using *(1, 2) by (simp add: hd_Cons_tl flip: vw(1), subst lang_many, blast)
    then show ?l
      using vw(3) unfolding matches_def fst_conv snd_conv by blast
  qed
qed

lemma matchhere_matches:
  "matchhere re str \<longleftrightarrow> matches (parse re) str"
  "matchstar c re str \<longleftrightarrow> matches (Many (class_of c) # fst (parse re), snd (parse re)) str"
proof (induction re str and c re str rule: matchhere_matchstar.induct)
  case (1 str)
  then show ?case by (simp add: matches_nil)
next
  case (2 c re str)
  show ?case
    using 2 by (auto simp: case_prod_beta matches_nil matches_one class_of_def)
next
  case (3 c re str)
  show ?case
    by (subst matchstar.simps, subst matches_many) (use 3 in \<open>auto simp: class_of_def\<close>)
qed

lemma match_loop_suffix: "match_loop re str \<longleftrightarrow> (\<exists>u v. str = u @ v \<and> matchhere re v)"
proof (induction re str rule: match_loop.induct)
  case (2 re t str)
  have "(\<exists>u v. t # str = u @ v \<and> matchhere re v) \<longleftrightarrow>
      matchhere re (t # str) \<or> (\<exists>u v. str = u @ v \<and> matchhere re v)"
    by (auto simp: Cons_eq_append_conv)
  then show ?case using 2 by auto
qed simp

text \<open>
  C15.  The matcher decides the language of the pattern: with its items and anchors read off the
  pattern, \<open>match\<close> accepts a str exactly when the str splits into a part before, a word of the
  language and a part after, where an anchor at either end makes the part on that side empty.
\<close>

theorem match_language:
  "match re str \<longleftrightarrow>
     (\<exists>u v w. str = u @ v @ w
        \<and> v \<in> lang (fst (parse (if re \<noteq> [] \<and> hd re = chr CHR ''^'' then tl re else re)))
        \<and> \<not> (re \<noteq> [] \<and> hd re = chr CHR ''^'' \<and> u \<noteq> [])
        \<and> \<not> (snd (parse (if re \<noteq> [] \<and> hd re = chr CHR ''^'' then tl re else re)) \<and> w \<noteq> []))"
  by (cases re) (auto simp: match_def match_loop_suffix matchhere_matches matches_def simp del: parse.simps lang.simps)

subsection \<open>Lines\<close>

definition plain :: "uchar list \<Rightarrow> bool" where
  "plain l \<longleftrightarrow> 0 \<notin> set l \<and> newline \<notin> set l"

abbreviation unlines :: "uchar list list \<Rightarrow> uchar list" where
  "unlines ls \<equiv> concat (map (\<lambda>l. l @ [newline]) ls)"

text \<open>What the pass over the buffer leaves of a line.\<close>

definition marked :: "uchar list \<Rightarrow> uchar list \<Rightarrow> uchar list" where
  "marked pattern l = l @ [if match pattern l then newline else 0]"

lemma marked_length [simp]: "length (marked pattern l) = Suc (length l)"
  by (simp add: marked_def)

lemma marked_lines_length: "length (concat (map (marked pattern) ls)) = length (unlines ls)"
  by (induction ls) simp_all

lemma grep_line:
  assumes "plain l" "length pre = p"
  shows "grep_lines pattern (pre @ l @ newline # rest) p out =
           grep_lines pattern (pre @ marked pattern l @ rest) (p + length l + 1)
             (if match pattern l then out @ l @ [newline] else out)"
proof -
  have "strchr (l @ newline # rest) newline = Inr (Some (length l))"
    using assms(1) by (intro strchr_found) (simp_all add: plain_def newline_def)
  moreover have "newline \<noteq> 0" by (simp add: newline_def)
  ultimately show ?thesis
    using assms(2)
    by (subst grep_lines.simps) (auto simp: marked_def Let_def list_update_append simp flip: assms(2))
qed

lemma grep_lines_filter:
  assumes "\<forall>l \<in> set ls. plain l" "plain tail" "length pre = p"
  shows "grep_lines pattern (pre @ unlines ls @ tail @ 0 # z) p out =
           Inr (pre @ concat (map (marked pattern) ls) @ tail @ 0 # z, p + length (unlines ls),
                out @ unlines (filter (match pattern) ls))"
  using assms
proof (induction ls arbitrary: pre p out)
  case Nil
  then have "strchr (tail @ 0 # z) newline = Inr None"
    by (intro strchr_none) (simp_all add: plain_def)
  with Nil show ?case by (subst grep_lines.simps) auto
next
  case (Cons l ls)
  have "grep_lines pattern (pre @ unlines (l # ls) @ tail @ 0 # z) p out =
      grep_lines pattern ((pre @ marked pattern l) @ unlines ls @ tail @ 0 # z) (p + length l + 1)
        (if match pattern l then out @ l @ [newline] else out)"
    using grep_line [of l pre p] Cons.prems by simp
  also have "\<dots> = Inr ((pre @ marked pattern l) @ concat (map (marked pattern) ls) @ tail @ 0 # z,
        p + length l + 1 + length (unlines ls),
        (if match pattern l then out @ l @ [newline] else out) @ unlines (filter (match pattern) ls))"
    using Cons.prems by (intro Cons.IH) simp_all
  finally show ?case by simp
qed

lemma umemmove_length: "umemmove a d s n = Inr b \<Longrightarrow> length b = length a"
  by (induction a d s n rule: umemmove.induct) (auto split: if_splits)

lemma umemmove_ok: "d + n \<le> length a \<Longrightarrow> s + n \<le> length a \<Longrightarrow> \<exists>b. umemmove a d s n = Inr b"
  by (induction a d s n rule: umemmove.induct) auto

text \<open>
  C34.  An input that arrives in one \<open>read\<close> and fits the buffer is filtered: \<open>grep\<close> writes exactly
  the lines that match, in order, and nothing of a last line without a newline.
\<close>

theorem grep_filters:
  assumes "\<forall>l \<in> set ls. plain l" "plain tail" "length (unlines ls @ tail) < 1024"
  shows "\<exists>buf. grep pattern [Some (unlines ls @ tail)] (replicate 1024 0) =
           Inr (buf, unlines (filter (match pattern) ls))"
proof (cases "unlines ls @ tail")
  case Nil
  then show ?thesis by (auto simp: grep_def grep_loop.simps uread_def)
next
  case (Cons b bs)
  let ?m = "length (b # bs)" and ?b = "concat (map (marked pattern) ls) @ tail @ 0 # replicate (1023 - length (b # bs)) 0"
  have u: "uread 1024 [Some (b # bs)] = (Some (b # bs), [])"
    using assms(3) Cons by (auto simp: uread_def)
  have "(b # bs) @ replicate (1024 - ?m) (0 :: uchar) = unlines ls @ tail @ 0 # replicate (1023 - ?m) 0"
    using assms(3) unfolding Cons [symmetric]
    by (simp add: Suc_diff_Suc flip: replicate_Suc)
  moreover have "grep_lines pattern ([] @ unlines ls @ tail @ 0 # replicate (1023 - ?m) 0) 0 [] =
      Inr ([] @ ?b, 0 + length (unlines ls), [] @ unlines (filter (match pattern) ls))"
    using assms(1, 2) by (intro grep_lines_filter) simp_all
  ultimately have lines: "grep_lines pattern ((b # bs) @ replicate (1024 - ?m) 0) 0 [] =
      Inr (?b, length (unlines ls), unlines (filter (match pattern) ls))"
    by simp
  have stop: "m \<ge> 0 \<Longrightarrow> grep_loop pattern [] buf m out = Inr (buf, out)" for m buf out
    by (simp add: grep_loop.simps uread_def)
  have m: "?m = length (unlines ls) + length tail"
    unfolding Cons [symmetric] by (rule length_append)
  have len: "length ?b = 1024"
    using assms(3) m Cons by (simp only: length_append marked_lines_length) simp
  obtain b2 where "umemmove ?b 0 (length (unlines ls)) (length tail) = Inr b2"
    using umemmove_ok [of 0 "length tail" ?b "length (unlines ls)"] len m by (simp only: marked_lines_length length_append) auto
  moreover have "nat (1 + int (length bs) - int (length (unlines ls))) = length tail"
    using m by simp
  ultimately show ?thesis
    unfolding grep_def Cons
    by (subst grep_loop.simps)
      (use lines u len m in \<open>auto simp: stop Let_def simp del: length_concat\<close>)
qed

theorem grep_filters_witness:
  "\<exists>buf. grep [97] [Some [97, 98, 10, 99, 10, 97, 10, 97]] (replicate 1024 0) = Inr (buf, [97, 98, 10, 97, 10])"
  using grep_filters [of "[[97, 98], [99], [97]]" "[97]" "[97]"]
  by (simp add: plain_def newline_def match_def chr_def)

text \<open>
  C35.  The buffer is never terminated after the bytes just read, so bytes of an earlier read are
  taken for input.  When a line that matches is followed, in a second \<open>read\<close>, by a shorter line,
  the rest of the first line is scanned again, the count of pending bytes becomes negative, and the
  third call of \<open>read\<close> is told to store before the buffer.
\<close>

theorem grep_stale_bytes:
  assumes "plain l1" "plain l2" "length l2 < length l1" "length l1 < 1023" "match pattern l1"
  shows "grep pattern [Some (l1 @ [newline]), Some (l2 @ [newline])] (replicate 1024 0) =
           Inl (Undef ''read'')"
proof -
  let ?n1 = "length l1" and ?n2 = "length l2"
  let ?z = "replicate (1022 - ?n1) (0 :: uchar)" and ?stale = "drop (Suc ?n2) l1"
  have zeros: "replicate (1023 - ?n1) (0 :: uchar) = 0 # ?z"
    using assms(4) by (simp add: Suc_diff_Suc flip: replicate_Suc)
  have nil: "plain []" and st: "plain ?stale"
    using assms(1) by (auto simp: plain_def dest: in_set_dropD)
  have first: "grep_lines pattern (l1 @ newline # 0 # ?z) 0 [] =
      Inr (l1 @ newline # 0 # ?z, Suc ?n1, l1 @ [newline])"
    using grep_lines_filter [of "[l1]" "[]" "[]" 0 pattern ?z "[]"] assms(1, 5) nil
    by (simp add: marked_def)
  have second: "\<exists>b o2. grep_lines pattern (l2 @ newline # ?stale @ newline # 0 # ?z) 0 out =
      Inr (b, Suc ?n1, o2)" for out
    using grep_lines_filter [of "[l2, ?stale]" "[]" "[]" 0 pattern ?z out] assms(2, 3) nil st by auto
  obtain c1 cs1 where c1: "l1 @ [newline] = c1 # cs1" by (cases "l1 @ [newline]") auto
  obtain c2 cs2 where c2: "l2 @ [newline] = c2 # cs2" by (cases "l2 @ [newline]") auto
  have n: "length cs1 = ?n1" "length cs2 = ?n2"
    using arg_cong [OF c1, of length] arg_cong [OF c2, of length] by simp_all
  have u: "uread 1024 (Some (c1 # cs1) # rs) = (Some (c1 # cs1), rs)"
      "uread 1024 (Some (c2 # cs2) # rs) = (Some (c2 # cs2), rs)" for rs
    using n assms(3, 4) by (auto simp: uread_def)
  have b1: "c1 # cs1 @ replicate (1023 - ?n1) 0 = l1 @ newline # 0 # ?z"
    using arg_cong [OF c1, of "\<lambda>x. x @ replicate (1023 - ?n1) 0"] zeros by simp
  have b2: "c2 # cs2 @ ?stale @ newline # 0 # ?z = l2 @ newline # ?stale @ newline # 0 # ?z"
    using arg_cong [OF c2, of "\<lambda>x. x @ ?stale @ newline # 0 # ?z"] assms(3) by simp
  have len: "length (l1 @ newline # 0 # ?z) = 1024" using assms(4) by simp
  have step2: "grep_loop pattern [Some (c2 # cs2)] (l1 @ newline # 0 # ?z) 0 out = Inl (Undef ''read'')" for out
    using second [of out] assms(3)
    by (subst grep_loop.simps) (auto simp: u len n b2 Let_def grep_loop.simps [of pattern "[]"] simp del: length_append)
  show ?thesis
    unfolding grep_def c1 c2
    by (subst grep_loop.simps) (simp add: u n b1 first step2 Let_def)
qed

theorem grep_stale_bytes_witness:
  "grep [120] [Some ([120, 120, 120] @ [newline]), Some ([120] @ [newline])] (replicate 1024 0) =
     Inl (Undef ''read'')"
  by (rule grep_stale_bytes) (simp_all add: plain_def newline_def match_def chr_def)

end
