(* ===== verification/Shell.thy ===== *)
theory Shell
  imports Ulib
begin

text \<open>
  The command parser of \<open>user/sh.c\<close>.  The line to parse is the C string in the buffer, \<open>es\<close> is its
  length, a pointer into it is a position, and a command refers to its words by their first
  position and the one after their last, as \<open>argv\<close>/\<open>eargv\<close> and \<open>file\<close>/\<open>efile\<close> do.  The shell's own
  \<open>panic\<close> is the \<open>Panic\<close> outcome.
\<close>

subsection \<open>Commands\<close>

definition MAXARGS :: nat where "MAXARGS = 10"

type_synonym word_at = "nat \<times> nat"

datatype cmd =
    Exec "word_at list"
  | Redir cmd word_at uint nat
  | PipeC cmd cmd
  | ListC cmd cmd
  | Back cmd

text \<open>\<open>cmd->argv[argc] = q\<close>: the \<open>execcmd\<close> is at the bottom of the redirections that wrap it.\<close>

fun addarg :: "cmd \<Rightarrow> word_at \<Rightarrow> cmd" where
  "addarg (Exec ws) w = Exec (ws @ [w])"
| "addarg (Redir c f m d) w = Redir (addarg c w) f m d"
| "addarg c w = c"

subsection \<open>Tokens\<close>

text \<open>
  The byte at a position: the NUL ends the line, and what lies behind it is not part of the string,
  so that a read there has no defined value.
\<close>

definition byte_at :: "uchar list \<Rightarrow> nat \<Rightarrow> uchar outcome" where
  "byte_at line s =
     (if s < length line then Inr (line ! s) else if s = length line then Inr 0
      else Inl (Undef ''read behind the end of the line''))"

definition isin :: "uchar list \<Rightarrow> uchar \<Rightarrow> bool" where
  "isin toks c \<longleftrightarrow> strchr (toks @ [0]) c \<noteq> Inr None"

definition whitespace :: "uchar list" where
  "whitespace = [32, 9, 13, 10, 11]"

definition symbols :: "uchar list" where
  "symbols = map chr ''<|>&;()''"

text \<open>The two loops test \<open>s < es\<close> before they read \<open>*s\<close>.\<close>

function skip_white :: "uchar list \<Rightarrow> nat \<Rightarrow> nat" where
  "skip_white line s =
     (if s < length line \<and> isin whitespace (line ! s) then skip_white line (s + 1) else s)"
  by pat_completeness auto
termination by (relation "measure (\<lambda>(line, s). length line - s)") auto

function skip_word :: "uchar list \<Rightarrow> nat \<Rightarrow> nat" where
  "skip_word line s =
     (if s < length line \<and> \<not> isin whitespace (line ! s) \<and> \<not> isin symbols (line ! s)
      then skip_word line (s + 1) else s)"
  by pat_completeness auto
termination by (relation "measure (\<lambda>(line, s). length line - s)") auto

declare skip_white.simps [simp del] skip_word.simps [simp del]

text \<open>\<open>gettoken\<close>: the token, the position \<open>q\<close>, the position \<open>eq\<close> and the new \<open>*ps\<close>.\<close>

definition gettoken :: "uchar list \<Rightarrow> nat \<Rightarrow> (uchar \<times> nat \<times> nat \<times> nat) outcome" where
  "gettoken line s =
     (let s = skip_white line s; q = s
      in ebind (byte_at line s) (\<lambda>c.
           ebind (if c = 0 then Inr (c, s)
                  else if c \<in> set (map chr ''|();&<'') then Inr (c, s + 1)
                  else if c = chr CHR ''>''
                  then ebind (byte_at line (s + 1)) (\<lambda>d.
                         Inr (if d = chr CHR ''>'' then (chr CHR ''+'', s + 2) else (c, s + 1)))
                  else Inr (chr CHR ''a'', skip_word line s))
             (\<lambda>(ret, s). Inr (ret, q, s, skip_white line s))))"

definition peek :: "uchar list \<Rightarrow> string \<Rightarrow> nat \<Rightarrow> (bool \<times> nat) outcome" where
  "peek line toks s =
     (let s = skip_white line s
      in ebind (byte_at line s) (\<lambda>c. Inr (c \<noteq> 0 \<and> isin (map chr toks) c, s)))"

lemma ebindE:
  assumes "ebind m f = Inr y"
  obtains x where "m = Inr x" "f x = Inr y"
  using assms by (cases m) auto

lemma isin_set: "0 \<notin> set toks \<Longrightarrow> isin toks c \<longleftrightarrow> c \<in> set toks"
proof (induction toks)
  case (Cons t toks)
  then have "isin (t # toks) c \<longleftrightarrow> t = c \<or> isin toks c"
    by (cases "strchr (toks @ [0]) c") (auto simp: isin_def)
  with Cons show ?case by auto
qed (simp add: isin_def)

lemma skip_white_ge: "s \<le> skip_white line s"
  by (induction line s rule: skip_white.induct) (subst skip_white.simps, auto)

lemma skip_word_ge: "s \<le> skip_word line s"
  by (induction line s rule: skip_word.induct) (subst skip_word.simps, auto)

lemma skip_white_le: "s \<le> length line \<Longrightarrow> skip_white line s \<le> length line"
  by (induction line s rule: skip_white.induct) (subst skip_white.simps, auto)

lemma skip_word_le: "s \<le> length line \<Longrightarrow> skip_word line s \<le> length line"
  by (induction line s rule: skip_word.induct) (subst skip_word.simps, auto)

lemma skip_white_stop:
  "skip_white line s < length line \<Longrightarrow> \<not> isin whitespace (line ! skip_white line s)"
  by (induction line s rule: skip_white.induct)
    (subst skip_white.simps, subst (asm) (3) skip_white.simps, auto split: if_splits)

lemma byte_at_Inr:
  "byte_at line s = Inr c \<longleftrightarrow> s < length line \<and> c = line ! s \<or> s = length line \<and> c = 0"
  by (auto simp: byte_at_def)

lemma byte_at_defined: "s \<le> length line \<Longrightarrow> \<exists>c. byte_at line s = Inr c"
  by (auto simp: byte_at_def)

lemma symbols_set: "isin symbols c \<longleftrightarrow> c \<in> set (map chr ''<|>&;()'')"
  unfolding symbols_def by (rule isin_set) (simp add: chr_def)

text \<open>A token that is returned: where it begins and ends, and its kind.\<close>

lemma gettokenE:
  assumes "gettoken line s = Inr (t, q, eq, s')"
  obtains c where "q = skip_white line s" "byte_at line q = Inr c" "s' = skip_white line eq"
    "c = 0 \<and> t = 0 \<and> eq = q \<or> c \<noteq> 0 \<and> c \<in> set (map chr ''|();&<'') \<and> t = c \<and> eq = q + 1
     \<or> c = chr CHR ''>'' \<and> (byte_at line (q + 1) = Inr (chr CHR ''>'') \<and> t = chr CHR ''+'' \<and> eq = q + 2 \<or> t = c \<and> eq = q + 1)
     \<or> c \<noteq> 0 \<and> c \<notin> set (map chr ''|();&<>'') \<and> t = chr CHR ''a'' \<and> eq = skip_word line q"
proof -
  obtain c where c: "byte_at line (skip_white line s) = Inr c"
    using assms by (auto simp: gettoken_def Let_def elim!: ebindE)
  show thesis
    by (rule that [of c]) (use assms c in \<open>auto simp: gettoken_def Let_def elim!: ebindE split: if_split_asm\<close>)
qed

lemma gettoken_defined:
  assumes "s \<le> length line"
  shows "\<exists>t q eq s'. gettoken line s = Inr (t, q, eq, s')"
proof -
  let ?s = "skip_white line s"
  obtain c where c: "byte_at line ?s = Inr c" using byte_at_defined skip_white_le assms by blast
  have "\<exists>d. byte_at line (?s + 1) = Inr d" if "c \<noteq> 0"
    using c that byte_at_defined [of "?s + 1" line] by (auto simp: byte_at_Inr)
  then obtain d where "c \<noteq> 0 \<Longrightarrow> byte_at line (?s + 1) = Inr d" by blast
  then show ?thesis using c by (auto simp: gettoken_def Let_def)
qed

lemma peek_defined: "s \<le> length line \<Longrightarrow> \<exists>b s'. peek line toks s = Inr (b, s')"
  using byte_at_defined [OF skip_white_le, of s line] by (auto simp: peek_def Let_def)

lemma gettoken_ge: "gettoken line s = Inr (t, q, eq, s') \<Longrightarrow> s \<le> q \<and> q \<le> eq \<and> eq \<le> s' \<and> s' \<le> length line"
proof (elim gettokenE)
  fix c assume a: "q = skip_white line s" "byte_at line q = Inr c" "s' = skip_white line eq"
    "c = 0 \<and> t = 0 \<and> eq = q \<or> c \<noteq> 0 \<and> c \<in> set (map chr ''|();&<'') \<and> t = c \<and> eq = q + 1
     \<or> c = chr CHR ''>'' \<and> (byte_at line (q + 1) = Inr (chr CHR ''>'') \<and> t = chr CHR ''+'' \<and> eq = q + 2 \<or> t = c \<and> eq = q + 1)
     \<or> c \<noteq> 0 \<and> c \<notin> set (map chr ''|();&<>'') \<and> t = chr CHR ''a'' \<and> eq = skip_word line q"
  have z: "chr CHR ''>'' \<noteq> 0" by (simp add: chr_def)
  have "q \<le> eq \<and> eq \<le> length line"
    using a(2,4) z skip_word_ge [of q line] skip_word_le [of q line] by (auto simp: byte_at_Inr)
  then show ?thesis using a(1,3) skip_white_ge [of s line] skip_white_ge [of eq line] skip_white_le [of eq line] by simp
qed

lemma gettoken_advance:
  assumes "gettoken line s = Inr (t, q, eq, s')" and "t \<noteq> 0"
  shows "s < s'" "s < length line"
proof -
  from assms(1) obtain c where a: "q = skip_white line s" "byte_at line q = Inr c" "s' = skip_white line eq"
    "c = 0 \<and> t = 0 \<and> eq = q \<or> c \<noteq> 0 \<and> c \<in> set (map chr ''|();&<'') \<and> t = c \<and> eq = q + 1
     \<or> c = chr CHR ''>'' \<and> (byte_at line (q + 1) = Inr (chr CHR ''>'') \<and> t = chr CHR ''+'' \<and> eq = q + 2 \<or> t = c \<and> eq = q + 1)
     \<or> c \<noteq> 0 \<and> c \<notin> set (map chr ''|();&<>'') \<and> t = chr CHR ''a'' \<and> eq = skip_word line q"
    by (rule gettokenE)
  have s: "s \<le> q" unfolding a(1) by (rule skip_white_ge)
  have "c \<noteq> 0" using a(4) assms(2) by (auto simp: chr_def)
  then have l: "q < length line" and c: "c = line ! q" using a(2) by (auto simp: byte_at_Inr)
  then show "s < length line" using s by simp
  have "q < skip_word line q" if "\<not> isin symbols c"
    using l that skip_white_stop [of line s] skip_word_ge [of "q + 1" line] a(1) c by (subst skip_word.simps) simp
  then have "q < eq" using a(4) assms(2) by (auto simp: symbols_set)
  then show "s < s'" using gettoken_ge [OF assms(1)] s by simp
qed

lemma peek_ge: "peek line toks s = Inr (b, s') \<Longrightarrow> s \<le> s' \<and> s' \<le> length line"
  by (auto simp: peek_def Let_def skip_white_ge byte_at_Inr elim!: ebindE)

lemma peek_advance:
  assumes "peek line toks s = Inr (True, s1)" "gettoken line s1 = Inr (t, q, eq, s2)"
  shows "s < s2" "s < length line" "t \<noteq> 0"
proof -
  have c: "byte_at line s1 \<noteq> Inr 0" and s1: "s1 = skip_white line s"
    using assms(1) by (auto simp: peek_def Let_def elim!: ebindE)
  then have l: "s1 < length line" using peek_ge [OF assms(1)] by (auto simp: byte_at_Inr)
  then have "\<not> isin whitespace (line ! s1)" using skip_white_stop s1 by simp
  then have "skip_white line s1 = s1" by (subst skip_white.simps) simp
  then show t: "t \<noteq> 0" using assms(2) c by (elim gettokenE) (auto simp: chr_def)
  show "s < s2" "s < length line"
    using gettoken_advance [OF assms(2) t] skip_white_ge [of s line] s1 l by simp_all
qed

text \<open>The same facts in the form in which the termination of the parsing loops needs them.\<close>

lemma advance_from:
  assumes "s \<le> s0" "peek line toks s0 = Inr (True, s1)" "gettoken line s1 = Inr (t, q, eq, s2)"
  shows "length line - s2 < length line - s"
  using peek_advance [OF assms(2, 3)] assms(1) by linarith

lemma redir_advance:
  assumes "peek line toks s = Inr (True, s1)" "gettoken line s1 = Inr (t, q, eq, s2)"
    "gettoken line s2 = Inr (t', q', eq', s3)"
  shows "length line - s3 < length line - s"
  using peek_advance [OF assms(1, 2)] gettoken_ge [OF assms(3)] by linarith

subsection \<open>Well-formed commands\<close>

text \<open>
  A word is a non-empty maximal run of bytes that are neither white space nor symbols.  A
  well-formed command has such words only, fewer arguments than \<open>MAXARGS\<close>, and input redirected
  on descriptor 0 or output on descriptor 1.
\<close>

definition wordchar :: "uchar \<Rightarrow> bool" where
  "wordchar c \<longleftrightarrow> \<not> isin whitespace c \<and> \<not> isin symbols c"

definition good_word :: "uchar list \<Rightarrow> word_at \<Rightarrow> bool" where
  "good_word line w \<longleftrightarrow>
     fst w < snd w \<and> snd w \<le> length line \<and> (\<forall>i. fst w \<le> i \<and> i < snd w \<longrightarrow> wordchar (line ! i))
     \<and> (snd w < length line \<longrightarrow> \<not> wordchar (line ! snd w))"

definition good_redir :: "uint \<Rightarrow> nat \<Rightarrow> bool" where
  "good_redir m d \<longleftrightarrow> m = O_RDONLY \<and> d = 0 \<or> m = O_WRONLY OR O_CREATE \<and> d = 1"

fun good_cmd :: "uchar list \<Rightarrow> cmd \<Rightarrow> bool" where
  "good_cmd line (Exec ws) \<longleftrightarrow> length ws < MAXARGS \<and> list_all (good_word line) ws"
| "good_cmd line (Redir c f m d) \<longleftrightarrow> good_cmd line c \<and> good_word line f \<and> good_redir m d"
| "good_cmd line (PipeC l r) \<longleftrightarrow> good_cmd line l \<and> good_cmd line r"
| "good_cmd line (ListC l r) \<longleftrightarrow> good_cmd line l \<and> good_cmd line r"
| "good_cmd line (Back c) \<longleftrightarrow> good_cmd line c"

text \<open>The number of arguments of the command under the redirections.\<close>

fun argcount :: "cmd \<Rightarrow> nat option" where
  "argcount (Exec ws) = Some (length ws)"
| "argcount (Redir c f m d) = argcount c"
| "argcount c = None"

lemma addarg_good:
  assumes "good_cmd line c" "good_word line w" "argcount c = Some n" "Suc n < MAXARGS"
  shows "good_cmd line (addarg c w)" "argcount (addarg c w) = Some (Suc n)"
  using assms by (induction c) auto

lemma skip_word_good:
  "s \<le> length line \<Longrightarrow> (\<forall>i. s \<le> i \<and> i < skip_word line s \<longrightarrow> wordchar (line ! i))
     \<and> (skip_word line s < length line \<longrightarrow> \<not> wordchar (line ! skip_word line s))"
proof (induction line s rule: skip_word.induct)
  case (1 line s)
  show ?case
  proof (cases "s < length line \<and> wordchar (line ! s)")
    case True
    then have "skip_word line s = skip_word line (s + 1)"
      by (subst skip_word.simps) (simp add: wordchar_def)
    moreover have "(\<forall>i. s + 1 \<le> i \<and> i < skip_word line (s + 1) \<longrightarrow> wordchar (line ! i))
        \<and> (skip_word line (s + 1) < length line \<longrightarrow> \<not> wordchar (line ! skip_word line (s + 1)))"
      by (rule "1.IH") (use True in \<open>simp_all add: wordchar_def\<close>)
    moreover have "i = s \<or> s + 1 \<le> i" if "s \<le> i" for i using that by auto
    ultimately show ?thesis using True by (metis (no_types))
  next
    case False
    then have "skip_word line s = s"
      by (subst skip_word.simps) (auto simp: wordchar_def)
    then show ?thesis using False by auto
  qed
qed

lemma gettoken_word:
  assumes "gettoken line s = Inr (chr CHR ''a'', q, eq, s')"
  shows "good_word line (q, eq)"
proof -
  have a: "chr CHR ''a'' \<notin> set (map chr ''|();&<>+'')" "chr CHR ''a'' \<noteq> 0" by (simp_all add: chr_def)
  obtain c where q: "q = skip_white line s" and b: "byte_at line q = Inr c"
    and c: "c \<noteq> 0" "c \<notin> set (map chr ''|();&<>'')" and e: "eq = skip_word line q"
    using assms a by (elim gettokenE) auto
  have l: "q < length line" and n: "c = line ! q" using c(1) b by (auto simp: byte_at_Inr)
  have "\<not> isin whitespace (line ! q)" using skip_white_stop l q by simp
  moreover have "\<not> isin symbols (line ! q)" using c n by (auto simp: symbols_set)
  ultimately have "q < eq"
    using l skip_word_ge [of "q + 1" line] unfolding e by (subst skip_word.simps) simp
  then show ?thesis
    using skip_word_good [of q line] skip_word_le [of q line] l e by (auto simp: good_word_def)
qed

subsection \<open>Recursive descent\<close>

function parseredirs :: "uchar list \<Rightarrow> cmd \<Rightarrow> nat \<Rightarrow> (cmd \<times> nat) outcome" where
  "parseredirs line c s =
     ebind (peek line ''<>'' s) (\<lambda>(more, s).
       if \<not> more then Inr (c, s)
       else ebind (gettoken line s) (\<lambda>(tok, _, _, s).
              ebind (gettoken line s) (\<lambda>(tok2, q, eq, s).
                if tok2 \<noteq> chr CHR ''a'' then Inl (Panic ''missing file for redirection'')
                else parseredirs line
                       (if tok = chr CHR ''<'' then Redir c (q, eq) O_RDONLY 0
                        else if tok = chr CHR ''>'' then Redir c (q, eq) (O_WRONLY OR O_CREATE) 1
                        else if tok = chr CHR ''+'' then Redir c (q, eq) (O_WRONLY OR O_CREATE) 1
                        else c) s)))"
  by pat_completeness auto
termination
  by (relation "measure (\<lambda>(line, c, s). length line - s)")
    (auto intro: redir_advance)

declare parseredirs.simps [simp del]

lemma parseredirs_good:
  "parseredirs line c s = Inr (c', s') \<Longrightarrow>
     s \<le> s' \<and> s' \<le> length line \<and> argcount c' = argcount c \<and> (good_cmd line c \<longrightarrow> good_cmd line c')"
proof (induction line c s rule: parseredirs.induct)
  case (1 line c s)
  from "1.prems" obtain b s1 where p: "peek line ''<>'' s = Inr (b, s1)"
    by (subst (asm) parseredirs.simps) (auto elim!: ebindE)
  show ?case
  proof (cases b)
    case False
    then show ?thesis using "1.prems" peek_ge [OF p] by (subst (asm) parseredirs.simps) (simp add: p)
  next
    case True
    with "1.prems" p obtain t q eq s2 t' q' eq' s3 where g: "gettoken line s1 = Inr (t, q, eq, s2)"
      and g': "gettoken line s2 = Inr (t', q', eq', s3)" and a: "t' = chr CHR ''a''"
      by (subst (asm) parseredirs.simps) (auto elim!: ebindE split: if_split_asm)
    have w: "good_word line (q', eq')" using g' a gettoken_word by blast
    show ?thesis
      using "1.prems" "1.IH" [OF p refl _ g refl refl refl g' refl refl refl] True a
        peek_ge [OF p] gettoken_ge [OF g] gettoken_ge [OF g'] w
      by (subst (asm) parseredirs.simps) (auto simp: p g g' good_redir_def)
  qed
qed

lemmas parseredirs_ge = parseredirs_good [THEN conjunct1]
lemmas parseredirs_le = parseredirs_good [THEN conjunct2, THEN conjunct1]

text \<open>The loop of \<open>parseexec\<close> over the words of a command.\<close>

function parseargs :: "uchar list \<Rightarrow> cmd \<Rightarrow> nat \<Rightarrow> nat \<Rightarrow> (cmd \<times> nat) outcome" where
  "parseargs line ret argc s =
     ebind (peek line ''|)&;'' s) (\<lambda>(stop, s).
       if stop then Inr (ret, s)
       else ebind (gettoken line s) (\<lambda>(tok, q, eq, s).
              if tok = 0 then Inr (ret, s)
              else if tok \<noteq> chr CHR ''a'' then Inl (Panic ''syntax'')
              else let ret = addarg ret (q, eq); argc = argc + 1
                   in if argc \<ge> MAXARGS then Inl (Panic ''too many args'')
                      else ebind (parseredirs line ret s) (\<lambda>(ret, s). parseargs line ret argc s)))"
  by pat_completeness auto
termination
proof (relation "measure (\<lambda>(line, ret, argc, s). length line - s)", goal_cases)
  case (2 line ret argc s x b s1 y t r q r' eq s2 ret' argc' z ret'' s3)
  then show ?case
    using gettoken_advance [of line s1 t q eq s2] peek_ge [of line "''|)&;''" s b s1]
      parseredirs_ge [of line ret' s2 ret'' s3] by auto
qed simp

declare parseargs.simps [simp del]

lemma parseargs_good:
  "parseargs line c argc s = Inr (c', s') \<Longrightarrow>
     s \<le> s' \<and> s' \<le> length line \<and> (good_cmd line c \<and> argcount c = Some argc \<longrightarrow> good_cmd line c')"
proof (induction line c argc s rule: parseargs.induct)
  case (1 line c argc s)
  from "1.prems" obtain b s1 where p: "peek line ''|)&;'' s = Inr (b, s1)"
    by (subst (asm) parseargs.simps) (auto elim!: ebindE)
  show ?case
  proof (cases b)
    case True
    then show ?thesis using "1.prems" peek_ge [OF p] by (subst (asm) parseargs.simps) (simp add: p)
  next
    case nb: False
    with "1.prems" p obtain t q eq s2 where g: "gettoken line s1 = Inr (t, q, eq, s2)"
      by (subst (asm) parseargs.simps) (auto elim!: ebindE)
    have ge: "s \<le> s2" "s2 \<le> length line" using peek_ge [OF p] gettoken_ge [OF g] by linarith+
    show ?thesis
    proof (cases "t = 0")
      case True
      then show ?thesis using "1.prems" ge nb by (subst (asm) parseargs.simps) (simp add: p g)
    next
      case False
      then obtain c1 s3 where t: "t = chr CHR ''a''" "\<not> MAXARGS \<le> argc + 1"
        and r: "parseredirs line (addarg c (q, eq)) s2 = Inr (c1, s3)"
        and a: "parseargs line c1 (argc + 1) s3 = Inr (c', s')"
        using "1.prems" nb by (subst (asm) parseargs.simps) (auto simp: p g Let_def elim!: ebindE split: if_split_asm)
      have "s3 \<le> s' \<and> s' \<le> length line \<and> (good_cmd line c1 \<and> argcount c1 = Some (argc + 1) \<longrightarrow> good_cmd line c')"
        using "1.IH" [OF p refl _ g refl refl refl _ _ refl refl _ r refl a] nb False t by blast
      then show ?thesis
        using parseredirs_good [OF r] ge addarg_good [of line c "(q, eq)" argc] gettoken_word g t by auto
    qed
  qed
qed

lemmas parseargs_ge = parseargs_good [THEN conjunct1]

text \<open>The loop of \<open>parseline\<close> over \<open>&\<close>.\<close>

function parsebacks :: "uchar list \<Rightarrow> cmd \<Rightarrow> nat \<Rightarrow> (cmd \<times> nat) outcome" where
  "parsebacks line c s =
     ebind (peek line ''&'' s) (\<lambda>(more, s).
       if \<not> more then Inr (c, s)
       else ebind (gettoken line s) (\<lambda>(_, _, _, s). parsebacks line (Back c) s))"
  by pat_completeness auto
termination
proof (relation "measure (\<lambda>(line, c, s). length line - s)", goal_cases)
  case (2 line c s x b s1 y t r q r' eq s2)
  then show ?case using peek_advance [of line "''&''" s s1 t q eq s2] by auto
qed simp

declare parsebacks.simps [simp del]

lemma parsebacks_good:
  "parsebacks line c s = Inr (c', s') \<Longrightarrow> s \<le> s' \<and> s' \<le> length line \<and> (good_cmd line c \<longrightarrow> good_cmd line c')"
proof (induction line c s rule: parsebacks.induct)
  case (1 line c s)
  from "1.prems" obtain b s1 where p: "peek line ''&'' s = Inr (b, s1)"
    by (subst (asm) parsebacks.simps) (auto elim!: ebindE)
  show ?case
  proof (cases b)
    case False
    then show ?thesis using "1.prems" peek_ge [OF p] by (subst (asm) parsebacks.simps) (simp add: p)
  next
    case True
    with "1.prems" p obtain t q eq s2 where g: "gettoken line s1 = Inr (t, q, eq, s2)"
      by (subst (asm) parsebacks.simps) (auto elim!: ebindE)
    show ?thesis
      using "1.prems" "1.IH" [OF p refl _ g refl refl refl] True peek_ge [OF p] gettoken_ge [OF g]
      by (subst (asm) parsebacks.simps) (auto simp: p g)
  qed
qed

function parseline :: "uchar list \<Rightarrow> nat \<Rightarrow> (cmd \<times> nat) outcome"
  and parsepipe :: "uchar list \<Rightarrow> nat \<Rightarrow> (cmd \<times> nat) outcome"
  and parseblock :: "uchar list \<Rightarrow> nat \<Rightarrow> (cmd \<times> nat) outcome"
  and parseexec :: "uchar list \<Rightarrow> nat \<Rightarrow> (cmd \<times> nat) outcome" where
  "parseline line s =
     ebind (parsepipe line s) (\<lambda>(c, s).
       ebind (parsebacks line c s) (\<lambda>(c, s).
         ebind (peek line '';'' s) (\<lambda>(more, s).
           if \<not> more then Inr (c, s)
           else ebind (gettoken line s) (\<lambda>(_, _, _, s).
                  ebind (parseline line s) (\<lambda>(r, s). Inr (ListC c r, s))))))"
| "parsepipe line s =
     ebind (parseexec line s) (\<lambda>(c, s).
       ebind (peek line ''|'' s) (\<lambda>(more, s).
         if \<not> more then Inr (c, s)
         else ebind (gettoken line s) (\<lambda>(_, _, _, s).
                ebind (parsepipe line s) (\<lambda>(r, s). Inr (PipeC c r, s)))))"
| "parseblock line s =
     ebind (peek line ''('' s) (\<lambda>(paren, s).
       if \<not> paren then Inl (Panic ''parseblock'')
       else ebind (gettoken line s) (\<lambda>(_, _, _, s).
              ebind (parseline line s) (\<lambda>(c, s).
                ebind (peek line '')'' s) (\<lambda>(paren, s).
                  if \<not> paren then Inl (Panic ''syntax - missing )'')
                  else ebind (gettoken line s) (\<lambda>(_, _, _, s). parseredirs line c s)))))"
| "parseexec line s =
     ebind (peek line ''('' s) (\<lambda>(paren, s).
       if paren then parseblock line s
       else ebind (parseredirs line (Exec []) s) (\<lambda>(ret, s). parseargs line ret 0 s))"
  by pat_completeness auto

lemma parse_good_partial:
  "parseline_parsepipe_parseblock_parseexec_dom (Inl (Inl (line, s))) \<Longrightarrow>
     parseline line s = Inr (c, s') \<Longrightarrow> s \<le> s' \<and> s' \<le> length line \<and> good_cmd line c"
  "parseline_parsepipe_parseblock_parseexec_dom (Inl (Inr (line, s))) \<Longrightarrow>
     parsepipe line s = Inr (c, s') \<Longrightarrow> s \<le> s' \<and> s' \<le> length line \<and> good_cmd line c"
  "parseline_parsepipe_parseblock_parseexec_dom (Inr (Inl (line, s))) \<Longrightarrow>
     parseblock line s = Inr (c, s') \<Longrightarrow> s \<le> s' \<and> s' \<le> length line \<and> good_cmd line c"
  "parseline_parsepipe_parseblock_parseexec_dom (Inr (Inr (line, s))) \<Longrightarrow>
     parseexec line s = Inr (c, s') \<Longrightarrow> s \<le> s' \<and> s' \<le> length line \<and> good_cmd line c"
proof (induction line s and line s and line s and line s
    arbitrary: c s' and c s' and c s' and c s'
    rule: parseline_parsepipe_parseblock_parseexec.pinduct)
  case (1 line s)
  from "1.prems" obtain c1 s1 c2 s2 b s3
    where a: "parsepipe line s = Inr (c1, s1)" "parsebacks line c1 s1 = Inr (c2, s2)"
      "peek line '';'' s2 = Inr (b, s3)"
      and d: "\<not> b \<and> c = c2 \<and> s' = s3 \<or> b \<and> (\<exists>t q eq s4 r. gettoken line s3 = Inr (t, q, eq, s4) \<and> parseline line s4 = Inr (r, s') \<and> c = ListC c2 r)"
    unfolding parseline.psimps [OF "1.hyps"] by (auto elim!: ebindE split: if_split_asm)
  note ge = "1.IH"(1) [OF a(1)] parsebacks_good [OF a(2)] peek_ge [OF a(3)]
  from d show ?case
  proof
    assume "\<not> b \<and> c = c2 \<and> s' = s3"
    then show ?thesis using ge by auto
  next
    assume "b \<and> (\<exists>t q eq s4 r. gettoken line s3 = Inr (t, q, eq, s4) \<and> parseline line s4 = Inr (r, s') \<and> c = ListC c2 r)"
    then obtain t q eq s4 r where b: "b" and g: "gettoken line s3 = Inr (t, q, eq, s4)"
      and r: "parseline line s4 = Inr (r, s')" "c = ListC c2 r" by blast
    show ?thesis
      using "1.IH"(2) [OF a(1) refl a(2) refl a(3) refl _ g refl refl refl r(1)] b ge gettoken_ge [OF g] r(2) by auto
  qed
next
  case (2 line s)
  from "2.prems" obtain c1 s1 b s2
    where a: "parseexec line s = Inr (c1, s1)" "peek line ''|'' s1 = Inr (b, s2)"
      and d: "\<not> b \<and> c = c1 \<and> s' = s2 \<or> b \<and> (\<exists>t q eq s3 r. gettoken line s2 = Inr (t, q, eq, s3) \<and> parsepipe line s3 = Inr (r, s') \<and> c = PipeC c1 r)"
    unfolding parsepipe.psimps [OF "2.hyps"] by (auto elim!: ebindE split: if_split_asm)
  note ge = "2.IH"(1) [OF a(1)] peek_ge [OF a(2)]
  from d show ?case
  proof
    assume "\<not> b \<and> c = c1 \<and> s' = s2"
    then show ?thesis using ge by auto
  next
    assume "b \<and> (\<exists>t q eq s3 r. gettoken line s2 = Inr (t, q, eq, s3) \<and> parsepipe line s3 = Inr (r, s') \<and> c = PipeC c1 r)"
    then obtain t q eq s3 r where b: "b" and g: "gettoken line s2 = Inr (t, q, eq, s3)"
      and r: "parsepipe line s3 = Inr (r, s')" "c = PipeC c1 r" by blast
    show ?thesis
      using "2.IH"(2) [OF a(1) refl a(2) refl _ g refl refl refl r(1)] b ge gettoken_ge [OF g] r(2) by auto
  qed
next
  case (3 line s)
  from "3.prems" obtain s1 t q eq s2 c1 s3 s4 t' q' eq' s5
    where a: "peek line ''('' s = Inr (True, s1)" "gettoken line s1 = Inr (t, q, eq, s2)"
      "parseline line s2 = Inr (c1, s3)" "peek line '')'' s3 = Inr (True, s4)"
      "gettoken line s4 = Inr (t', q', eq', s5)" "parseredirs line c1 s5 = Inr (c, s')"
    unfolding parseblock.psimps [OF "3.hyps"]
    by (auto elim!: ebindE split: if_split_asm)
  show ?case
    using "3.IH" [OF a(1) refl _ a(2) refl refl refl a(3)] parseredirs_good [OF a(6)]
      peek_ge [OF a(1)] gettoken_ge [OF a(2)] peek_ge [OF a(4)] gettoken_ge [OF a(5)] by auto
next
  case (4 line s)
  obtain b s1 where p: "peek line ''('' s = Inr (b, s1)"
    using "4.prems" unfolding parseexec.psimps [OF "4.hyps"] by (auto elim!: ebindE)
  have "good_cmd line (Exec [])" "argcount (Exec []) = Some 0" by (simp_all add: MAXARGS_def)
  then show ?case
    using "4.prems" "4.IH" [OF p refl] peek_ge [OF p]
    unfolding parseexec.psimps [OF "4.hyps"] p
    by (cases b) (fastforce elim!: ebindE dest!: parseredirs_good parseargs_good)+
qed

lemma parse_total: "All parseline_parsepipe_parseblock_parseexec_dom"
proof (relation "measures [\<lambda>x. case x of Inl (Inl (line, s)) \<Rightarrow> length line - s
                             | Inl (Inr (line, s)) \<Rightarrow> length line - s
                             | Inr (Inl (line, s)) \<Rightarrow> length line - s
                             | Inr (Inr (line, s)) \<Rightarrow> length line - s,
                           \<lambda>x. case x of Inl (Inl _) \<Rightarrow> 3 | Inl (Inr _) \<Rightarrow> 2
                             | Inr (Inl _) \<Rightarrow> 0 | Inr (Inr _) \<Rightarrow> 1]", goal_cases)
  case (3 line s x c s1 y c2 s2 z b s3 v t r q r' eq s4)
  have "s \<le> s2"
    using parse_good_partial(2) [of line s c s1] parsebacks_good [of line c s1 c2 s2] 3 by auto
  then have "length line - s4 < length line - s"
    using 3 by (intro advance_from [of s s2 line "'';''" s3 t q eq]) auto
  then show ?case by simp
next
  case (5 line s x c s1 y b s2 z t r q r' eq s3)
  then have "s \<le> s1" using parse_good_partial(4) [of line s c s1] by auto
  then have "length line - s3 < length line - s"
    using 5 by (intro advance_from [of s s1 line "''|''" s2 t q eq]) auto
  then show ?case by simp
next
  case (6 line s x b s1 y t r q r' eq s2)
  then have "length line - s2 < length line - s"
    by (intro advance_from [of s s line "''(''" s1 t q eq]) auto
  then show ?case by simp
next
  case (7 line s x b s1)
  then have "length line - s1 \<le> length line - s"
    using peek_ge [of line "''(''" s b s1] by auto
  then show ?case by auto
qed simp_all

termination parseline
  by (rule parse_total)

declare parseline.simps [simp del] parsepipe.simps [simp del] parseblock.simps [simp del]
  parseexec.simps [simp del]

subsection \<open>The whole line\<close>

fun nulterminate :: "cmd \<Rightarrow> uchar list \<Rightarrow> uchar list" where
  "nulterminate (Exec ws) buf = fold (\<lambda>(q, eq) buf. buf[eq := 0]) ws buf"
| "nulterminate (Redir c f m d) buf = (nulterminate c buf)[snd f := 0]"
| "nulterminate (PipeC l r) buf = nulterminate r (nulterminate l buf)"
| "nulterminate (ListC l r) buf = nulterminate r (nulterminate l buf)"
| "nulterminate (Back c) buf = nulterminate c buf"

text \<open>\<open>parsecmd\<close>: the command and the buffer with its words terminated.\<close>

definition parsecmd :: "uchar list \<Rightarrow> (cmd \<times> uchar list) outcome" where
  "parsecmd buf =
     ebind (strlen_buf buf) (\<lambda>es.
       let line = take es buf
       in ebind (parseline line 0) (\<lambda>(c, s).
            ebind (peek line [] s) (\<lambda>(_, s).
              if s \<noteq> es then Inl (Panic ''syntax'')
              else Inr (c, nulterminate c buf))))"

lemma parseline_good: "parseline line s = Inr (c, s') \<Longrightarrow> s' \<le> length line \<and> good_cmd line c"
  using parse_good_partial(1) [OF parse_total [THEN spec]] by blast

lemma parse_le:
  "parseline line s = Inr (c, s') \<Longrightarrow> s' \<le> length line"
  "parsepipe line s = Inr (c, s') \<Longrightarrow> s' \<le> length line"
  "parseexec line s = Inr (c, s') \<Longrightarrow> s' \<le> length line"
  using parse_good_partial(1,2,4) [OF parse_total [THEN spec]] by blast+

text \<open>The C string at a position of a buffer, and the words that a command refers to.\<close>

definition cstr :: "uchar list \<Rightarrow> nat \<Rightarrow> uchar list" where
  "cstr buf q = takeWhile (\<lambda>c. c \<noteq> 0) (drop q buf)"

fun cmd_words :: "cmd \<Rightarrow> word_at list" where
  "cmd_words (Exec ws) = ws"
| "cmd_words (Redir c f m d) = cmd_words c @ [f]"
| "cmd_words (PipeC l r) = cmd_words l @ cmd_words r"
| "cmd_words (ListC l r) = cmd_words l @ cmd_words r"
| "cmd_words (Back c) = cmd_words c"

lemma good_cmd_words: "good_cmd line c \<Longrightarrow> w \<in> set (cmd_words c) \<Longrightarrow> good_word line w"
  by (induction c) (auto simp: list_all_iff)

definition zero_ends :: "word_at list \<Rightarrow> uchar list \<Rightarrow> uchar list" where
  "zero_ends ws buf = fold (\<lambda>(q, eq) buf. buf[eq := 0]) ws buf"

lemma zero_ends_length [simp]: "length (zero_ends ws buf) = length buf"
  by (induction ws arbitrary: buf) (auto simp: zero_ends_def)

lemma zero_ends_nth:
  "i < length buf \<Longrightarrow> zero_ends ws buf ! i = (if i \<in> snd ` set ws then 0 else buf ! i)"
proof (induction ws arbitrary: buf)
  case (Cons w ws)
  have "zero_ends (w # ws) buf = zero_ends ws (buf[snd w := 0])"
    by (simp add: zero_ends_def split_beta)
  then show ?case using Cons by (auto simp: nth_list_update)
qed (simp add: zero_ends_def)

lemma zero_ends_append: "zero_ends (ws @ vs) buf = zero_ends vs (zero_ends ws buf)"
  by (simp add: zero_ends_def)

lemma nulterminate_zero_ends: "nulterminate c buf = zero_ends (cmd_words c) buf"
  by (induction c arbitrary: buf) (simp_all add: zero_ends_append, simp_all add: zero_ends_def split_beta)

lemma strlen_buf_Inr:
  "strlen_buf buf = Inr n \<longleftrightarrow> n < length buf \<and> buf ! n = 0 \<and> 0 \<notin> set (take n buf)"
proof (induction buf arbitrary: n)
  case (Cons x buf)
  then show ?case by (cases n) (auto simp: outcome_simps)
qed simp

lemma cstr_split:
  assumes "q \<le> e" "e < length buf" "buf ! e = 0" "\<forall>i. q \<le> i \<and> i < e \<longrightarrow> buf ! i \<noteq> 0"
  shows "cstr buf q = take (e - q) (drop q buf)"
  unfolding cstr_def using assms by (intro takeWhile_eq_take_P_nth) auto

text \<open>
  C14.  Terminating the words of a command in place is correct: when the shell has parsed a line,
  every argument and every file name of the command is, as the C string that the system call will
  read, exactly the run of ordinary bytes that the parser found in the line; no terminator of
  another word falls inside it.
\<close>

theorem parsecmd_words:
  assumes "parsecmd buf = Inr (c, buf')" "(q, eq) \<in> set (cmd_words c)"
  shows "q < eq \<and> cstr buf' q = take (eq - q) (drop q buf) \<and> list_all wordchar (cstr buf' q)"
proof -
  obtain es s where es: "strlen_buf buf = Inr es"
    and p: "parseline (take es buf) 0 = Inr (c, s)" and b: "buf' = nulterminate c buf"
    using assms(1) by (auto simp: parsecmd_def Let_def elim!: ebindE split: prod.split_asm if_split_asm)
  have l: "es < length buf" "buf ! es = 0" and nz: "0 \<notin> set (take es buf)"
    using es by (auto simp: strlen_buf_Inr)
  note good = good_cmd_words [OF parseline_good [OF p, THEN conjunct2]]
  have w: "q < eq" "eq \<le> es" "\<forall>i. q \<le> i \<and> i < eq \<longrightarrow> wordchar (buf ! i)"
    using good [OF assms(2)] l(1) by (auto simp: good_word_def)
  have inside: "buf' ! i = buf ! i" if i: "q \<le> i" "i < eq" for i
  proof -
    have "i \<notin> snd ` set (cmd_words c)"
    proof
      assume "i \<in> snd ` set (cmd_words c)"
      then obtain v where "v \<in> set (cmd_words c)" "i = snd v" by auto
      then have "\<not> wordchar (buf ! i)"
        using good [of v] w(2) i l(1) by (auto simp: good_word_def)
      then show False using w(3) i by blast
    qed
    then show ?thesis using b i w(2) l(1) by (simp add: nulterminate_zero_ends zero_ends_nth)
  qed
  have eq0: "buf' ! eq = 0"
    using b assms(2) w(2) l(1) by (force simp: nulterminate_zero_ends zero_ends_nth)
  have "buf ! i \<noteq> 0" if "q \<le> i" "i < eq" for i
    using nz that w(2) l(1) by (auto simp: in_set_conv_nth)
  then have "cstr buf' q = take (eq - q) (drop q buf')"
    using inside w l(1) b eq0
    by (intro cstr_split) (auto simp: nulterminate_zero_ends)
  moreover have "take (eq - q) (drop q buf') = take (eq - q) (drop q buf)"
    using inside w l(1) b by (intro nth_equalityI) (auto simp: nulterminate_zero_ends)
  moreover have "list_all wordchar (take (eq - q) (drop q buf))"
    using w l(1) by (auto simp: list_all_length)
  ultimately show ?thesis using w(1) by simp
qed

theorem parsecmd_words_witness:
  "parsecmd [97, 60, 98, 0] = Inr (Redir (Exec [(0, 1)]) (2, 3) O_RDONLY 0, [97, 0, 98, 0])
   \<and> cstr [97, 0, 98, 0] 2 = [98]"
proof -
  have p: "parsecmd [97, 60, 98, 0] = Inr (Redir (Exec [(0, 1)]) (2, 3) O_RDONLY 0, [97, 0, 98, 0])"
    by code_simp
  show ?thesis using p parsecmd_words [OF p, of 2 3] by simp
qed

subsection \<open>Every line is parsed or rejected\<close>

definition syntax_errors :: "stop set" where
  "syntax_errors = Panic ` {''missing file for redirection'', ''syntax'', ''too many args'', ''syntax - missing )''}"

lemma ebind_Inl:
  assumes "ebind m f = Inl e" "m = Inl e \<Longrightarrow> P" "\<And>x. m = Inr x \<Longrightarrow> f x = Inl e \<Longrightarrow> P"
  shows P
  using assms by (cases m) auto

lemma parseredirs_error: "parseredirs line c s = Inl e \<Longrightarrow> s \<le> length line \<Longrightarrow> e \<in> syntax_errors"
proof (induction line c s rule: parseredirs.induct)
  case (1 line c s)
  obtain b s1 where p: "peek line ''<>'' s = Inr (b, s1)" using peek_defined "1.prems"(2) by blast
  obtain t q eq s2 where g: "gettoken line s1 = Inr (t, q, eq, s2)" using gettoken_defined peek_ge [OF p] by blast
  obtain t' q' eq' s3 where g': "gettoken line s2 = Inr (t', q', eq', s3)" using gettoken_defined gettoken_ge [OF g] by blast
  show ?case
    using "1.prems" "1.IH" [OF p refl _ g refl refl refl g' refl refl refl] gettoken_ge [OF g']
    by (subst (asm) parseredirs.simps) (auto simp: p g g' syntax_errors_def split: if_splits)
qed

lemma parseargs_error: "parseargs line c argc s = Inl e \<Longrightarrow> s \<le> length line \<Longrightarrow> e \<in> syntax_errors"
proof (induction line c argc s rule: parseargs.induct)
  case (1 line c argc s)
  obtain b s1 where p: "peek line ''|)&;'' s = Inr (b, s1)" using peek_defined "1.prems"(2) by blast
  obtain t q eq s2 where g: "gettoken line s1 = Inr (t, q, eq, s2)" using gettoken_defined peek_ge [OF p] by blast
  have err: "Panic ''syntax'' \<in> syntax_errors" "Panic ''too many args'' \<in> syntax_errors"
    by (simp_all add: syntax_errors_def)
  have ih: "e \<in> syntax_errors" if "\<not> b" "t = chr CHR ''a''" "\<not> MAXARGS \<le> argc + 1"
    "parseredirs line (addarg c (q, eq)) s2 = Inr (c1, s3)" "parseargs line c1 (argc + 1) s3 = Inl e" for c1 s3
    using "1.IH" [OF p refl _ g refl refl refl _ _ refl refl _ that(4) refl that(5)] that parseredirs_le [OF that(4)]
    by (auto simp: chr_def)
  show ?case
    using "1.prems" ih err gettoken_ge [OF g]
    by (subst (asm) parseargs.simps)
      (auto simp: p g Let_def elim!: ebind_Inl dest: parseredirs_error split: if_split_asm)
qed

lemma parsebacks_total: "s \<le> length line \<Longrightarrow> \<exists>c' s'. parsebacks line c s = Inr (c', s')"
proof (induction line c s rule: parsebacks.induct)
  case (1 line c s)
  obtain b s1 where p: "peek line ''&'' s = Inr (b, s1)" using peek_defined "1.prems" by blast
  obtain t q eq s2 where g: "gettoken line s1 = Inr (t, q, eq, s2)" using gettoken_defined peek_ge [OF p] by blast
  show ?case
    using "1.IH" [OF p refl _ g refl refl refl] gettoken_ge [OF g]
    by (subst parsebacks.simps) (auto simp: p g)
qed

lemma skip_white_again [simp]: "skip_white line (skip_white line s) = skip_white line s"
  using skip_white_stop [of line s] by (subst skip_white.simps) auto

lemma peek_again: "peek line toks s = Inr (b, s1) \<Longrightarrow> peek line toks s1 = Inr (b, s1)"
  by (auto simp: peek_def Let_def elim!: ebindE)

lemma parse_error:
  "parseline line s = Inl e \<Longrightarrow> s \<le> length line \<Longrightarrow> e \<in> syntax_errors"
  "parsepipe line s = Inl e \<Longrightarrow> s \<le> length line \<Longrightarrow> e \<in> syntax_errors"
  "parseblock line s = Inl e \<Longrightarrow> \<exists>s'. peek line ''('' s = Inr (True, s') \<Longrightarrow> e \<in> syntax_errors"
  "parseexec line s = Inl e \<Longrightarrow> s \<le> length line \<Longrightarrow> e \<in> syntax_errors"
proof (induction line s and line s and line s and line s rule: parseline_parsepipe_parseblock_parseexec.induct)
  case (1 line s)
  show ?case
  proof (cases "parsepipe line s")
    case (Inl a)
    then show ?thesis using "1.prems" "1.IH"(1) by (simp add: parseline.simps)
  next
    case (Inr cs)
    obtain c1 s1 where cs: "cs = (c1, s1)" by fastforce
    then have "s1 \<le> length line" using parse_le(2) Inr by blast
    then obtain c2 s2 where b: "parsebacks line c1 s1 = Inr (c2, s2)" using parsebacks_total by blast
    obtain d s3 where p: "peek line '';'' s2 = Inr (d, s3)" using peek_defined parsebacks_good [OF b] by blast
    obtain t q eq s4 where g: "gettoken line s3 = Inr (t, q, eq, s4)" using gettoken_defined peek_ge [OF p] by blast
    have "d \<and> parseline line s4 = Inl e"
      using "1.prems" by (auto simp: parseline.simps [of line s] Inr cs b p g elim!: ebind_Inl split: if_split_asm)
    then show ?thesis
      using "1.IH"(2) [OF Inr _ b refl p refl _ g refl refl refl] cs gettoken_ge [OF g] by blast
  qed
next
  case (2 line s)
  show ?case
  proof (cases "parseexec line s")
    case (Inl a)
    then show ?thesis using "2.prems" "2.IH"(1) by (simp add: parsepipe.simps)
  next
    case (Inr cs)
    obtain c1 s1 where cs: "cs = (c1, s1)" by fastforce
    then have "s1 \<le> length line" using parse_le(3) Inr by blast
    then obtain d s3 where p: "peek line ''|'' s1 = Inr (d, s3)" using peek_defined by blast
    obtain t q eq s4 where g: "gettoken line s3 = Inr (t, q, eq, s4)" using gettoken_defined peek_ge [OF p] by blast
    have "d \<and> parsepipe line s4 = Inl e"
      using "2.prems" by (auto simp: parsepipe.simps [of line s] Inr cs p g elim!: ebind_Inl split: if_split_asm)
    then show ?thesis
      using "2.IH"(2) [OF Inr _ p refl _ g refl refl refl] cs gettoken_ge [OF g] by blast
  qed
next
  case (3 line s)
  have err: "Panic ''syntax - missing )'' \<in> syntax_errors" by (simp add: syntax_errors_def)
  obtain s1 where p: "peek line ''('' s = Inr (True, s1)" using "3.prems"(2) by blast
  obtain t q eq s2 where g: "gettoken line s1 = Inr (t, q, eq, s2)" using gettoken_defined peek_ge [OF p] by blast
  show ?case
  proof (cases "parseline line s2")
    case (Inl a)
    then show ?thesis
      using "3.prems"(1) "3.IH" [OF p refl _ g refl refl refl] gettoken_ge [OF g]
      by (simp add: parseblock.simps p g)
  next
    case (Inr cs)
    obtain c1 s3 where cs: "cs = (c1, s3)" by fastforce
    then obtain d s4 where p': "peek line '')'' s3 = Inr (d, s4)" using peek_defined parse_le(1) Inr by blast
    obtain t' q' eq' s5 where g': "gettoken line s4 = Inr (t', q', eq', s5)" using gettoken_defined peek_ge [OF p'] by blast
    show ?thesis
      using "3.prems"(1) err gettoken_ge [OF g']
      by (auto simp: parseblock.simps p g Inr cs p' g' dest: parseredirs_error split: if_split_asm)
  qed
next
  case (4 line s)
  obtain b s1 where p: "peek line ''('' s = Inr (b, s1)" using peek_defined "4.prems"(2) by blast
  show ?case
    using "4.prems" "4.IH" [OF p refl] peek_again [OF p] peek_ge [OF p]
    by (cases b) (auto simp: parseexec.simps p elim!: ebind_Inl dest: parseredirs_error parseargs_error parseredirs_le)
qed

lemma strlen_buf_takeWhile:
  assumes "0 \<in> set buf"
  shows "strlen_buf buf = Inr (length (takeWhile (\<lambda>c. c \<noteq> 0) buf))"
  using assms by (induction buf) auto

text \<open>
  C33.  The parser always comes to an end and stays inside the line: on every buffer that holds a
  string it either rejects the line with one of four messages or produces a well-formed command
  (non-empty words inside the line, fewer than ten arguments, the two kinds of redirections).  A read
  behind the NUL, which would be an undefined outcome, does not occur, and the panic of
  \<open>parseblock\<close> is never reached.
\<close>

theorem parsecmd_returns:
  assumes "0 \<in> set buf"
  shows "(\<exists>c buf'. parsecmd buf = Inr (c, buf') \<and> length buf' = length buf
            \<and> good_cmd (takeWhile (\<lambda>c. c \<noteq> 0) buf) c)
         \<or> (\<exists>e. parsecmd buf = Inl e \<and> e \<in> syntax_errors)"
proof -
  let ?line = "takeWhile (\<lambda>c. c \<noteq> 0) buf"
  have line: "take (length ?line) buf = ?line" by (metis takeWhile_eq_take)
  show ?thesis
  proof (cases "parseline ?line 0")
    case (Inl e)
    then show ?thesis
      using parse_error(1) [OF Inl] by (simp add: parsecmd_def strlen_buf_takeWhile [OF assms] line)
  next
    case (Inr r)
    obtain c s where r: "r = (c, s)" by fastforce
    have "good_cmd ?line c" using parseline_good Inr r by blast
    moreover obtain b s1 where "peek ?line [] s = Inr (b, s1)" using peek_defined parseline_good Inr r by blast
    moreover have "Panic ''syntax'' \<in> syntax_errors" by (simp add: syntax_errors_def)
    ultimately show ?thesis
      using Inr r
      by (auto simp: parsecmd_def Let_def strlen_buf_takeWhile [OF assms] line nulterminate_zero_ends)
  qed
qed

theorem parsecmd_returns_witness:
  "\<exists>c buf'. parsecmd [40, 97, 59, 98, 41, 124, 99, 10, 0] = Inr (c, buf')
     \<and> good_cmd [40, 97, 59, 98, 41, 124, 99, 10] c"
proof -
  have "parsecmd [40, 97, 59, 98, 41, 124, 99, 10, 0] =
      Inr (PipeC (ListC (Exec [(1, 2)]) (Exec [(3, 4)])) (Exec [(6, 7)]), [40, 97, 0, 98, 0, 124, 99, 0, 0])"
    by code_simp
  with parsecmd_returns [of "[40, 97, 59, 98, 41, 124, 99, 10, 0]"] show ?thesis by auto
qed

end
