(* ===== verification/ShellRun.thy ===== *)
theory ShellRun
  imports Shell
begin

text \<open>
  \<open>runcmd\<close>, \<open>getcmd\<close> and the loop of \<open>main\<close> of \<open>user/sh.c\<close>.  A process is the tree of the system
  calls it makes, with a branch for every result that the code distinguishes.  The trees are run
  against descriptor tables in which \<open>open\<close>, \<open>dup\<close> and \<open>pipe\<close> take the lowest free slots, and the
  outcome is compared with a specification by the structure of the command.
\<close>

subsection \<open>The system calls of a command\<close>

datatype act =
    Exit
  | Close nat act
  | Dup nat act
  | Open "uchar list" uint (open_fail: act) (open_ok: act)
  | ExecCall "uchar list" "uchar list list" act
  | Fork (child: act) (parent: act) (fork_fail: act)
  | Wait act
  | PipeCall (pipe_fail: act) "nat \<times> nat \<Rightarrow> act"
  | Write2 "uchar list outcome" act

text \<open>\<open>panic\<close> of the shell.\<close>

definition sh_panic :: "string \<Rightarrow> act" where
  "sh_panic m = Write2 (printf (''%s'' @ [CHR 0x0A]) [AStr (Some (map chr m))]) Exit"

definition fork1 :: "act \<Rightarrow> act \<Rightarrow> act" where
  "fork1 c p = Fork c p (sh_panic ''fork'')"

text \<open>The words are read from the buffer, where \<open>nulterminate\<close> has terminated them.\<close>

fun runcmd :: "uchar list \<Rightarrow> cmd \<Rightarrow> act" where
  "runcmd buf (Exec ws) =
     (case ws of
        [] \<Rightarrow> Exit
      | w # _ \<Rightarrow>
          ExecCall (cstr buf (fst w)) (map (\<lambda>w. cstr buf (fst w)) ws)
            (Write2 (printf (''exec %s failed'' @ [CHR 0x0A]) [AStr (Some (cstr buf (fst w)))]) Exit))"
| "runcmd buf (Redir c f m d) =
     Close d (Open (cstr buf (fst f)) m
       (Write2 (printf (''open %s failed'' @ [CHR 0x0A]) [AStr (Some (cstr buf (fst f)))]) Exit)
       (runcmd buf c))"
| "runcmd buf (ListC l r) = fork1 (runcmd buf l) (Wait (runcmd buf r))"
| "runcmd buf (PipeC l r) =
     PipeCall (sh_panic ''pipe'') (\<lambda>(p0, p1).
       fork1 (Close 1 (Dup p1 (Close p0 (Close p1 (runcmd buf l)))))
        (fork1 (Close 0 (Dup p0 (Close p0 (Close p1 (runcmd buf r)))))
          (Close p0 (Close p1 (Wait (Wait Exit))))))"
| "runcmd buf (Back c) = fork1 (runcmd buf c) Exit"

text \<open>\<open>getcmd\<close>: the line in the zeroed buffer, or nothing at the end of the input.\<close>

definition getcmd :: "nat \<Rightarrow> reads \<Rightarrow> uchar list option \<times> reads" where
  "getcmd nbuf rs =
     (let (cs, rs) = gets nbuf rs;
          buf = cs @ replicate (nbuf - length cs) 0
      in (if buf ! 0 = 0 then None else Some buf, rs))"

text \<open>
  One round of the loop of \<open>main\<close>: a \<open>cd\<close> is done by the shell itself, after the last byte of the
  line has been cut off; anything else is parsed and run by a child.
\<close>

datatype round = Chdir "uchar list" | Child "act outcome"

definition sh_round :: "uchar list \<Rightarrow> round outcome" where
  "sh_round buf =
     (if buf ! 0 = chr CHR ''c'' \<and> buf ! 1 = chr CHR ''d'' \<and> buf ! 2 = chr CHR '' ''
      then ebind (strlen_buf buf) (\<lambda>n. Inr (Chdir (cstr (buf[n - 1 := 0]) 3)))
      else Inr (Child (ebind (parsecmd buf) (\<lambda>(c, buf). Inr (runcmd buf c)))))"

function sh_main :: "reads \<Rightarrow> round outcome list" where
  "sh_main rs =
     (case getcmd 100 rs of
        (None, rs) \<Rightarrow> []
      | (Some buf, rs) \<Rightarrow> sh_round buf # sh_main rs)"
  by pat_completeness auto

lemma gets_left: "reads_left (snd (gets_loop k rs)) \<le> reads_left rs"
proof (induction k rs rule: gets_loop.induct)
  case (2 k rs)
  have "reads_left (snd (uread 1 rs)) \<le> reads_left rs"
    by (auto simp: uread_def reads_left_def split: list.splits option.splits)
  then show ?case
    using 2 by (fastforce split: prod.splits option.splits list.splits)
qed simp

lemma gets_progress:
  assumes "gets_loop k rs = (c # cs, rs')"
  shows "reads_left rs' < reads_left rs"
proof (cases k)
  case (Suc k)
  show ?thesis
  proof (cases "uread 1 rs")
    case (Pair r rs1)
    have "\<exists>d. r = Some [d]" and le: "reads_left rs' \<le> reads_left rs1"
      using assms Suc Pair gets_left [of k rs1]
      by (auto split: option.split_asm list.split_asm if_split_asm prod.split_asm)
    then show ?thesis using uread_left [of 1 rs] Pair by fastforce
  qed
qed (use assms in simp)

termination sh_main
proof (relation "measure reads_left", goal_cases)
  case (2 rs b rs' buf)
  obtain cs where g: "gets_loop 99 rs = (cs, rs')"
    using 2 by (auto simp: getcmd_def gets_def Let_def split: prod.split_asm)
  have "cs \<noteq> []"
    using 2 g by (auto simp: getcmd_def gets_def Let_def split: if_split_asm)
  then show ?case using g gets_progress by (cases cs) auto
qed simp

declare sh_main.simps [simp del]

subsection \<open>Descriptor tables\<close>

text \<open>What a descriptor refers to: an end of the pipe with a number, a file opened by name, or
  something the shell was started with.\<close>

datatype obj = PipeR nat | PipeW nat | FileO "uchar list" uint | Inherited nat

type_synonym fds = "obj option list"

fun lowest :: "fds \<Rightarrow> nat option" where
  "lowest [] = None"
| "lowest (x # fds) = (if x = None then Some 0 else map_option Suc (lowest fds))"

definition install :: "obj \<Rightarrow> fds \<Rightarrow> (nat \<times> fds) option" where
  "install x fds = map_option (\<lambda>d. (d, fds[d := Some x])) (lowest fds)"

text \<open>
  The programs that a tree starts, each with its arguments and its descriptor table, when no call
  fails for another reason than a full table; \<open>n\<close> numbers the pipes.
\<close>

type_synonym started = "uchar list \<times> uchar list list \<times> fds"

primrec launch :: "act \<Rightarrow> fds \<Rightarrow> nat \<Rightarrow> started list \<times> nat" where
  "launch Exit = (\<lambda>fds n. ([], n))"
| "launch (Close d a) = (\<lambda>fds n. launch a (fds[d := None]) n)"
| "launch (Dup d a) =
     (\<lambda>fds n. case (if d < length fds then fds ! d else None) of
        None \<Rightarrow> launch a fds n
      | Some x \<Rightarrow> (case install x fds of None \<Rightarrow> launch a fds n | Some (_, fds) \<Rightarrow> launch a fds n))"
| "launch (Open f m bad ok) =
     (\<lambda>fds n. case install (FileO f m) fds of
        None \<Rightarrow> launch bad fds n
      | Some (_, fds) \<Rightarrow> launch ok fds n)"
| "launch (ExecCall p args a) = (\<lambda>fds n. ([(p, args, fds)], n))"
| "launch (Fork c p bad) =
     (\<lambda>fds n. let (xs, n) = launch c fds n; (ys, n) = launch p fds n in (xs @ ys, n))"
| "launch (Wait a) = launch a"
| "launch (PipeCall bad k) =
     (\<lambda>fds n. case install (PipeR n) fds of
        None \<Rightarrow> launch bad fds n
      | Some (p0, fds0) \<Rightarrow>
          (case install (PipeW n) fds0 of
             None \<Rightarrow> launch bad fds n
           | Some (p1, fds1) \<Rightarrow> (launch \<circ> k) (p0, p1) fds1 (n + 1)))"
| "launch (Write2 bs a) = launch a"

subsection \<open>What a command means\<close>

fun denote :: "uchar list \<Rightarrow> cmd \<Rightarrow> fds \<Rightarrow> nat \<Rightarrow> started list \<times> nat" where
  "denote buf (Exec ws) fds n =
     (if ws = [] then ([], n)
      else ([(cstr buf (fst (hd ws)), map (\<lambda>w. cstr buf (fst w)) ws, fds)], n))"
| "denote buf (Redir c f m d) fds n = denote buf c (fds[d := Some (FileO (cstr buf (fst f)) m)]) n"
| "denote buf (ListC l r) fds n =
     (let (xs, n) = denote buf l fds n; (ys, n) = denote buf r fds n in (xs @ ys, n))"
| "denote buf (PipeC l r) fds n =
     (let (xs, n') = denote buf l (fds[1 := Some (PipeW n)]) (n + 1);
          (ys, n'') = denote buf r (fds[0 := Some (PipeR n)]) n'
      in (xs @ ys, n''))"
| "denote buf (Back c) fds n = denote buf c fds n"

lemma lowest_Some:
  "lowest fds = Some d \<longleftrightarrow> d < length fds \<and> fds ! d = None \<and> (\<forall>i < d. fds ! i \<noteq> None)"
proof (induction fds arbitrary: d)
  case (Cons x fds)
  then show ?case
    by (cases d) (auto simp: All_less_Suc2)
qed simp

lemma lowest_None: "lowest fds = None \<longleftrightarrow> (\<forall>i < length fds. fds ! i \<noteq> None)"
  by (induction fds) (auto simp: All_less_Suc2)

text \<open>The tables with which a command is run: standard input and output and two free slots.\<close>

definition ready :: "fds \<Rightarrow> bool" where
  "ready fds \<longleftrightarrow>
     2 \<le> length fds \<and> fds ! 0 \<noteq> None \<and> fds ! 1 \<noteq> None
     \<and> (\<exists>i j. i < j \<and> j < length fds \<and> fds ! i = None \<and> fds ! j = None)"

lemma readyI:
  "\<lbrakk>2 \<le> length fds; fds ! 0 \<noteq> None; fds ! 1 \<noteq> None; i < j; j < length fds; fds ! i = None; fds ! j = None\<rbrakk>
    \<Longrightarrow> ready fds"
  unfolding ready_def by blast

lemma ready_update:
  assumes "ready fds" "d \<le> 1"
  shows "ready (fds[d := Some x])"
proof -
  obtain i j where ij: "i < j" "j < length fds" "fds ! i = None" "fds ! j = None"
    using assms(1) by (auto simp: ready_def)
  have "i \<noteq> d" "j \<noteq> d" using assms ij by (auto simp: ready_def le_Suc_eq)
  then have "i < j \<and> j < length (fds[d := Some x]) \<and> fds[d := Some x] ! i = None \<and> fds[d := Some x] ! j = None"
    using ij by simp
  moreover have "2 \<le> length (fds[d := Some x])" "fds[d := Some x] ! 0 \<noteq> None" "fds[d := Some x] ! 1 \<noteq> None"
    using assms by (auto simp: ready_def nth_list_update)
  ultimately show ?thesis using readyI by blast
qed

text \<open>The two descriptors that \<open>pipe\<close> returns.\<close>

lemma ready_pipe:
  assumes "ready fds"
  obtains p0 p1 where "1 < p0" "p0 < p1" "p1 < length fds" "fds ! p0 = None" "fds ! p1 = None"
    "install x fds = Some (p0, fds[p0 := Some x])"
    "install y (fds[p0 := Some x]) = Some (p1, fds[p0 := Some x, p1 := Some y])"
proof -
  obtain i j where ij: "i < j" "j < length fds" "fds ! i = None" "fds ! j = None"
    using assms by (auto simp: ready_def)
  obtain p0 where p0: "lowest fds = Some p0" using ij lowest_None [of fds] by (cases "lowest fds") auto
  then have a: "p0 < length fds" "fds ! p0 = None" "\<forall>i < p0. fds ! i \<noteq> None" by (auto simp: lowest_Some)
  have "p0 \<le> i" using a(3) ij by (meson not_le)
  then have "j < length (fds[p0 := Some x])" "fds[p0 := Some x] ! j = None" using ij by auto
  then obtain p1 where p1: "lowest (fds[p0 := Some x]) = Some p1"
    using lowest_None [of "fds[p0 := Some x]"] by (cases "lowest (fds[p0 := Some x])") auto
  then have b: "p1 < length fds" "fds[p0 := Some x] ! p1 = None" by (auto simp: lowest_Some)
  then have "p1 \<noteq> p0" "fds ! p1 = None" using a by (auto simp: nth_list_update split: if_splits)
  moreover have "\<not> p1 < p0" using a(3) \<open>fds ! p1 = None\<close> by blast
  moreover have "1 < p0" using a assms by (auto simp: ready_def not_le less_Suc_eq intro!: Suc_lessI gr0I)
  ultimately show thesis using that [of p0 p1] a b p0 p1 by (simp add: install_def)
qed

text \<open>Closing a standard descriptor makes it the lowest free one.\<close>

lemma install_closed:
  assumes "d \<le> 1" "2 \<le> length fds" "fds ! 0 \<noteq> None"
  shows "install x (fds[d := None]) = Some (d, fds[d := Some x])"
proof -
  obtain a b rest where "fds = a # b # rest"
    using assms(2) by (metis One_nat_def Suc_1 Suc_le_length_iff)
  moreover from assms(1) have "d = 0 \<or> d = 1" by auto
  ultimately have "lowest (fds[d := None]) = Some d"
    using assms(3) by auto
  then show ?thesis by (simp add: install_def)
qed

text \<open>The child of a pipeline, from the call of \<open>close\<close> to the command.\<close>

lemma launch_end:
  assumes "ready fds" "1 < p0" "p0 < p1" "p1 < length fds" "fds ! p0 = None" "fds ! p1 = None"
    "d \<le> 1" "p = p0 \<and> z = x \<or> p = p1 \<and> z = y"
  shows "launch (Close d (Dup p (Close p0 (Close p1 a)))) (fds[p0 := Some x, p1 := Some y]) n =
           launch a (fds[d := Some z]) n"
proof -
  let ?f = "fds[p0 := Some x, p1 := Some y]"
  have "d \<noteq> p0" "d \<noteq> p1" "p0 \<noteq> p1" using assms by auto
  then have "?f[d := None] ! p = Some z" "p < length ?f"
    using assms by (auto simp: nth_list_update)
  moreover have "install z (?f[d := None]) = Some (d, ?f[d := Some z])"
    using assms by (intro install_closed) (auto simp: ready_def)
  moreover have "?f[d := Some z, p0 := None, p1 := None] = fds[d := Some z]"
    using assms \<open>d \<noteq> p0\<close> \<open>d \<noteq> p1\<close> by (intro nth_equalityI) (auto simp: nth_list_update)
  ultimately show ?thesis by simp
qed

fun std_redirs :: "cmd \<Rightarrow> bool" where
  "std_redirs (Exec ws) = True"
| "std_redirs (Redir c f m d) = (std_redirs c \<and> d \<le> 1)"
| "std_redirs (PipeC l r) = (std_redirs l \<and> std_redirs r)"
| "std_redirs (ListC l r) = (std_redirs l \<and> std_redirs r)"
| "std_redirs (Back c) = std_redirs c"

lemma good_std_redirs: "good_cmd line c \<Longrightarrow> std_redirs c"
  by (induction c) (auto simp: good_redir_def)

lemma launch_denote:
  "ready fds \<Longrightarrow> std_redirs c \<Longrightarrow> launch (runcmd buf c) fds n = denote buf c fds n"
proof (induction c arbitrary: fds n)
  case (Exec ws)
  then show ?case by (cases ws) auto
next
  case (Redir c f m d)
  have "install (FileO (cstr buf (fst f)) m) (fds[d := None]) =
      Some (d, fds[d := Some (FileO (cstr buf (fst f)) m)])"
    using Redir.prems by (intro install_closed) (auto simp: ready_def)
  then show ?case using Redir ready_update by simp
next
  case (PipeC l r)
  obtain p0 p1 where p: "1 < p0" "p0 < p1" "p1 < length fds" "fds ! p0 = None" "fds ! p1 = None"
    "install (PipeR n) fds = Some (p0, fds[p0 := Some (PipeR n)])"
    "install (PipeW n) (fds[p0 := Some (PipeR n)]) = Some (p1, fds[p0 := Some (PipeR n), p1 := Some (PipeW n)])"
    using ready_pipe [OF PipeC.prems(1)] by blast
  let ?f = "fds[p0 := Some (PipeR n), p1 := Some (PipeW n)]"
  have l: "launch (Close (Suc 0) (Dup p1 (Close p0 (Close p1 (runcmd buf l))))) ?f m =
      denote buf l (fds[Suc 0 := Some (PipeW n)]) m" for m
    using launch_end [OF PipeC.prems(1) p(1-5), of 1 p1 "PipeW n" "PipeR n" "PipeW n"]
      PipeC.IH(1) PipeC.prems ready_update by simp
  have r: "launch (Close 0 (Dup p0 (Close p0 (Close p1 (runcmd buf r))))) ?f m =
      denote buf r (fds[0 := Some (PipeR n)]) m" for m
    using launch_end [OF PipeC.prems(1) p(1-5), of 0 p0 "PipeR n" "PipeR n" "PipeW n"]
      PipeC.IH(2) PipeC.prems ready_update by simp
  have "launch (Close p0 (Close p1 (Wait (Wait Exit)))) ?f m = ([], m)" for m by simp
  with l r show ?case
    by (simp add: p(6, 7) fork1_def split_beta Let_def del: launch.simps(2, 3))
qed (simp_all add: fork1_def split_beta Let_def)

lemma parsecmd_std_redirs: "parsecmd buf = Inr (c, buf') \<Longrightarrow> std_redirs c"
  by (auto simp: parsecmd_def Let_def elim!: ebindE split: prod.split_asm if_split_asm
      dest!: parseline_good good_std_redirs)



end
