(* ===== verification/Spec2Isabelle.thy ===== *)
theory Spec2Isabelle
  imports Sched Inode UserMem Paths Trap Grep ShellRun
begin

text \<open>
  A model of the xv6 kernel with copy-on-write \<open>fork\<close> (\<open>src/xv6\<close>), with the theorems about it.

  \<^bold>\<open>Conventions.\<close>  A C function is a function of the same name from its arguments and the state to an
  \<open>outcome\<close>: \<open>Inr\<close> of the result and the new state, or \<open>Inl\<close> of the way it stops, which is
  \<open>Panic msg\<close>, \<open>Sleep chan\<close> (the call blocks) or \<open>Undef why\<close> (the C program has no defined
  behaviour, for instance a null pointer is followed).  Loops are recursive functions with a
  termination proof; helper functions named \<open>..._loop\<close> or \<open>..._step\<close> are loop bodies.  Integers that can
  wrap are words of their width.  The state is a record that each theory extends: \<open>mach\<close> (physical
  memory and free list), \<open>kern\<close> (process table, CPU registers), \<open>bio\<close> (buffers and disk), \<open>log\<close>,
  \<open>fs\<close> (inode cache), \<open>pipes\<close>, \<open>files\<close> and \<open>cons\<close>.  A function works on every extension of the record it needs.
  Locks are modelled where they matter (\<open>Spinlock\<close>, \<open>Sched\<close>); in the other theories a function runs
  without interruption between the points at which it sleeps, as under the kernel's locks.
  \<open>Sleep chan\<close> says that a call blocks and does not keep the state it has reached; where the rest of the
  call matters, in \<open>Pipe\<close> and \<open>Console\<close>, it is kept in a value of type \<open>call\<close>, and \<open>of_call\<close> forgets it
  when the file layer above only needs to know that the call blocks.

  \<^bold>\<open>Theories.\<close>
  \<^item> \<open>Prelude\<close>, \<open>Memory\<close>: outcomes, loops over lists, byte memory with 32-bit loads and stores.
  \<^item> \<open>Mmu\<close> (\<open>mmu.h\<close>, \<open>memlayout.h\<close>): address macros, descriptors; rounding and round trips.
  \<^item> \<open>CString\<close> (\<open>string.c\<close>): each routine against its specification, with overlap and wrap-around.
  \<^item> \<open>Spinlock\<close> (\<open>spinlock.c\<close>): interrupt nesting; mutual exclusion for any interleaving of CPUs.
  \<^item> \<open>Kalloc\<close> (\<open>kalloc.c\<close>): the free list; no page is lost or handed out twice.
  \<^item> \<open>Proctab\<close>, \<open>Sched\<close> (\<open>proc.c\<close>): process table, \<open>allocproc\<close>, \<open>kill\<close>; the scheduler as a step relation.
  \<^item> \<open>Bio\<close>, \<open>Cache\<close> (\<open>bio.c\<close>, \<open>memide.c\<close>): the ring of buffers as a list in order of use; the contract
    of the cache as locale \<open>block_cache\<close>, interpreted on \<open>bread\<close>, \<open>bwrite\<close> and \<open>brelse\<close>.
  \<^item> \<open>Fslayout\<close>, \<open>Log\<close>, \<open>Fs\<close> (\<open>fs.h\<close>, \<open>log.c\<close>, \<open>fs.c\<close>): disk format, transactions, inodes, directories, paths.
  \<^item> \<open>Paths\<close>: \<open>namex\<close> is the walk along the components of the path.
  \<^item> \<open>Crash\<close>: transactions are atomic, whatever the writes after which the machine stops, also during recovery.
  \<^item> \<open>Blocks\<close>, \<open>Inode\<close> (\<open>fs.c\<close>): inside a transaction, \<open>balloc\<close> and \<open>bfree\<close> keep the bitmap as the set of blocks
    in use, and an inode written by \<open>iupdate\<close> is read back by \<open>ilock\<close>.
  \<^item> \<open>Pipe\<close>, \<open>File\<close> (\<open>pipe.c\<close>, \<open>file.c\<close>): pipes as bounded queues on which no wakeup is lost; the table of open files.
  \<^item> \<open>Console\<close>, \<open>Kbd\<close> (\<open>console.c\<close>, \<open>kbd.c\<close>): output, line editing, scan codes.
  \<^item> \<open>Vm\<close>, \<open>Process\<close>, \<open>Exec\<close> (\<open>vm.c\<close>, \<open>proc.c\<close>, \<open>exec.c\<close>): page tables as words in memory, \<open>fork\<close>, \<open>exit\<close>, \<open>wait\<close>,
    the copy-on-write fault handler, program loading.
  \<^item> \<open>Paging\<close>, \<open>Cow\<close>, \<open>CowLimits\<close>: the role of every page of memory as an invariant of the page tables; the copy-on-write
    fault isolates the process, and the situations in which sharing goes wrong: a free slot in the process table, a
    read-only directory entry, and frames that are freed while another process maps them.
  \<^item> \<open>UserMem\<close>: \<open>allocuvm\<close> keeps the roles of the pages and gives a process zeroed memory.
  \<^item> \<open>Sysfile\<close>, \<open>Trap\<close> (\<open>syscall.c\<close>, \<open>sysfile.c\<close>, \<open>sysproc.c\<close>, \<open>trap.c\<close>): system calls and traps; the page faults that
    the kernel takes itself.
  \<^item> \<open>Ulib\<close> (\<open>user/ulib.c\<close>, \<open>user/printf.c\<close>, \<open>user/wc.c\<close>): strings, numbers, formatted output and \<open>wc\<close>.  A descriptor to read
    from is the list of the results of the successive calls of \<open>read\<close>.
  \<^item> \<open>Grep\<close> (\<open>user/grep.c\<close>): the matcher decides the language of the pattern; the loop over the input filters its
    lines, and reads outside its buffer when the input comes in pieces.
  \<^item> \<open>Shell\<close>, \<open>ShellRun\<close> (\<open>user/sh.c\<close>): the parser ends on every line without reading behind it and terminates its words in place; \<open>runcmd\<close> is the tree
    of the system calls it makes and starts the programs that the command means.  The parsing functions
    call each other on the position at which the previous one stopped, so their termination rests on a lemma about the partial
    functions.

  \<^bold>\<open>Bounds.\<close>  Every loop is a total function.  One takes a bound on its turns: \<open>scan_next\<close> and \<open>scan_prev\<close> follow the
  pointers of the buffer ring in \<open>bget\<close> for at most \<open>Suc NBUF\<close> turns, which is enough because the ring that \<open>binit\<close>
  makes and \<open>brelse\<close> keeps has \<open>NBUF\<close> buffers and the head (lemma \<open>ring_scan\<close>).  Loops whose counter is an address
  (\<open>deallocuvm\<close>, \<open>allocuvm\<close>, \<open>copyuvm\<close>) count in natural numbers, which agree with the 32-bit addresses below \<open>KERNBASE\<close>
  plus one page table.  The nesting depth \<open>ncli\<close> is an unbounded integer.  Arithmetic on \<open>int\<close> that leaves the range of the type is
  \<open>Undef\<close> in \<open>atoi\<close>; the sign change in the two functions \<open>printint\<close> is that of the machine, which maps the least
  integer to itself.

  \<^bold>\<open>Not modelled.\<close>  Boot code, \<open>main.c\<close> (which only calls the initialisers) and assembly; the drivers of the
  interrupt controllers, the timer, the serial line and the IDE disk, whose effect is port I/O; the search for processors in
  \<open>mp.c\<close>, since the number of CPUs is arbitrary in the models; of the user programs the heap allocator, the tests and
  the short utilities that only make system calls; \<open>mkfs.c\<close>, which runs on the host.
\<close>

end
